(* ===== verification/Prelude.thy ===== *)
theory Prelude
  imports Main "HOL-Library.Multiset"
begin

text \<open>
  Shared groundwork of the development: the loop forms the C sources use, with the facts the
  component proofs need about them.

  \<^item> \<open>for_upd n f xs\<close> is the loop \<open>for (i = 0; i < n; i++) xs[i] = f(i, xs[i])\<close>.
  \<^item> \<open>find P [0..<n]\<close> is the loop that stops at the first index that satisfies \<open>P\<close>.
  \<^item> \<open>row_upd n f t mat\<close> runs \<open>for_upd\<close> on row \<open>t\<close> of a matrix.

  The collections \<open>loop_simps\<close> and \<open>step_simps\<close> gather the rewriting rules that the
  component theories add to.
\<close>

named_theorems loop_simps "characterisations of the loop forms"
named_theorems step_simps "definitions of operations, unfolded in the proofs about one step"

subsection \<open>The update loop over an array\<close>

definition for_upd :: "nat \<Rightarrow> (nat \<Rightarrow> 'a \<Rightarrow> 'a) \<Rightarrow> 'a list \<Rightarrow> 'a list" where
  "for_upd n f xs = fold (\<lambda>i ys. ys[i := f i (ys ! i)]) [0..<n] xs"

lemma for_upd_0 [simp]: "for_upd 0 f xs = xs"
  by (simp add: for_upd_def)

lemma for_upd_Suc: "for_upd (Suc n) f xs = (for_upd n f xs)[n := f n (for_upd n f xs ! n)]"
  by (simp add: for_upd_def)

lemma length_for_upd [simp]: "length (for_upd n f xs) = length xs"
  by (induction n) (auto simp: for_upd_Suc)

lemma nth_for_upd [loop_simps]:
  "j < length xs \<Longrightarrow> for_upd n f xs ! j = (if j < n then f j (xs ! j) else xs ! j)"
  by (induction n) (auto simp: for_upd_Suc nth_list_update less_Suc_eq)

lemma for_upd_cong:
  assumes "\<And>i. i < n \<Longrightarrow> i < length xs \<Longrightarrow> f i (xs ! i) = g i (xs ! i)"
  shows "for_upd n f xs = for_upd n g xs"
  by (rule nth_equalityI) (auto simp: nth_for_upd assms)

lemma for_upd_compose:
  "for_upd n g (for_upd n f xs) = for_upd n (\<lambda>i x. g i (f i x)) xs"
  by (rule nth_equalityI) (auto simp: nth_for_upd)

lemma for_upd_id: "(\<And>i. i < n \<Longrightarrow> i < length xs \<Longrightarrow> f i (xs ! i) = xs ! i) \<Longrightarrow> for_upd n f xs = xs"
  by (rule nth_equalityI) (auto simp: nth_for_upd)

definition row_upd :: "nat \<Rightarrow> (nat \<Rightarrow> 'a \<Rightarrow> 'a) \<Rightarrow> nat \<Rightarrow> 'a list list \<Rightarrow> 'a list list" where
  "row_upd n f t mat = mat[t := for_upd n f (mat ! t)]"

lemma length_row_upd [simp]: "length (row_upd n f t mat) = length mat"
  by (simp add: row_upd_def)

lemma nth_row_upd [loop_simps]:
  "i < length mat \<Longrightarrow> row_upd n f t mat ! i = (if i = t then for_upd n f (mat ! t) else mat ! i)"
  by (simp add: row_upd_def nth_list_update)

lemma row_upd_row_upd:
  "t < length mat \<Longrightarrow> row_upd n g t (row_upd n f t mat) = row_upd n (\<lambda>i x. g i (f i x)) t mat"
  by (simp add: row_upd_def for_upd_compose)

lemma row_upd_cancel:
  assumes "t < length mat" and "\<And>i. i < n \<Longrightarrow> g i (f i (mat ! t ! i)) = mat ! t ! i"
  shows "row_upd n g t (row_upd n f t mat) = mat"
proof -
  have "for_upd n g (for_upd n f (mat ! t)) = mat ! t"
    unfolding for_upd_compose by (rule for_upd_id) (rule assms(2))
  then show ?thesis using assms(1) by (simp add: row_upd_def)
qed

subsection \<open>The search loop\<close>

lemma find_upt_Some [loop_simps]:
  "find P [0..<n] = Some x \<longleftrightarrow> x < n \<and> P x \<and> (\<forall>i<x. \<not> P i)"
proof -
  have "find P [0..<n] = Some x \<longleftrightarrow>
      (\<exists>i<n. P ([0..<n] ! i) \<and> x = [0..<n] ! i \<and> (\<forall>j<i. \<not> P ([0..<n] ! j)))"
    by (simp add: find_Some_iff)
  then show ?thesis by fastforce
qed

lemma find_upt_None [loop_simps]: "find P [0..<n] = None \<longleftrightarrow> (\<forall>i<n. \<not> P i)"
  by (auto simp: find_None_iff)

text \<open>A loop that returns from the function at the first index satisfying \<open>P\<close>.\<close>

definition exits_early :: "nat \<Rightarrow> (nat \<Rightarrow> bool) \<Rightarrow> bool" where
  "exits_early n P = (case find P [0..<n] of Some _ \<Rightarrow> True | None \<Rightarrow> False)"

lemma exits_early_iff [loop_simps]: "exits_early n P \<longleftrightarrow> (\<exists>i<n. P i)"
  by (cases "find P [0..<n]")
    (use find_upt_None [of P n] find_upt_Some [of P n] in \<open>auto simp: exits_early_def\<close>)

lemma find_upt_least:
  assumes "x < n" and "P x" and "\<And>i. i < x \<Longrightarrow> \<not> P i"
  shows "find P [0..<n] = Some x"
  using assms by (simp add: find_upt_Some)

lemma all_marked_iff: "{i. i < n \<and> P i} = {..<n} \<longleftrightarrow> (\<forall>i \<in> set [0..<n]. P i)" for n :: nat
  unfolding set_eq_iff by (simp add: Ball_def) blast

lemma unmarked_set: "set (filter (\<lambda>i. \<not> P i) [0..<n]) = {..<n} - {i. i < n \<and> P i}" for n :: nat
  by auto

text \<open>Marking an unmarked entry leaves one unmarked entry fewer.\<close>

lemma count_list_mark:
  "x < length xs \<Longrightarrow> \<not> xs ! x \<Longrightarrow> count_list (xs[x := True]) False < count_list xs False"
proof (induction xs arbitrary: x)
  case (Cons y ys)
  then show ?case by (cases x) auto
qed simp

subsection \<open>Sums over index sets\<close>

lemma sum_minus_one:
  fixes f :: "nat \<Rightarrow> int"
  assumes "finite S" and "t \<in> S"
  shows "(\<Sum>i\<in>S. if i = t then g i else f i) = (\<Sum>i\<in>S. f i) - f t + g t"
proof -
  have "(\<Sum>i\<in>S. if i = t then g i else f i)
      = g t + (\<Sum>i\<in>S - {t}. if i = t then g i else f i)"
    using assms by (subst sum.remove [of S t]) auto
  also have "(\<Sum>i\<in>S - {t}. if i = t then g i else f i) = (\<Sum>i\<in>S - {t}. f i)"
    by (rule sum.cong) auto
  also have "\<dots> = (\<Sum>i\<in>S. f i) - f t"
    using assms by (simp add: sum_diff1)
  finally show ?thesis by simp
qed

lemma sum_nonneg_mono_subset:
  fixes f :: "nat \<Rightarrow> int"
  assumes "finite T" and "S \<subseteq> T" and "\<And>i. i \<in> T \<Longrightarrow> 0 \<le> f i"
  shows "(\<Sum>i\<in>S. f i) \<le> (\<Sum>i\<in>T. f i)"
  by (rule sum_mono2) (use assms in auto)

end
