(* ===== verification/Reduction.thy ===== *)
theory Reduction
  imports Prelude
begin

text \<open>
  The graph reduction behind both the banker's safety test and the deadlock detection of the
  resource manager, as a mathematical specification over \<open>n\<close> processes and \<open>m\<close> resource
  types: process \<open>i\<close> may still ask for \<open>req i\<close>, holds \<open>alloc i\<close>, and \<open>avail\<close> is free.

  \<^item> \<open>safe_order\<close>: the listed processes can run to completion one after the other, each
    handing back what it holds.
  \<^item> \<open>stuck\<close>: a set of processes none of which can run even after all the others have
    completed (the textbook meaning of deadlocked).
  \<^item> \<open>safe\<close>: some order completes all processes.

  The locale \<open>reduction\<close> is the interface to a state that has such matrices. It states the
  one law the argument needs (in a state that is \<open>ok\<close>, holdings are not negative) and proves once that any maximal order completes exactly the processes outside the greatest
  stuck set; so greedy search is complete, which neither client has to prove again.
\<close>

type_synonym fvec = "nat \<Rightarrow> int"
type_synonym fmat = "nat \<Rightarrow> nat \<Rightarrow> int"

definition can_run :: "nat \<Rightarrow> fmat \<Rightarrow> fvec \<Rightarrow> nat \<Rightarrow> bool" where
  "can_run m req w i \<longleftrightarrow> (\<forall>j<m. req i j \<le> w j)"

fun safe_order :: "nat \<Rightarrow> fmat \<Rightarrow> fmat \<Rightarrow> fvec \<Rightarrow> nat list \<Rightarrow> bool" where
  "safe_order m req alloc w [] = True"
| "safe_order m req alloc w (x # xs) =
     (can_run m req w x \<and> safe_order m req alloc (\<lambda>j. w j + alloc x j) xs)"

definition released :: "fvec \<Rightarrow> fmat \<Rightarrow> nat set \<Rightarrow> fvec" where
  "released w alloc S j = w j + (\<Sum>i\<in>S. alloc i j)"

definition stuck :: "nat \<Rightarrow> nat \<Rightarrow> fmat \<Rightarrow> fmat \<Rightarrow> fvec \<Rightarrow> nat set \<Rightarrow> bool" where
  "stuck n m req alloc avail D \<longleftrightarrow>
     D \<subseteq> {..<n} \<and> (\<forall>i\<in>D. \<not> can_run m req (released avail alloc ({..<n} - D)) i)"

definition safe :: "nat \<Rightarrow> nat \<Rightarrow> fmat \<Rightarrow> fmat \<Rightarrow> fvec \<Rightarrow> bool" where
  "safe n m req alloc avail \<longleftrightarrow>
     (\<exists>xs. distinct xs \<and> set xs = {..<n} \<and> safe_order m req alloc avail xs)"

definition maximal_order :: "nat \<Rightarrow> nat \<Rightarrow> fmat \<Rightarrow> fmat \<Rightarrow> fvec \<Rightarrow> nat list \<Rightarrow> bool" where
  "maximal_order n m req alloc avail xs \<longleftrightarrow>
     distinct xs \<and> set xs \<subseteq> {..<n} \<and> safe_order m req alloc avail xs \<and>
     (\<forall>i<n. i \<notin> set xs \<longrightarrow> \<not> can_run m req (released avail alloc (set xs)) i)"

subsection \<open>Orders, without assumptions on the matrices\<close>

lemma can_run_mono: "can_run m req w i \<Longrightarrow> (\<And>j. j < m \<Longrightarrow> w j \<le> w' j) \<Longrightarrow> can_run m req w' i"
  unfolding can_run_def by (meson order_trans)

lemma released_empty [simp]: "released w alloc {} = w"
  by (simp add: released_def fun_eq_iff)

lemma released_insert:
  "finite S \<Longrightarrow> x \<notin> S \<Longrightarrow> released w alloc (insert x S) = (\<lambda>j. released w alloc S j + alloc x j)"
  by (simp add: released_def fun_eq_iff)

lemma released_shift:
  "finite S \<Longrightarrow> x \<notin> S \<Longrightarrow>
   released (\<lambda>j. w j + alloc x j) alloc S = released w alloc (insert x S)"
  by (simp add: released_def fun_eq_iff)

lemma safe_order_append:
  "distinct (xs @ ys) \<Longrightarrow> safe_order m req alloc w (xs @ ys) \<longleftrightarrow>
     safe_order m req alloc w xs \<and> safe_order m req alloc (released w alloc (set xs)) ys"
  by (induction xs arbitrary: w) (auto simp: released_shift)

lemma safe_order_snoc:
  "distinct xs \<Longrightarrow> x \<notin> set xs \<Longrightarrow> safe_order m req alloc w (xs @ [x]) \<longleftrightarrow>
     safe_order m req alloc w xs \<and> can_run m req (released w alloc (set xs)) x"
  by (simp add: safe_order_append)

lemma safe_order_cong:
  assumes "\<And>x j. x \<in> set xs \<Longrightarrow> j < m \<Longrightarrow> req x j = req' x j \<and> alloc x j = alloc' x j"
    and "\<And>j. j < m \<Longrightarrow> w j = w' j"
  shows "safe_order m req alloc w xs = safe_order m req' alloc' w' xs"
  using assms
proof (induction xs arbitrary: w w')
  case (Cons x xs)
  have "can_run m req w x = can_run m req' w' x"
    using Cons.prems by (simp add: can_run_def)
  moreover have "safe_order m req alloc (\<lambda>j. w j + alloc x j) xs
      = safe_order m req' alloc' (\<lambda>j. w' j + alloc' x j) xs"
    by (rule Cons.IH) (use Cons.prems in auto)
  ultimately show ?case by simp
qed simp

lemma safe_order_mono:
  assumes "safe_order m req alloc w xs"
    and "\<And>x j. x \<in> set xs \<Longrightarrow> j < m \<Longrightarrow> req' x j \<le> req x j \<and> alloc x j \<le> alloc' x j"
    and "\<And>j. j < m \<Longrightarrow> w j \<le> w' j"
  shows "safe_order m req' alloc' w' xs"
  using assms
proof (induction xs arbitrary: w w')
  case (Cons x xs)
  have run: "can_run m req' w' x"
    unfolding can_run_def
  proof (intro allI impI)
    fix j assume j: "j < m"
    have "req' x j \<le> req x j" using Cons.prems(2) j by auto
    also have "req x j \<le> w j" using Cons.prems(1) j by (auto simp: can_run_def)
    also have "w j \<le> w' j" using Cons.prems(3) j by simp
    finally show "req' x j \<le> w' j" .
  qed
  have "safe_order m req' alloc' (\<lambda>j. w' j + alloc' x j) xs"
  proof (rule Cons.IH)
    show "safe_order m req alloc (\<lambda>j. w j + alloc x j) xs" using Cons.prems(1) by simp
    show "\<And>y j. y \<in> set xs \<Longrightarrow> j < m \<Longrightarrow> req' y j \<le> req y j \<and> alloc y j \<le> alloc' y j"
      using Cons.prems(2) by simp
    show "\<And>j. j < m \<Longrightarrow> w j + alloc x j \<le> w' j + alloc' x j"
      using Cons.prems(2,3) by (simp add: add_mono)
  qed
  with run show ?case by simp
qed simp

lemma safe_mono:
  assumes "safe n m req alloc avail"
    and "\<And>i j. i < n \<Longrightarrow> j < m \<Longrightarrow> req' i j \<le> req i j \<and> alloc i j \<le> alloc' i j"
    and "\<And>j. j < m \<Longrightarrow> avail j \<le> avail' j"
  shows "safe n m req' alloc' avail'"
  using assms unfolding safe_def
  by (metis lessThan_iff safe_order_mono [of m req alloc avail _ req' alloc' avail'])

lemma safe_cong:
  assumes "\<And>i j. i < n \<Longrightarrow> j < m \<Longrightarrow> req i j = req' i j \<and> alloc i j = alloc' i j"
    and "\<And>j. j < m \<Longrightarrow> avail j = avail' j"
  shows "safe n m req alloc avail = safe n m req' alloc' avail'"
  using safe_mono [of n m req alloc avail req' alloc' avail']
    safe_mono [of n m req' alloc' avail' req alloc avail] assms by auto

text \<open>Handing back \<open>r\<close>, with the right to ask for it again, keeps an order safe.\<close>

lemma safe_order_give_back:
  assumes "safe_order m req alloc w xs" and "distinct xs"
    and "\<And>j. j < m \<Longrightarrow> 0 \<le> r j"
    and "\<And>j. j < m \<Longrightarrow> w' j = w j + r j"
  shows "safe_order m (\<lambda>i j. if i = t then req i j + r j else req i j)
           (\<lambda>i j. if i = t then alloc i j - r j else alloc i j) w' xs"
  using assms
proof (induction xs arbitrary: w w')
  case (Cons x xs)
  let ?req = "\<lambda>i j. if i = t then req i j + r j else req i j"
  let ?alloc = "\<lambda>i j. if i = t then alloc i j - r j else alloc i j"
  have run: "can_run m ?req w' x"
    unfolding can_run_def
  proof (intro allI impI)
    fix j assume j: "j < m"
    have "req x j \<le> w j" using Cons.prems(1) j by (simp add: can_run_def)
    then show "(if x = t then req x j + r j else req x j) \<le> w' j"
      using Cons.prems(3) [OF j] Cons.prems(4) [OF j] by auto
  qed
  have rest: "safe_order m req alloc (\<lambda>j. w j + alloc x j) xs" using Cons.prems(1) by simp
  show ?case
  proof (cases "x = t")
    case True
    then have "t \<notin> set xs" using Cons.prems(2) by simp
    then have "safe_order m ?req ?alloc (\<lambda>j. w' j + ?alloc x j) xs
        = safe_order m req alloc (\<lambda>j. w j + alloc x j) xs"
      using True Cons.prems(4) by (intro safe_order_cong) auto
    with run rest show ?thesis by simp
  next
    case False
    have "safe_order m ?req ?alloc (\<lambda>j. w' j + ?alloc x j) xs"
      using False Cons.prems by (intro Cons.IH [OF rest]) auto
    with run show ?thesis by simp
  qed
qed simp

lemma safe_give_back:
  assumes "safe n m req alloc avail" and "\<And>j. j < m \<Longrightarrow> 0 \<le> r j"
    and "\<And>j. j < m \<Longrightarrow> avail' j = avail j + r j"
  shows "safe n m (\<lambda>i j. if i = t then req i j + r j else req i j)
           (\<lambda>i j. if i = t then alloc i j - r j else alloc i j) avail'"
  using assms safe_order_give_back [of m req alloc avail _ r avail' t] unfolding safe_def by blast

subsection \<open>The laws of the reduction, for non-negative holdings\<close>

locale reduction =
  fixes ok :: "'s \<Rightarrow> bool" and procs types :: "'s \<Rightarrow> nat"
    and req alloc :: "'s \<Rightarrow> fmat" and avail :: "'s \<Rightarrow> fvec"
  assumes alloc_nonneg: "ok s \<Longrightarrow> i < procs s \<Longrightarrow> j < types s \<Longrightarrow> 0 \<le> alloc s i j"
begin

lemma released_mono:
  assumes ok: "ok s" and "S \<subseteq> T" and "T \<subseteq> {..<procs s}" and "j < types s"
  shows "released (avail s) (alloc s) S j \<le> released (avail s) (alloc s) T j"
proof -
  have "finite T" using finite_subset [OF assms(3)] by simp
  then have "(\<Sum>i\<in>S. alloc s i j) \<le> (\<Sum>i\<in>T. alloc s i j)"
    by (rule sum_nonneg_mono_subset) (use assms alloc_nonneg [OF ok] in auto)
  then show ?thesis by (simp add: released_def)
qed

text \<open>An order never completes a member of a stuck set.\<close>

lemma order_avoids_stuck:
  assumes ok: "ok s" and "safe_order (types s) (req s) (alloc s) (avail s) xs" and "distinct xs" and "set xs \<subseteq> {..<procs s}"
    and "stuck (procs s) (types s) (req s) (alloc s) (avail s) D"
  shows "set xs \<inter> D = {}"
  using assms(2-4)
proof (induction xs rule: rev_induct)
  case (snoc x xs)
  have ord: "safe_order (types s) (req s) (alloc s) (avail s) xs" "can_run (types s) (req s) (released (avail s) (alloc s) (set xs)) x"
    using snoc.prems(1,2) by (simp_all add: safe_order_snoc)
  have disj: "set xs \<inter> D = {}"
    using snoc.IH ord(1) snoc.prems by simp
  have "x \<notin> D"
  proof
    assume "x \<in> D"
    have "set xs \<subseteq> {..<procs s} - D" using disj snoc.prems(3) by auto
    then have "can_run (types s) (req s) (released (avail s) (alloc s) ({..<procs s} - D)) x"
      using can_run_mono [OF ord(2)] released_mono [OF ok] by blast
    with \<open>x \<in> D\<close> assms(5) show False by (auto simp: stuck_def)
  qed
  with disj show ?case by auto
qed simp

lemma maximal_rest_stuck:
  assumes "maximal_order (procs s) (types s) (req s) (alloc s) (avail s) xs"
  shows "stuck (procs s) (types s) (req s) (alloc s) (avail s) ({..<procs s} - set xs)"
proof -
  have "{..<procs s} - ({..<procs s} - set xs) = set xs"
    using assms by (auto simp: maximal_order_def)
  then show ?thesis using assms by (auto simp: stuck_def maximal_order_def)
qed

text \<open>What a maximal order leaves over is the greatest stuck set.\<close>

lemma maximal_rest_greatest:
  assumes ok: "ok s" and "maximal_order (procs s) (types s) (req s) (alloc s) (avail s) xs" and "stuck (procs s) (types s) (req s) (alloc s) (avail s) D"
  shows "D \<subseteq> {..<procs s} - set xs"
proof -
  have "set xs \<inter> D = {}"
    using assms by (intro order_avoids_stuck) (auto simp: maximal_order_def)
  moreover have "D \<subseteq> {..<procs s}" using assms(3) by (simp add: stuck_def)
  ultimately show ?thesis by auto
qed

lemma safe_iff_no_stuck:
  assumes ok: "ok s" and "maximal_order (procs s) (types s) (req s) (alloc s) (avail s) xs"
  shows "safe (procs s) (types s) (req s) (alloc s) (avail s) \<longleftrightarrow> (\<forall>D. stuck (procs s) (types s) (req s) (alloc s) (avail s) D \<longrightarrow> D = {})"
proof
  assume "safe (procs s) (types s) (req s) (alloc s) (avail s)"
  then obtain ys where "distinct ys" "set ys = {..<procs s}" "safe_order (types s) (req s) (alloc s) (avail s) ys"
    by (auto simp: safe_def)
  then have "D \<inter> {..<procs s} = {}" if "stuck (procs s) (types s) (req s) (alloc s) (avail s) D" for D
    using order_avoids_stuck [OF ok, of ys D] that by auto
  then show "\<forall>D. stuck (procs s) (types s) (req s) (alloc s) (avail s) D \<longrightarrow> D = {}"
    by (auto simp: stuck_def Int_absorb2)
next
  assume "\<forall>D. stuck (procs s) (types s) (req s) (alloc s) (avail s) D \<longrightarrow> D = {}"
  then have "{..<procs s} - set xs = {}" using maximal_rest_stuck [OF assms(2)] by blast
  then have "set xs = {..<procs s}" using assms by (auto simp: maximal_order_def)
  then show "safe (procs s) (types s) (req s) (alloc s) (avail s)" using assms by (auto simp: maximal_order_def safe_def)
qed

text \<open>Greedy search is complete: one maximal order decides safety.\<close>

lemma safe_iff_maximal:
  assumes ok: "ok s" and "maximal_order (procs s) (types s) (req s) (alloc s) (avail s) xs"
  shows "safe (procs s) (types s) (req s) (alloc s) (avail s) \<longleftrightarrow> set xs = {..<procs s}"
proof
  assume "safe (procs s) (types s) (req s) (alloc s) (avail s)"
  then have "{..<procs s} - set xs = {}"
    using safe_iff_no_stuck [OF assms] maximal_rest_stuck [OF assms(2)] by blast
  then show "set xs = {..<procs s}" using assms by (auto simp: maximal_order_def)
next
  assume "set xs = {..<procs s}"
  then show "safe (procs s) (types s) (req s) (alloc s) (avail s)" using assms by (auto simp: maximal_order_def safe_def)
qed

text \<open>A process that can run at once may run first in some safe order.\<close>

lemma safe_run_first:
  assumes ok: "ok s" and "safe (procs s) (types s) (req s) (alloc s) (avail s)" and "x < procs s" and "can_run (types s) (req s) (avail s) x"
  obtains xs where "distinct (x # xs)" and "set (x # xs) = {..<procs s}"
    and "safe_order (types s) (req s) (alloc s) (avail s) (x # xs)"
proof -
  from assms(2) obtain ys where ys: "distinct ys" "set ys = {..<procs s}"
      "safe_order (types s) (req s) (alloc s) (avail s) ys"
    by (auto simp: safe_def)
  have "x \<in> set ys" using ys(2) assms(3) by simp
  then obtain as bs where split: "ys = as @ x # bs" by (auto simp: in_set_conv_decomp)
  have fin: "x \<notin> set as" "x \<notin> set bs" using ys(1) split by auto
  have as: "safe_order (types s) (req s) (alloc s) (avail s) as"
    using ys(1,3) unfolding split by (simp add: safe_order_append)
  have "safe_order (types s) (req s) (alloc s) (avail s) ((as @ [x]) @ bs)" "distinct ((as @ [x]) @ bs)"
    using ys(1,3) split by simp_all
  then have bs: "safe_order (types s) (req s) (alloc s) (released (avail s) (alloc s) (set (as @ [x]))) bs"
    using safe_order_append by blast
  have nonneg: "\<And>j. j < types s \<Longrightarrow> 0 \<le> alloc s x j" using alloc_nonneg [OF ok assms(3)] by simp
  have "safe_order (types s) (req s) (alloc s) (\<lambda>j. avail s j + alloc s x j) as"
    by (rule safe_order_mono [OF as]) (use nonneg in auto)
  moreover have "released (\<lambda>j. avail s j + alloc s x j) (alloc s) (set as)
      = released (avail s) (alloc s) (set (as @ [x]))"
    using fin by (simp add: released_shift)
  ultimately have "safe_order (types s) (req s) (alloc s) (avail s) (x # as @ bs)"
    using assms(4) bs ys(1) split by (simp add: safe_order_append)
  then show thesis
    using ys(1,2) split by (intro that [of "as @ bs"]) auto
qed

end

end
