(* ===== verification/ResourceManager.thy ===== *)
theory ResourceManager
  imports Reduction
begin

text \<open>
  The resource manager library, \<open>p3/22002379-22003430/rm.c\<close>: its global variables as the
  record \<open>rm_state\<close> and one definition per function, in the order of the file.

  \<^item> The C arrays are lists, the malloc'ed matrices lists of rows. C \<open>int\<close> is \<open>int\<close>;
    the bounds theorems of theory \<open>RmInvariants\<close> show that no cell leaves the range between 0
    and the number of existing instances, so the additions do not overflow.
  \<^item> A \<open>pthread_t\<close> is a number, 0 standing for the zero-initialised entries of \<open>tids\<close>.
  \<^item> \<open>live\<close> says that the matrices, the condition variables and the mutex exist: from
    \<open>rm_init\<close> until the \<open>rm_thread_ended\<close> call that frees them.
  \<^item> A call ends in an \<open>outcome\<close>: \<open>Ret v s\<close> returned, \<open>Block s\<close> waits on the
    caller's condition variable with the mutex released, \<open>Undef\<close> the C code has undefined
    behaviour here (a row index outside the matrices, or memory that was never allocated or
    is freed).
\<close>

definition MAXR :: nat where "MAXR = 100"
definition MAXP :: nat where "MAXP = 100"

type_synonym pthread = nat

record rm_state =
  DA :: int                     \<comment> \<open>1: deadlocks are avoided, 0: they are not\<close>
  thrN :: int                   \<comment> \<open>\<open>N\<close>, the number of threads\<close>
  resM :: int                   \<comment> \<open>\<open>M\<close>, the number of resource types\<close>
  ExistingRes :: "int list"
  maxDemand :: "int list list"
  allocation :: "int list list"
  need :: "int list list"
  requests :: "int list list"
  available :: "int list"
  tcount :: int
  tids :: "pthread list"
  live :: bool

definition rm_globals :: rm_state where
  "rm_globals = \<lparr>DA = 0, thrN = 0, resM = 0, ExistingRes = replicate MAXR 0,
     maxDemand = [], allocation = [], need = [], requests = [], available = [],
     tcount = 0, tids = replicate MAXP 0, live = False\<rparr>"

datatype 's outcome = Ret int 's | Block 's | Undef

abbreviation Nn :: "rm_state \<Rightarrow> nat" where "Nn s \<equiv> nat (thrN s)"
abbreviation Mn :: "rm_state \<Rightarrow> nat" where "Mn s \<equiv> nat (resM s)"

subsection \<open>Helpers of the file\<close>

definition get_tid :: "rm_state \<Rightarrow> pthread \<Rightarrow> int" where
  "get_tid s self =
     (case find (\<lambda>i. tids s ! i = self) [0..<MAXP] of Some i \<Rightarrow> int i | None \<Rightarrow> -1)"

definition arrLessThan :: "int list \<Rightarrow> int list \<Rightarrow> nat \<Rightarrow> bool" where
  "arrLessThan arr1 arr2 n =
     (if exits_early n (\<lambda>i. arr1 ! i > arr2 ! i) then False else True)"

definition checkAllZero :: "int list \<Rightarrow> nat \<Rightarrow> bool" where
  "checkAllZero arr n =
     (if exits_early n (\<lambda>i. arr ! i \<noteq> 0) then False else True)"

text \<open>
  A call that touches row \<open>tid\<close> of the matrices is defined only while they are allocated and,
  when there is a column to touch, for a row of the matrix.
\<close>

definition bad_row :: "rm_state \<Rightarrow> int \<Rightarrow> bool" where
  "bad_row s tid \<longleftrightarrow> \<not> live s \<or> 0 < resM s \<and> (tid < 0 \<or> thrN s \<le> tid)"

subsection \<open>The safety test\<close>

text \<open>
  One pass of the \<open>for\<close> loop that looks for a process to finish, and the \<open>while (1)\<close>
  loop around it. \<open>finish\<close> has one entry per process; \<open>demand\<close> is \<open>need\<close> in
  \<open>is_state_safe\<close> and \<open>requests\<close> in \<open>rm_detection\<close>, which repeats the loop.
\<close>

definition find_runnable :: "nat \<Rightarrow> int list list \<Rightarrow> int list \<Rightarrow> bool list \<Rightarrow> nat option" where
  "find_runnable m demand work finish =
     find (\<lambda>i. \<not> finish ! i \<and> arrLessThan (demand ! i) work m) [0..<length finish]"

function reduce_loop ::
  "nat \<Rightarrow> int list list \<Rightarrow> int list list \<Rightarrow> int list \<Rightarrow> bool list \<Rightarrow> int list \<times> bool list"
where
  "reduce_loop m demand alloc work finish =
     (case find_runnable m demand work finish of
        None \<Rightarrow> (work, finish)
      | Some x \<Rightarrow>
          reduce_loop m demand alloc (for_upd m (\<lambda>i w. w + alloc ! x ! i) work)
            (finish[x := True]))"
  by pat_completeness auto
termination
  by (relation "measure (\<lambda>(m, demand, alloc, work, finish). count_list finish False)")
    (auto simp: find_runnable_def find_upt_Some count_list_mark)

declare reduce_loop.simps [simp del]

definition is_state_safe :: "rm_state \<Rightarrow> pthread \<Rightarrow> int list \<Rightarrow> bool \<times> rm_state" where
  "is_state_safe s self request =
     (let m = Mn s; t = nat (get_tid s self);
          work = map (\<lambda>i. available s ! i - request ! i) [0..<m];
          finish = replicate (Nn s) False;
          s1 = s\<lparr>need := row_upd m (\<lambda>i x. x - request ! i) t (need s)\<rparr>;
          s2 = s1\<lparr>allocation := row_upd m (\<lambda>i x. x + request ! i) t (allocation s1)\<rparr>;
          (_, finished) = reduce_loop m (need s2) (allocation s2) work finish;
          ret = (\<forall>i \<in> set [0..<Nn s]. finished ! i);
          s3 = s2\<lparr>need := row_upd m (\<lambda>i x. x + request ! i) t (need s2)\<rparr>;
          s4 = s3\<lparr>allocation := row_upd m (\<lambda>i x. x - request ! i) t (allocation s3)\<rparr>
      in (ret, s4))"

definition is_available :: "rm_state \<Rightarrow> int list \<Rightarrow> bool" where
  "is_available s request =
     (if exits_early (Mn s) (\<lambda>i. request ! i > available s ! i) then False else True)"

subsection \<open>The library's interface\<close>

definition rm_thread_started :: "rm_state \<Rightarrow> pthread \<Rightarrow> int \<Rightarrow> rm_state outcome" where
  "rm_thread_started s self tid =
     (if tid < 0 \<or> int MAXP \<le> tid then Undef
      else Ret 0 (s\<lparr>tcount := tcount s + 1, tids := (tids s)[nat tid := self]\<rparr>))"

definition rm_thread_ended :: "rm_state \<Rightarrow> rm_state outcome" where
  "rm_thread_ended s =
     (let s1 = s\<lparr>tcount := tcount s - 1\<rparr>
      in if tcount s1 = 0 then (if live s1 then Ret 0 (s1\<lparr>live := False\<rparr>) else Undef)
         else Ret 0 s1)"

definition rm_claim :: "rm_state \<Rightarrow> pthread \<Rightarrow> int list \<Rightarrow> rm_state outcome" where
  "rm_claim s self claim =
     (let tid = get_tid s self; m = Mn s
      in if exits_early m (\<lambda>i. claim ! i > ExistingRes s ! i) then Ret (-1) s
         else if 0 < m \<and> bad_row s tid then Undef
         else Ret 0 (s\<lparr>maxDemand := row_upd m (\<lambda>i _. claim ! i) (nat tid) (maxDemand s),
                       need := row_upd m (\<lambda>i _. claim ! i) (nat tid) (need s)\<rparr>))"

definition rm_init :: "rm_state \<Rightarrow> int \<Rightarrow> int \<Rightarrow> int list \<Rightarrow> int \<Rightarrow> int \<times> rm_state" where
  "rm_init s p_count r_count r_exist avoid =
     (if p_count > int MAXP \<or> r_count > int MAXR \<or> tcount s > 0 then (-1, s)
      else let zeros = replicate (nat p_count) (replicate (nat r_count) 0) in
        (0, s\<lparr>DA := avoid, thrN := p_count, resM := r_count,
              available := map (\<lambda>i. r_exist ! i) [0..<nat r_count],
              ExistingRes := for_upd (nat r_count) (\<lambda>i _. r_exist ! i) (ExistingRes s),
              maxDemand := zeros, allocation := zeros, need := zeros, requests := zeros,
              live := True\<rparr>))"

text \<open>
  The end of \<open>rm_request\<close>, from the first wait loop on: the wait conditions, read with the
  mutex held, then the grant. A thread that a signal (or a spurious wake-up) brings back from
  \<open>pthread_cond_wait\<close> runs this part again.
\<close>

definition grant_request :: "rm_state \<Rightarrow> nat \<Rightarrow> int list \<Rightarrow> rm_state" where
  "grant_request s t request =
     (let m = Mn s;
          s1 = s\<lparr>available := for_upd m (\<lambda>i x. x - request ! i) (available s),
                 allocation := row_upd m (\<lambda>i x. x + request ! i) t (allocation s),
                 need := row_upd m (\<lambda>i x. x - request ! i) t (need s)\<rparr>
      in s1\<lparr>requests := row_upd m (\<lambda>_ _. 0) t (requests s1)\<rparr>)"

definition rm_request_wait :: "rm_state \<Rightarrow> pthread \<Rightarrow> int list \<Rightarrow> rm_state outcome" where
  "rm_request_wait s self request =
     (if DA s = 0 \<and> \<not> is_available s request then Block s
      else let (is_safe, s1) = (if DA s = 1 then is_state_safe s self request else (True, s))
        in if DA s1 = 1 \<and> (\<not> is_safe \<or> \<not> is_available s1 request) then Block s1
           else Ret 0 (grant_request s1 (nat (get_tid s1 self)) request))"

definition rm_request :: "rm_state \<Rightarrow> pthread \<Rightarrow> int list \<Rightarrow> rm_state outcome" where
  "rm_request s self request =
     (let tid = get_tid s self; m = Mn s
      in if bad_row s tid then Undef
         else if exits_early m (\<lambda>i. request ! i > need s ! nat tid ! i) then Ret (-1) s
         else if exits_early m (\<lambda>i. request ! i > ExistingRes s ! i) then Ret (-1) s
         else rm_request_wait
                (s\<lparr>requests := row_upd m (\<lambda>i _. request ! i) (nat tid) (requests s)\<rparr>)
                self request)"

text \<open>\<open>rm_release\<close> also says which condition variables it signals.\<close>

definition rm_release :: "rm_state \<Rightarrow> pthread \<Rightarrow> int list \<Rightarrow> rm_state outcome \<times> nat list" where
  "rm_release s self release =
     (let tid = get_tid s self; m = Mn s
      in if bad_row s tid then (Undef, [])
         else if exits_early m (\<lambda>i. release ! i > allocation s ! nat tid ! i)
         then (Ret (-1) s, [])
         else (Ret 0 (s\<lparr>available := for_upd m (\<lambda>i x. x + release ! i) (available s),
                        allocation := row_upd m (\<lambda>i x. x - release ! i) (nat tid) (allocation s),
                        need := row_upd m (\<lambda>i x. x + release ! i) (nat tid) (need s)\<rparr>),
               [0..<Nn s]))"

definition rm_detection :: "rm_state \<Rightarrow> rm_state outcome" where
  "rm_detection s =
     (if tcount s = 0 then Ret 0 s
      else if \<not> live s \<and> (0 < thrN s \<or> 0 < resM s) then Undef
      else let work = map (\<lambda>i. available s ! i) [0..<Mn s];
               finish = replicate (Nn s) False;
               (_, finished) = reduce_loop (Mn s) (requests s) (allocation s) work finish
           in Ret (int (length (filter (\<lambda>i. \<not> finished ! i) [0..<Nn s]))) s)"

end
