(* ===== verification/RmSafety.thy ===== *)
theory RmSafety
  imports ResourceManager
begin

text \<open>
  What the two algorithms of the resource manager decide: \<open>is_state_safe\<close> the banker's
  safety of the state after a grant, \<open>rm_detection\<close> the size of the greatest set of
  deadlocked threads. Both run \<open>reduce_loop\<close>, so one lemma about the loop
  (\<open>reduce_loop_maximal\<close>) links the code to the specification of theory \<open>Reduction\<close>.

  \<open>mat_fun\<close> and \<open>vec_fun\<close> read the arrays as functions of their indices;
  \<open>rm_dims\<close> says that the arrays have the dimensions \<open>rm_init\<close> gives them.
\<close>

abbreviation (input) vec_fun :: "int list \<Rightarrow> fvec" where "vec_fun v \<equiv> (\<lambda>j. v ! j)"
abbreviation (input) mat_fun :: "int list list \<Rightarrow> fmat" where "mat_fun a \<equiv> (\<lambda>i j. a ! i ! j)"

definition mat_dims :: "nat \<Rightarrow> nat \<Rightarrow> int list list \<Rightarrow> bool" where
  "mat_dims n m a \<longleftrightarrow> length a = n \<and> (\<forall>i<n. length (a ! i) = m)"

definition rm_dims :: "rm_state \<Rightarrow> bool" where
  "rm_dims s \<longleftrightarrow>
     mat_dims (Nn s) (Mn s) (maxDemand s) \<and> mat_dims (Nn s) (Mn s) (allocation s) \<and>
     mat_dims (Nn s) (Mn s) (need s) \<and> mat_dims (Nn s) (Mn s) (requests s) \<and>
     length (available s) = Mn s \<and> length (ExistingRes s) = MAXR \<and>
     length (tids s) = MAXP \<and> Mn s \<le> MAXR \<and> Nn s \<le> MAXP"

lemma mat_dims_row_upd [simp]: "mat_dims n m (row_upd k f t a) = mat_dims n m a"
proof -
  have "length (row_upd k f t a ! i) = length (a ! i)" if "i < length a" for i
    using that by (simp add: nth_row_upd)
  then show ?thesis by (auto simp: mat_dims_def)
qed

lemma cell_row_upd [loop_simps]:
  assumes "mat_dims n m a" and "i < n" and "j < m"
  shows "row_upd m f t a ! i ! j = (if i = t then f j (a ! i ! j) else a ! i ! j)"
  using assms by (auto simp: mat_dims_def loop_simps)

lemma rm_dimsD:
  assumes "rm_dims s"
  shows "mat_dims (Nn s) (Mn s) (maxDemand s)" and "mat_dims (Nn s) (Mn s) (allocation s)"
    and "mat_dims (Nn s) (Mn s) (need s)" and "mat_dims (Nn s) (Mn s) (requests s)"
    and "length (available s) = Mn s"
  using assms by (simp_all add: rm_dims_def)

lemma arrLessThan_iff [loop_simps]: "arrLessThan a b n \<longleftrightarrow> (\<forall>i<n. a ! i \<le> b ! i)"
  unfolding arrLessThan_def exits_early_iff by (meson not_le)

lemma is_available_iff [loop_simps]:
  "is_available s request \<longleftrightarrow> (\<forall>i<Mn s. request ! i \<le> available s ! i)"
  unfolding is_available_def exits_early_iff by (meson not_le)

lemma checkAllZero_iff [loop_simps]: "checkAllZero a n \<longleftrightarrow> (\<forall>i<n. a ! i = 0)"
  by (auto simp: checkAllZero_def exits_early_iff)

lemma can_run_arr: "arrLessThan (a ! i) w m \<longleftrightarrow> can_run m (mat_fun a) (vec_fun w) i"
  by (simp add: arrLessThan_iff can_run_def)

subsection \<open>The loop computes a maximal order\<close>

definition reduce_inv ::
  "nat \<Rightarrow> int list list \<Rightarrow> int list list \<Rightarrow> fvec \<Rightarrow> int list \<Rightarrow> bool list \<Rightarrow> nat list \<Rightarrow> bool"
where
  "reduce_inv m d a avail work finish xs \<longleftrightarrow>
     distinct xs \<and> set xs = {i. i < length finish \<and> finish ! i} \<and>
     safe_order m (mat_fun d) (mat_fun a) avail xs \<and>
     length work = m \<and> (\<forall>j<m. work ! j = released avail (mat_fun a) (set xs) j)"

lemma reduce_inv_step:
  assumes inv: "reduce_inv m d a avail work finish xs"
    and x: "find_runnable m d work finish = Some x"
  shows "reduce_inv m d a avail (for_upd m (\<lambda>i w. w + a ! x ! i) work) (finish[x := True]) (xs @ [x])"
proof -
  from x have x: "x < length finish" "\<not> finish ! x" "can_run m (mat_fun d) (vec_fun work) x"
    by (simp_all add: find_runnable_def find_upt_Some can_run_arr)
  have xs: "distinct xs" "set xs = {i. i < length finish \<and> finish ! i}" "length work = m"
    "safe_order m (mat_fun d) (mat_fun a) avail xs"
    "\<And>j. j < m \<Longrightarrow> work ! j = released avail (mat_fun a) (set xs) j"
    using inv by (auto simp: reduce_inv_def)
  have new: "x \<notin> set xs" using x(2) xs(2) by simp
  have "can_run m (mat_fun d) (released avail (mat_fun a) (set xs)) x"
    using can_run_mono [OF x(3)] xs(5) by simp
  then have "safe_order m (mat_fun d) (mat_fun a) avail (xs @ [x])"
    using xs(1,4) new by (simp add: safe_order_snoc)
  moreover have "set (xs @ [x]) = {i. i < length (finish[x := True]) \<and> finish[x := True] ! i}"
    using x(1) xs(2) by (auto simp: nth_list_update)
  moreover have "for_upd m (\<lambda>i w. w + a ! x ! i) work ! j
      = released avail (mat_fun a) (set (xs @ [x])) j" if "j < m" for j
    using that xs(3,5) new by (simp add: nth_for_upd released_insert)
  ultimately show ?thesis
    using xs(1,3) new by (simp add: reduce_inv_def)
qed

lemma reduce_loop_inv:
  assumes "reduce_inv m d a avail work finish xs"
    and "reduce_loop m d a work finish = (w', f')"
  shows "\<exists>ys. reduce_inv m d a avail w' f' ys \<and> find_runnable m d w' f' = None
           \<and> length f' = length finish"
  using assms
proof (induction m d a work finish arbitrary: xs rule: reduce_loop.induct)
  case (1 m d a work finish)
  show ?case
  proof (cases "find_runnable m d work finish")
    case None
    then have "(w', f') = (work, finish)"
      using "1.prems"(2) by (simp add: reduce_loop.simps [of m d a work finish])
    with None "1.prems"(1) show ?thesis by auto
  next
    case (Some x)
    then show ?thesis
      using "1.IH" [OF Some reduce_inv_step [OF "1.prems"(1) Some]] "1.prems"(2)
      by (simp add: reduce_loop.simps [of m d a work finish])
  qed
qed

lemma reduce_loop_maximal:
  assumes "length work = m"
    and "reduce_loop m d a work (replicate n False) = (w', f')"
  obtains xs where "maximal_order n m (mat_fun d) (mat_fun a) (vec_fun work) xs"
    and "set xs = {i. i < n \<and> f' ! i}"
proof -
  have "reduce_inv m d a (vec_fun work) work (replicate n False) []"
    using assms(1) by (auto simp: reduce_inv_def)
  from reduce_loop_inv [OF this assms(2)] obtain ys where
    ys: "reduce_inv m d a (vec_fun work) w' f' ys" "find_runnable m d w' f' = None" "length f' = n"
    by auto
  have "\<not> can_run m (mat_fun d) (released (vec_fun work) (mat_fun a) (set ys)) i"
    if "i < n" "i \<notin> set ys" for i
  proof -
    have "\<not> can_run m (mat_fun d) (vec_fun w') i"
      using ys that
      by (auto simp: find_runnable_def find_upt_None can_run_arr reduce_inv_def)
    moreover have "can_run m (mat_fun d) (vec_fun w') i
        = can_run m (mat_fun d) (released (vec_fun work) (mat_fun a) (set ys)) i"
      using ys(1) by (auto simp: reduce_inv_def can_run_def)
    ultimately show ?thesis by simp
  qed
  then show thesis
    using ys by (intro that [of ys]) (auto simp: maximal_order_def reduce_inv_def)
qed

subsection \<open>The safety test\<close>

definition state_safe :: "rm_state \<Rightarrow> bool" where
  "state_safe s \<longleftrightarrow>
     safe (Nn s) (Mn s) (mat_fun (need s)) (mat_fun (allocation s)) (vec_fun (available s))"

definition alloc_nonneg :: "rm_state \<Rightarrow> bool" where
  "alloc_nonneg s \<longleftrightarrow> (\<forall>i<Nn s. \<forall>j<Mn s. 0 \<le> allocation s ! i ! j)"

text \<open>The state as the test sees it: \<open>request\<close> granted to row \<open>t\<close>, \<open>requests\<close> left alone.\<close>

definition as_if_granted :: "rm_state \<Rightarrow> nat \<Rightarrow> int list \<Rightarrow> rm_state" where
  "as_if_granted s t request =
     s\<lparr>available := for_upd (Mn s) (\<lambda>i x. x - request ! i) (available s),
       allocation := row_upd (Mn s) (\<lambda>i x. x + request ! i) t (allocation s),
       need := row_upd (Mn s) (\<lambda>i x. x - request ! i) t (need s)\<rparr>"

lemma as_if_granted_dims [simp]: "rm_dims (as_if_granted s t r) = rm_dims s"
  by (simp add: rm_dims_def as_if_granted_def)

lemma as_if_granted_select [simp]:
  "thrN (as_if_granted s t r) = thrN s" "resM (as_if_granted s t r) = resM s"
  "tids (as_if_granted s t r) = tids s" "DA (as_if_granted s t r) = DA s"
  by (simp_all add: as_if_granted_def)

text \<open>Both request matrices give a reduction: the interface's two interpretations.\<close>

interpretation need_graph: reduction alloc_nonneg Nn Mn "\<lambda>s. mat_fun (need s)"
  "\<lambda>s. mat_fun (allocation s)" "\<lambda>s. vec_fun (available s)"
  by unfold_locales (simp add: alloc_nonneg_def)

interpretation wait_graph: reduction alloc_nonneg Nn Mn "\<lambda>s. mat_fun (requests s)"
  "\<lambda>s. mat_fun (allocation s)" "\<lambda>s. vec_fun (available s)"
  by unfold_locales (simp add: alloc_nonneg_def)

text \<open>The loop on \<open>need\<close>, started as the test starts it, decides \<open>state_safe\<close>.\<close>

lemma need_loop_decides:
  assumes dims: "rm_dims s" and nonneg: "alloc_nonneg s"
    and loop: "reduce_loop (Mn s) (need s) (allocation s) (available s) (replicate (Nn s) False)
                 = (w', f')"
  shows "(\<forall>i \<in> set [0..<Nn s]. f' ! i) \<longleftrightarrow> state_safe s"
proof -
  obtain xs where xs: "maximal_order (Nn s) (Mn s) (mat_fun (need s)) (mat_fun (allocation s))
        (vec_fun (available s)) xs" "set xs = {i. i < Nn s \<and> f' ! i}"
    using reduce_loop_maximal [OF rm_dimsD(5) [OF dims] loop] by blast
  have "state_safe s \<longleftrightarrow> set xs = {..<Nn s}"
    unfolding state_safe_def by (rule need_graph.safe_iff_maximal [OF nonneg xs(1)])
  also have "\<dots> \<longleftrightarrow> (\<forall>i \<in> set [0..<Nn s]. f' ! i)"
    unfolding xs(2) by (rule all_marked_iff)
  finally show ?thesis by simp
qed

lemma map_upt_as_for_upd:
  assumes "length xs = n"
  shows "map (\<lambda>i. f i (xs ! i)) [0..<n] = for_upd n f xs"
  by (rule nth_equalityI) (auto simp: assms nth_for_upd)

text \<open>The test undoes its trial allocation.\<close>

lemma is_state_safe_restores:
  assumes "rm_dims s" and "get_tid s self = int t" and "t < Nn s"
  shows "snd (is_state_safe s self request) = s"
proof -
  have len: "t < length (need s)" "t < length (allocation s)"
    using rm_dimsD(2,3) [OF assms(1)] assms(3) by (simp_all add: mat_dims_def)
  show ?thesis
    using len assms(2)
    by (simp add: is_state_safe_def Let_def split_beta row_upd_cancel)
qed

lemma is_state_safe_decides:
  assumes "rm_dims s" and "get_tid s self = int t" and "t < Nn s"
    and "alloc_nonneg (as_if_granted s t request)"
  shows "fst (is_state_safe s self request) \<longleftrightarrow> state_safe (as_if_granted s t request)"
proof -
  let ?g = "as_if_granted s t request"
  obtain w' f' where loop: "reduce_loop (Mn ?g) (need ?g) (allocation ?g) (available ?g)
      (replicate (Nn ?g) False) = (w', f')"
    by (meson surj_pair)
  have work: "map (\<lambda>i. available s ! i - request ! i) [0..<Mn s] = available ?g"
    using map_upt_as_for_upd [of "available s" "Mn s" "\<lambda>i x. x - request ! i"] assms(1)
    by (simp add: as_if_granted_def rm_dims_def)
  have "fst (is_state_safe s self request) \<longleftrightarrow> (\<forall>i \<in> set [0..<Nn ?g]. f' ! i)"
    using loop work assms(2)
    by (simp add: is_state_safe_def Let_def split_beta as_if_granted_def)
  also have "\<dots> \<longleftrightarrow> state_safe ?g"
    by (rule need_loop_decides [OF _ assms(4) loop]) (simp add: assms(1))
  finally show ?thesis .
qed

subsection \<open>Deadlock detection\<close>

definition deadlocked_set :: "rm_state \<Rightarrow> nat set \<Rightarrow> bool" where
  "deadlocked_set s D \<longleftrightarrow>
     stuck (Nn s) (Mn s) (mat_fun (requests s)) (mat_fun (allocation s)) (vec_fun (available s)) D"

text \<open>Who cannot get what it asked for cannot get more either.\<close>

lemma stuck_more_demand:
  assumes "stuck n m req alloc avail D"
    and "\<And>i j. i < n \<Longrightarrow> j < m \<Longrightarrow> req i j \<le> req' i j"
  shows "stuck n m req' alloc avail D"
  using assms unfolding stuck_def can_run_def by (meson lessThan_iff order_trans subsetD)

lemma rm_detection_greatest:
  assumes dims: "rm_dims s" and nonneg: "alloc_nonneg s" and "tcount s \<noteq> 0" and "live s"
  obtains D where "rm_detection s = Ret (int (card D)) s" and "deadlocked_set s D"
    and "\<And>D'. deadlocked_set s D' \<Longrightarrow> D' \<subseteq> D"
proof -
  obtain w' f' where loop: "reduce_loop (Mn s) (requests s) (allocation s) (available s)
      (replicate (Nn s) False) = (w', f')"
    by (meson surj_pair)
  obtain xs where xs: "maximal_order (Nn s) (Mn s) (mat_fun (requests s)) (mat_fun (allocation s))
        (vec_fun (available s)) xs" "set xs = {i. i < Nn s \<and> f' ! i}"
    using reduce_loop_maximal [OF rm_dimsD(5) [OF dims] loop] by blast
  let ?D = "{..<Nn s} - set xs"
  have work: "map (\<lambda>i. available s ! i) [0..<Mn s] = available s"
    using map_nth [of "available s"] rm_dimsD(5) [OF dims] by simp
  have "length (filter (\<lambda>i. \<not> f' ! i) [0..<Nn s]) = card (set (filter (\<lambda>i. \<not> f' ! i) [0..<Nn s]))"
    by (rule distinct_card [symmetric]) simp
  also have "set (filter (\<lambda>i. \<not> f' ! i) [0..<Nn s]) = ?D"
    unfolding xs(2) by (rule unmarked_set)
  finally have "rm_detection s = Ret (int (card ?D)) s"
    using loop assms(3,4) by (simp add: rm_detection_def work)
  moreover have "deadlocked_set s ?D"
    unfolding deadlocked_set_def by (rule wait_graph.maximal_rest_stuck [OF xs(1)])
  moreover have "D' \<subseteq> ?D" if "deadlocked_set s D'" for D'
    using wait_graph.maximal_rest_greatest [OF nonneg xs(1)] that by (simp add: deadlocked_set_def)
  ultimately show thesis by (rule that)
qed

end
