(* ===== verification/RmInvariants.thy ===== *)
theory RmInvariants
  imports RmSafety
begin

text \<open>
  The books of the resource manager and the effect of every call on them.

  \<^item> \<open>rm_books\<close>: for each resource type, what is available plus what the threads hold is
    what exists; nothing is negative; a thread's holdings plus its remaining need are its
    declared maximum, which is at most what exists.
  \<^item> \<open>rm_pending\<close>: a recorded request is between 0 and the thread's remaining need.
  \<^item> \<open>rm_inv\<close>: both, on arrays of the right dimensions.

  All calls that move resources are a \<open>transfer\<close> of a vector between the pool and one row,
  so the preservation lemmas are about \<open>transfer\<close> and the calls rewrite to it.
\<close>

definition rm_books :: "rm_state \<Rightarrow> bool" where
  "rm_books s \<longleftrightarrow>
     (\<forall>j<Mn s. available s ! j + (\<Sum>i<Nn s. allocation s ! i ! j) = ExistingRes s ! j) \<and>
     (\<forall>j<Mn s. 0 \<le> available s ! j) \<and>
     (\<forall>i<Nn s. \<forall>j<Mn s. 0 \<le> allocation s ! i ! j \<and> 0 \<le> need s ! i ! j \<and>
        need s ! i ! j + allocation s ! i ! j = maxDemand s ! i ! j \<and>
        maxDemand s ! i ! j \<le> ExistingRes s ! j)"

definition rm_pending :: "rm_state \<Rightarrow> bool" where
  "rm_pending s \<longleftrightarrow>
     (\<forall>i<Nn s. \<forall>j<Mn s. 0 \<le> requests s ! i ! j \<and> requests s ! i ! j \<le> need s ! i ! j)"

definition rm_inv :: "rm_state \<Rightarrow> bool" where
  "rm_inv s \<longleftrightarrow> rm_dims s \<and> rm_books s \<and> rm_pending s"

definition vec_nonneg :: "nat \<Rightarrow> int list \<Rightarrow> bool" where
  "vec_nonneg m v \<longleftrightarrow> (\<forall>j<m. 0 \<le> v ! j)"

definition row_zero :: "nat \<Rightarrow> int list list \<Rightarrow> nat \<Rightarrow> bool" where
  "row_zero m a t \<longleftrightarrow> (\<forall>j<m. a ! t ! j = 0)"

lemma rm_invD [dest]:
  assumes "rm_inv s"
  shows "rm_dims s" and "rm_books s" and "rm_pending s" and "alloc_nonneg s"
  using assms by (auto simp: rm_inv_def rm_books_def alloc_nonneg_def)

lemma rm_booksD:
  assumes "rm_books s" and "j < Mn s"
  shows "available s ! j + (\<Sum>i<Nn s. allocation s ! i ! j) = ExistingRes s ! j"
    and "0 \<le> available s ! j"
    and "i < Nn s \<Longrightarrow> 0 \<le> allocation s ! i ! j"
    and "i < Nn s \<Longrightarrow> 0 \<le> need s ! i ! j"
    and "i < Nn s \<Longrightarrow> need s ! i ! j + allocation s ! i ! j = maxDemand s ! i ! j"
    and "i < Nn s \<Longrightarrow> maxDemand s ! i ! j \<le> ExistingRes s ! j"
  using assms by (auto simp: rm_books_def)

subsection \<open>Moving a vector between the pool and a row\<close>

definition transfer :: "rm_state \<Rightarrow> nat \<Rightarrow> (nat \<Rightarrow> int) \<Rightarrow> rm_state" where
  "transfer s t d =
     s\<lparr>available := for_upd (Mn s) (\<lambda>i x. x - d i) (available s),
       allocation := row_upd (Mn s) (\<lambda>i x. x + d i) t (allocation s),
       need := row_upd (Mn s) (\<lambda>i x. x - d i) t (need s)\<rparr>"

lemma transfer_dims [simp]: "rm_dims (transfer s t d) = rm_dims s"
  by (simp add: rm_dims_def transfer_def)

lemma transfer_select [simp]:
  "thrN (transfer s t d) = thrN s" "resM (transfer s t d) = resM s" "DA (transfer s t d) = DA s"
  "tids (transfer s t d) = tids s" "tcount (transfer s t d) = tcount s"
  "live (transfer s t d) = live s" "ExistingRes (transfer s t d) = ExistingRes s"
  "maxDemand (transfer s t d) = maxDemand s" "requests (transfer s t d) = requests s"
  by (simp_all add: transfer_def)

lemma transfer_cells:
  assumes "rm_dims s" and "i < Nn s" and "j < Mn s"
  shows "available (transfer s t d) ! j = available s ! j - d j"
    and "allocation (transfer s t d) ! i ! j
           = (if i = t then allocation s ! i ! j + d j else allocation s ! i ! j)"
    and "need (transfer s t d) ! i ! j
           = (if i = t then need s ! i ! j - d j else need s ! i ! j)"
  using assms(2,3) rm_dimsD [OF assms(1)]
  by (simp_all add: transfer_def cell_row_upd nth_for_upd)

lemma transfer_avail:
  "rm_dims s \<Longrightarrow> j < Mn s \<Longrightarrow> available (transfer s t d) ! j = available s ! j - d j"
  by (simp add: transfer_def nth_for_upd rm_dims_def)

lemma as_if_granted_transfer: "as_if_granted s t request = transfer s t (\<lambda>i. request ! i)"
  by (simp add: as_if_granted_def transfer_def)

lemma grant_transfer:
  "grant_request s t request
     = (transfer s t (\<lambda>i. request ! i))\<lparr>requests := row_upd (Mn s) (\<lambda>_ _. 0) t (requests s)\<rparr>"
  by (simp add: grant_request_def transfer_def Let_def)

lemma books_transfer:
  assumes books: "rm_books s" and dims: "rm_dims s" and t: "t < Nn s"
    and d: "\<And>j. j < Mn s \<Longrightarrow> d j \<le> available s ! j \<and> d j \<le> need s ! t ! j \<and> - d j \<le> allocation s ! t ! j"
  shows "rm_books (transfer s t d)"
proof -
  have "available (transfer s t d) ! j + (\<Sum>i<Nn s. allocation (transfer s t d) ! i ! j)
      = ExistingRes s ! j" if j: "j < Mn s" for j
  proof -
    have "(\<Sum>i<Nn s. allocation (transfer s t d) ! i ! j)
        = (\<Sum>i<Nn s. if i = t then allocation s ! i ! j + d j else allocation s ! i ! j)"
      by (rule sum.cong) (simp_all add: transfer_cells [OF dims _ j])
    also have "\<dots> = (\<Sum>i<Nn s. allocation s ! i ! j) + d j"
      using sum_minus_one [of "{..<Nn s}" t "\<lambda>i. allocation s ! i ! j + d j"
          "\<lambda>i. allocation s ! i ! j"] t by simp
    finally show ?thesis
      using rm_booksD(1) [OF books j] transfer_avail [OF dims j, of t d] by simp
  qed
  moreover have "0 \<le> available (transfer s t d) ! j" if "j < Mn s" for j
    using d [OF that] transfer_avail [OF dims that, of t d] by simp
  moreover have "0 \<le> allocation (transfer s t d) ! i ! j \<and> 0 \<le> need (transfer s t d) ! i ! j \<and>
      need (transfer s t d) ! i ! j + allocation (transfer s t d) ! i ! j = maxDemand s ! i ! j \<and>
      maxDemand s ! i ! j \<le> ExistingRes s ! j" if i: "i < Nn s" and j: "j < Mn s" for i j
    using d [OF j] rm_booksD(3-6) [OF books j i] transfer_cells(2,3) [OF dims i j, of t d]
    by (cases "i = t") auto
  ultimately show ?thesis by (simp add: rm_books_def)
qed

lemma pending_transfer:
  assumes "rm_pending s" and "rm_dims s"
    and "\<And>j. j < Mn s \<Longrightarrow> t < Nn s \<Longrightarrow> requests s ! t ! j \<le> need s ! t ! j - d j"
  shows "rm_pending (transfer s t d)"
  using assms by (auto simp: rm_pending_def transfer_cells)

text \<open>Giving resources back keeps the state safe.\<close>

lemma state_safe_give_back:
  assumes safe: "state_safe s" and dims: "rm_dims s" and "\<And>j. j < Mn s \<Longrightarrow> 0 \<le> r j"
  shows "state_safe (transfer s t (\<lambda>j. - r j))"
proof -
  let ?s = "transfer s t (\<lambda>j. - r j)"
  have "safe (Nn s) (Mn s) (\<lambda>i j. if i = t then need s ! i ! j + r j else need s ! i ! j)
      (\<lambda>i j. if i = t then allocation s ! i ! j - r j else allocation s ! i ! j)
      (\<lambda>j. available s ! j + r j)"
    by (rule safe_give_back [OF safe [unfolded state_safe_def]]) (simp_all add: assms(3))
  also have "safe (Nn s) (Mn s) (\<lambda>i j. if i = t then need s ! i ! j + r j else need s ! i ! j)
      (\<lambda>i j. if i = t then allocation s ! i ! j - r j else allocation s ! i ! j)
      (\<lambda>j. available s ! j + r j)
      = safe (Nn s) (Mn s) (mat_fun (need ?s)) (mat_fun (allocation ?s)) (vec_fun (available ?s))"
    by (rule safe_cong) (simp_all add: transfer_cells [OF dims] transfer_avail [OF dims])
  finally show ?thesis by (simp add: state_safe_def)
qed

lemma transfer_transfer:
  assumes "rm_dims s" and "t < Nn s"
  shows "transfer (transfer s t d) t e = transfer s t (\<lambda>i. d i + e i)"
proof -
  have len: "t < length (need s)" "t < length (allocation s)"
    using rm_dimsD(2,3) [OF assms(1)] assms(2) by (simp_all add: mat_dims_def)
  show ?thesis
    using len by (simp add: transfer_def row_upd_def for_upd_compose algebra_simps)
qed

lemma transfer_zero:
  assumes "rm_dims s" and "t < Nn s"
  shows "transfer s t (\<lambda>i. 0) = s"
  by (simp add: transfer_def row_upd_def for_upd_id)

lemma transfer_commute:
  assumes "rm_dims s" and "t < Nn s" and "u < Nn s" and "t \<noteq> u"
  shows "transfer (transfer s t d) u e = transfer (transfer s u e) t d"
  using assms(4)
  by (simp add: transfer_def row_upd_def for_upd_compose list_update_swap algebra_simps)

subsection \<open>The calls, on every branch\<close>

text \<open>The state a request leaves when it blocks: only the request is on record.\<close>

definition record_request :: "rm_state \<Rightarrow> nat \<Rightarrow> int list \<Rightarrow> rm_state" where
  "record_request s t request =
     s\<lparr>requests := row_upd (Mn s) (\<lambda>i _. request ! i) t (requests s)\<rparr>"

text \<open>When the wait loops let a request through.\<close>

definition grantable :: "rm_state \<Rightarrow> nat \<Rightarrow> int list \<Rightarrow> bool" where
  "grantable s t request \<longleftrightarrow>
     (DA s = 0 \<longrightarrow> is_available s request) \<and>
     (DA s = 1 \<longrightarrow> is_available s request \<and> state_safe (as_if_granted s t request))"

definition owns_row :: "rm_state \<Rightarrow> pthread \<Rightarrow> nat \<Rightarrow> bool" where
  "owns_row s self t \<longleftrightarrow> live s \<and> get_tid s self = int t \<and> t < Nn s"

lemma owns_rowD:
  assumes "owns_row s self t"
  shows "get_tid s self = int t" and "t < Nn s" and "live s" and "\<not> bad_row s (int t)"
  using assms by (auto simp: owns_row_def bad_row_def)

lemma get_tid_cong: "tids s = tids s' \<Longrightarrow> get_tid s self = get_tid s' self"
  by (simp add: get_tid_def)

lemma record_request_select [simp]:
  "thrN (record_request s t r) = thrN s" "resM (record_request s t r) = resM s"
  "DA (record_request s t r) = DA s" "tids (record_request s t r) = tids s"
  "tcount (record_request s t r) = tcount s" "live (record_request s t r) = live s"
  "ExistingRes (record_request s t r) = ExistingRes s"
  "maxDemand (record_request s t r) = maxDemand s"
  "allocation (record_request s t r) = allocation s" "need (record_request s t r) = need s"
  "available (record_request s t r) = available s"
  by (simp_all add: record_request_def)

lemma record_request_dims [simp]: "rm_dims (record_request s t r) = rm_dims s"
  by (simp add: rm_dims_def record_request_def)

lemma record_request_books [simp]: "rm_books (record_request s t r) = rm_books s"
  by (simp add: rm_books_def)

lemma record_request_nonneg [simp]: "alloc_nonneg (record_request s t r) = alloc_nonneg s"
  by (simp add: alloc_nonneg_def)

lemma record_request_safe [simp]: "state_safe (record_request s t r) = state_safe s"
  by (simp add: state_safe_def)

lemma record_request_owns [simp]: "owns_row (record_request s t r) self u = owns_row s self u"
  by (simp add: owns_row_def get_tid_def)

lemma as_if_granted_record:
  "as_if_granted (record_request s t r) u q = (as_if_granted s u q)\<lparr>requests := requests (record_request s t r)\<rparr>"
  by (simp add: as_if_granted_def record_request_def)

lemma grantable_record [simp]: "grantable (record_request s t r) u q = grantable s u q"
  by (simp add: grantable_def is_available_iff as_if_granted_record state_safe_def)

lemma record_request_cell:
  assumes "rm_dims s" and "i < Nn s" and "j < Mn s"
  shows "requests (record_request s t r) ! i ! j = (if i = t then r ! j else requests s ! i ! j)"
  using assms(2,3) rm_dimsD(4) [OF assms(1)] by (simp add: record_request_def cell_row_upd)

lemma record_request_inv:
  assumes "rm_inv s" and "vec_nonneg (Mn s) r" and "\<And>j. j < Mn s \<Longrightarrow> r ! j \<le> need s ! t ! j"
  shows "rm_inv (record_request s t r)"
  using assms
  by (auto simp: rm_inv_def rm_pending_def vec_nonneg_def record_request_cell)

lemma alloc_nonneg_granted:
  assumes "rm_dims s" and "alloc_nonneg s" and "vec_nonneg (Mn s) r"
  shows "alloc_nonneg (as_if_granted s t r)"
  using assms
  by (auto simp: alloc_nonneg_def vec_nonneg_def as_if_granted_transfer transfer_cells)

text \<open>The wait loops decide by \<open>grantable\<close>; a failed test changes nothing.\<close>

lemma rm_request_wait_eq:
  assumes dims: "rm_dims s" and nonneg: "alloc_nonneg s"
    and own: "owns_row s self t" and r: "vec_nonneg (Mn s) r"
  shows "rm_request_wait s self r
      = (if grantable s t r then Ret 0 (grant_request s t r) else Block s)"
proof -
  note tid = owns_rowD [OF own]
  have "is_state_safe s self r = (state_safe (as_if_granted s t r), s)"
    using is_state_safe_restores [OF dims tid(1,2), of r]
      is_state_safe_decides [OF dims tid(1,2) alloc_nonneg_granted [OF dims nonneg r]]
    by (simp add: prod_eq_iff)
  then show ?thesis
    using tid(1) by (simp add: rm_request_wait_def grantable_def)
qed

lemma rm_request_eq:
  assumes inv: "rm_inv s" and own: "owns_row s self t" and r: "vec_nonneg (Mn s) r"
  shows "rm_request s self r
      = (if \<exists>j<Mn s. r ! j > need s ! t ! j then Ret (-1) s
         else if grantable s t r then Ret 0 (grant_request s t r)
         else Block (record_request s t r))"
proof -
  note tid = owns_rowD [OF own]
  have exist: "need s ! t ! j \<le> ExistingRes s ! j" if "j < Mn s" for j
    using rm_booksD(3,5,6) [OF rm_invD(2) [OF inv] that tid(2)] by simp
  have "rm_request_wait (record_request s t r) self r
      = (if grantable s t r then Ret 0 (grant_request (record_request s t r) t r)
         else Block (record_request s t r))"
    using rm_request_wait_eq [of "record_request s t r" self t r] rm_invD [OF inv] own r by simp
  moreover have "grant_request (record_request s t r) t r = grant_request s t r"
    using rm_dimsD(4) [OF rm_invD(1) [OF inv]] tid(2)
    by (simp add: grant_request_def record_request_def Let_def row_upd_row_upd mat_dims_def)
  moreover have "\<not> (\<exists>j<Mn s. r ! j > ExistingRes s ! j)"
    if "\<not> (\<exists>j<Mn s. r ! j > need s ! t ! j)"
    using that exist by (meson not_le order_trans)
  ultimately show ?thesis
    using tid unfolding rm_request_def Let_def record_request_def [symmetric]
    by (auto simp: exits_early_iff record_request_def)
qed

subsection \<open>What each call keeps\<close>

lemma grant_request_select [simp]:
  "thrN (grant_request s t r) = thrN s" "resM (grant_request s t r) = resM s"
  "DA (grant_request s t r) = DA s" "tids (grant_request s t r) = tids s"
  "tcount (grant_request s t r) = tcount s" "live (grant_request s t r) = live s"
  "ExistingRes (grant_request s t r) = ExistingRes s"
  "maxDemand (grant_request s t r) = maxDemand s"
  "allocation (grant_request s t r) = allocation (transfer s t (\<lambda>i. r ! i))"
  "need (grant_request s t r) = need (transfer s t (\<lambda>i. r ! i))"
  "available (grant_request s t r) = available (transfer s t (\<lambda>i. r ! i))"
  by (simp_all add: grant_transfer)

lemma grant_request_dims [simp]: "rm_dims (grant_request s t r) = rm_dims s"
  by (simp add: rm_dims_def grant_request_def Let_def)

lemma grant_request_requests:
  assumes "rm_dims s" and "i < Nn s" and "j < Mn s"
  shows "requests (grant_request s t r) ! i ! j = (if i = t then 0 else requests s ! i ! j)"
  using assms(2,3) rm_dimsD(4) [OF assms(1)] by (simp add: grant_transfer cell_row_upd)

lemma grant_request_inv:
  assumes inv: "rm_inv s" and t: "t < Nn s" and r: "vec_nonneg (Mn s) r"
    and need: "\<And>j. j < Mn s \<Longrightarrow> r ! j \<le> need s ! t ! j" and avail: "is_available s r"
  shows "rm_inv (grant_request s t r)"
proof -
  note dims = rm_invD(1) [OF inv]
  have "rm_books (transfer s t (\<lambda>i. r ! i))"
  proof (rule books_transfer [OF rm_invD(2) [OF inv] dims t])
    fix j assume j: "j < Mn s"
    show "r ! j \<le> available s ! j \<and> r ! j \<le> need s ! t ! j \<and> - r ! j \<le> allocation s ! t ! j"
      using avail need [OF j] r j rm_booksD(3) [OF rm_invD(2) [OF inv] j t]
      by (auto simp: is_available_iff vec_nonneg_def)
  qed
  then have "rm_books (grant_request s t r)" by (simp add: rm_books_def)
  moreover have "rm_pending (grant_request s t r)"
    using rm_invD(3) [OF inv] need r
    by (auto simp: rm_pending_def grant_request_requests [OF dims] transfer_cells [OF dims] vec_nonneg_def)
  ultimately show ?thesis using dims by (simp add: rm_inv_def)
qed

lemma grant_request_safe:
  "state_safe (grant_request s t r) = state_safe (as_if_granted s t r)"
  by (simp add: state_safe_def as_if_granted_transfer)

lemma rm_release_eq:
  assumes own: "owns_row s self t"
  shows "rm_release s self r
      = (if \<exists>j<Mn s. r ! j > allocation s ! t ! j then (Ret (-1) s, [])
         else (Ret 0 (transfer s t (\<lambda>i. - r ! i)), [0..<Nn s]))"
  using owns_rowD [OF own] by (simp add: rm_release_def exits_early_iff transfer_def Let_def)

lemma release_inv:
  assumes inv: "rm_inv s" and t: "t < Nn s" and r: "vec_nonneg (Mn s) r"
    and held: "\<And>j. j < Mn s \<Longrightarrow> r ! j \<le> allocation s ! t ! j"
  shows "rm_inv (transfer s t (\<lambda>i. - r ! i))"
proof -
  note dims = rm_invD(1) [OF inv] and books = rm_invD(2) [OF inv]
  have "rm_books (transfer s t (\<lambda>i. - r ! i))"
  proof (rule books_transfer [OF books dims t])
    fix j assume j: "j < Mn s"
    then show "- r ! j \<le> available s ! j \<and> - r ! j \<le> need s ! t ! j \<and> - (- r ! j) \<le> allocation s ! t ! j"
      using rm_booksD(2,4) [OF books j] t r held [OF j] by (simp add: vec_nonneg_def) (meson neg_le_0_iff_le order_trans)
  qed
  moreover have "rm_pending (transfer s t (\<lambda>i. - r ! i))"
    using rm_invD(3) [OF inv] r
    by (intro pending_transfer [OF _ dims]) (auto simp: rm_pending_def vec_nonneg_def intro: add_increasing2)
  ultimately show ?thesis using dims by (simp add: rm_inv_def)
qed

lemma release_safe:
  assumes "rm_dims s" and "state_safe s" and "vec_nonneg (Mn s) r"
  shows "state_safe (transfer s t (\<lambda>i. - r ! i))"
  using assms by (intro state_safe_give_back) (auto simp: vec_nonneg_def)

text \<open>A claim, made before anything is held or asked for.\<close>

definition set_claim :: "rm_state \<Rightarrow> nat \<Rightarrow> int list \<Rightarrow> rm_state" where
  "set_claim s t claim =
     s\<lparr>maxDemand := row_upd (Mn s) (\<lambda>i _. claim ! i) t (maxDemand s),
       need := row_upd (Mn s) (\<lambda>i _. claim ! i) t (need s)\<rparr>"

lemma rm_claim_eq:
  assumes "owns_row s self t"
  shows "rm_claim s self claim
      = (if \<exists>j<Mn s. claim ! j > ExistingRes s ! j then Ret (-1) s else Ret 0 (set_claim s t claim))"
  using owns_rowD [OF assms] by (simp add: rm_claim_def exits_early_iff set_claim_def Let_def)

lemma set_claim_select [simp]:
  "thrN (set_claim s t c) = thrN s" "resM (set_claim s t c) = resM s"
  "DA (set_claim s t c) = DA s" "tids (set_claim s t c) = tids s"
  "tcount (set_claim s t c) = tcount s" "live (set_claim s t c) = live s"
  "ExistingRes (set_claim s t c) = ExistingRes s" "available (set_claim s t c) = available s"
  "allocation (set_claim s t c) = allocation s" "requests (set_claim s t c) = requests s"
  by (simp_all add: set_claim_def)

lemma set_claim_dims [simp]: "rm_dims (set_claim s t c) = rm_dims s"
  by (simp add: rm_dims_def set_claim_def)

lemma set_claim_cells:
  assumes "rm_dims s" and "i < Nn s" and "j < Mn s"
  shows "need (set_claim s t c) ! i ! j = (if i = t then c ! j else need s ! i ! j)"
    and "maxDemand (set_claim s t c) ! i ! j = (if i = t then c ! j else maxDemand s ! i ! j)"
  using assms(2,3) rm_dimsD [OF assms(1)] by (simp_all add: set_claim_def cell_row_upd)

lemma set_claim_inv:
  assumes inv: "rm_inv s" and t: "t < Nn s" and c: "vec_nonneg (Mn s) c"
    and "\<And>j. j < Mn s \<Longrightarrow> c ! j \<le> ExistingRes s ! j"
    and "row_zero (Mn s) (allocation s) t" and "row_zero (Mn s) (requests s) t"
  shows "rm_inv (set_claim s t c)"
  using assms
  by (auto simp: rm_inv_def rm_books_def rm_pending_def set_claim_cells vec_nonneg_def row_zero_def)

end
