(* ===== verification/RmSystem.thy ===== *)
theory RmSystem
  imports RmInvariants
begin

text \<open>
  The library under concurrent use: \<open>N\<close> application threads, numbered from 0, each
  running the protocol the comments of \<open>rm.c\<close> prescribe (start, claim, any number of
  requests and releases, end).

  \<^item> The mutex makes every library call one atomic step. A blocked request is two steps:
    the caller waits on its condition variable (\<open>Waiting\<close>), and after a signal
    (\<open>Signalled\<close>) or a spurious wake-up it runs the wait loop again.
  \<^item> \<open>self i\<close> is the \<open>pthread_t\<close> of application thread \<open>i\<close>: the handles are distinct
    and none is 0 (documented of \<open>pthread_self\<close> for threads that are alive).
  \<^item> A thread ends only after all threads have started. The library does not check this; the
    theorem \<open>early_end_frees_the_matrices\<close> of theory \<open>RmProperties\<close> shows what happens
    otherwise.

  \<open>sys_inv\<close> is the inductive invariant; the safety and progress theorems follow from it.
\<close>

datatype tstate = Idle | Started | Running | Waiting "int list" | Signalled "int list" | Ended

record rm_sys =
  lib :: rm_state
  thr :: "nat \<Rightarrow> tstate"

lemma rm_sys_eta [simp]: "\<lparr>lib = lib \<sigma>, thr = thr \<sigma>\<rparr> = \<sigma>"
  by (cases \<sigma>) simp

text \<open>\<open>pthread_cond_signal\<close> on the listed condition variables.\<close>

fun wake :: "tstate \<Rightarrow> tstate" where
  "wake (Waiting r) = Signalled r"
| "wake st = st"

definition signal_all :: "nat list \<Rightarrow> (nat \<Rightarrow> tstate) \<Rightarrow> (nat \<Rightarrow> tstate)" where
  "signal_all cvs th = (\<lambda>i. if i \<in> set cvs then wake (th i) else th i)"

inductive rm_step :: "(nat \<Rightarrow> pthread) \<Rightarrow> rm_sys \<Rightarrow> rm_sys \<Rightarrow> bool" for self where
  start: "\<lbrakk>i < Nn (lib \<sigma>); thr \<sigma> i = Idle;
      rm_thread_started (lib \<sigma>) (self i) (int i) = Ret v s'\<rbrakk>
    \<Longrightarrow> rm_step self \<sigma> \<lparr>lib = s', thr = (thr \<sigma>)(i := Started)\<rparr>"
| claim: "\<lbrakk>i < Nn (lib \<sigma>); thr \<sigma> i = Started; vec_nonneg (Mn (lib \<sigma>)) c;
      rm_claim (lib \<sigma>) (self i) c = Ret v s'\<rbrakk>
    \<Longrightarrow> rm_step self \<sigma> \<lparr>lib = s', thr = (thr \<sigma>)(i := Running)\<rparr>"
| no_claim: "\<lbrakk>i < Nn (lib \<sigma>); thr \<sigma> i = Started\<rbrakk>
    \<Longrightarrow> rm_step self \<sigma> \<lparr>lib = lib \<sigma>, thr = (thr \<sigma>)(i := Running)\<rparr>"
| request_returns: "\<lbrakk>i < Nn (lib \<sigma>); thr \<sigma> i = Running; vec_nonneg (Mn (lib \<sigma>)) r;
      rm_request (lib \<sigma>) (self i) r = Ret v s'\<rbrakk>
    \<Longrightarrow> rm_step self \<sigma> \<lparr>lib = s', thr = thr \<sigma>\<rparr>"
| request_blocks: "\<lbrakk>i < Nn (lib \<sigma>); thr \<sigma> i = Running; vec_nonneg (Mn (lib \<sigma>)) r;
      rm_request (lib \<sigma>) (self i) r = Block s'\<rbrakk>
    \<Longrightarrow> rm_step self \<sigma> \<lparr>lib = s', thr = (thr \<sigma>)(i := Waiting r)\<rparr>"
| wake_returns: "\<lbrakk>i < Nn (lib \<sigma>); thr \<sigma> i = Signalled r \<or> thr \<sigma> i = Waiting r;
      rm_request_wait (lib \<sigma>) (self i) r = Ret v s'\<rbrakk>
    \<Longrightarrow> rm_step self \<sigma> \<lparr>lib = s', thr = (thr \<sigma>)(i := Running)\<rparr>"
| wake_blocks: "\<lbrakk>i < Nn (lib \<sigma>); thr \<sigma> i = Signalled r \<or> thr \<sigma> i = Waiting r;
      rm_request_wait (lib \<sigma>) (self i) r = Block s'\<rbrakk>
    \<Longrightarrow> rm_step self \<sigma> \<lparr>lib = s', thr = (thr \<sigma>)(i := Waiting r)\<rparr>"
| release: "\<lbrakk>i < Nn (lib \<sigma>); thr \<sigma> i = Running; vec_nonneg (Mn (lib \<sigma>)) r;
      rm_release (lib \<sigma>) (self i) r = (Ret v s', cvs)\<rbrakk>
    \<Longrightarrow> rm_step self \<sigma> \<lparr>lib = s', thr = signal_all cvs (thr \<sigma>)\<rparr>"
| finish: "\<lbrakk>i < Nn (lib \<sigma>); thr \<sigma> i = Running; \<forall>k<Nn (lib \<sigma>). thr \<sigma> k \<noteq> Idle;
      rm_thread_ended (lib \<sigma>) = Ret v s'\<rbrakk>
    \<Longrightarrow> rm_step self \<sigma> \<lparr>lib = s', thr = (thr \<sigma>)(i := Ended)\<rparr>"

text \<open>The state after a successful \<open>rm_init\<close> on the zero-initialised globals.\<close>

definition rm_boot :: "int \<Rightarrow> int \<Rightarrow> int list \<Rightarrow> int \<Rightarrow> rm_sys" where
  "rm_boot p_count r_count r_exist avoid =
     \<lparr>lib = snd (rm_init rm_globals p_count r_count r_exist avoid), thr = (\<lambda>_. Idle)\<rparr>"

definition boot_args :: "int \<Rightarrow> int \<Rightarrow> int list \<Rightarrow> int \<Rightarrow> bool" where
  "boot_args p_count r_count r_exist avoid \<longleftrightarrow>
     p_count \<le> int MAXP \<and> r_count \<le> int MAXR \<and> vec_nonneg (nat r_count) r_exist \<and>
     (avoid = 0 \<or> avoid = 1)"

inductive rm_reachable ::
  "(nat \<Rightarrow> pthread) \<Rightarrow> int \<Rightarrow> int \<Rightarrow> int list \<Rightarrow> int \<Rightarrow> rm_sys \<Rightarrow> bool"
  for self p_count r_count r_exist avoid
where
  boot: "boot_args p_count r_count r_exist avoid \<Longrightarrow>
    rm_reachable self p_count r_count r_exist avoid (rm_boot p_count r_count r_exist avoid)"
| step: "\<lbrakk>rm_reachable self p_count r_count r_exist avoid \<sigma>; rm_step self \<sigma> \<sigma>'\<rbrakk>
    \<Longrightarrow> rm_reachable self p_count r_count r_exist avoid \<sigma>'"

definition good_handles :: "(nat \<Rightarrow> pthread) \<Rightarrow> bool" where
  "good_handles self \<longleftrightarrow> inj self \<and> (\<forall>i. self i \<noteq> 0)"

subsection \<open>The invariant\<close>

definition fresh_row :: "rm_state \<Rightarrow> nat \<Rightarrow> bool" where
  "fresh_row s i \<longleftrightarrow> row_zero (Mn s) (allocation s) i \<and> row_zero (Mn s) (need s) i \<and>
     row_zero (Mn s) (requests s) i"

definition pending_row :: "rm_state \<Rightarrow> nat \<Rightarrow> int list \<Rightarrow> bool" where
  "pending_row s i r \<longleftrightarrow>
     vec_nonneg (Mn s) r \<and> (\<forall>j<Mn s. r ! j \<le> need s ! i ! j \<and> requests s ! i ! j = r ! j)"

fun thr_inv :: "rm_state \<Rightarrow> nat \<Rightarrow> tstate \<Rightarrow> bool" where
  "thr_inv s i Idle = fresh_row s i"
| "thr_inv s i Started = fresh_row s i"
| "thr_inv s i Running = row_zero (Mn s) (requests s) i"
| "thr_inv s i Ended = row_zero (Mn s) (requests s) i"
| "thr_inv s i (Waiting r) = (pending_row s i r \<and> \<not> grantable s i r)"
| "thr_inv s i (Signalled r) = pending_row s i r"

definition active :: "nat \<Rightarrow> (nat \<Rightarrow> tstate) \<Rightarrow> nat set" where
  "active n th = {i. i < n \<and> th i \<noteq> Idle \<and> th i \<noteq> Ended}"

definition tids_inv :: "(nat \<Rightarrow> pthread) \<Rightarrow> rm_state \<Rightarrow> (nat \<Rightarrow> tstate) \<Rightarrow> bool" where
  "tids_inv self s th \<longleftrightarrow>
     (\<forall>k<MAXP. tids s ! k = (if k < Nn s \<and> th k \<noteq> Idle then self k else 0))"

definition sys_inv :: "(nat \<Rightarrow> pthread) \<Rightarrow> rm_sys \<Rightarrow> bool" where
  "sys_inv self \<sigma> \<longleftrightarrow>
     rm_inv (lib \<sigma>) \<and> (DA (lib \<sigma>) = 0 \<or> DA (lib \<sigma>) = 1) \<and>
     (DA (lib \<sigma>) = 1 \<longrightarrow> state_safe (lib \<sigma>)) \<and>
     tids_inv self (lib \<sigma>) (thr \<sigma>) \<and>
     tcount (lib \<sigma>) = int (card (active (Nn (lib \<sigma>)) (thr \<sigma>))) \<and>
     (\<forall>i<Nn (lib \<sigma>). thr_inv (lib \<sigma>) i (thr \<sigma> i)) \<and>
     (live (lib \<sigma>) \<or> (\<forall>i<Nn (lib \<sigma>). thr \<sigma> i = Ended))"

lemma sys_invD:
  assumes "sys_inv self \<sigma>"
  shows "rm_inv (lib \<sigma>)" and "DA (lib \<sigma>) = 0 \<or> DA (lib \<sigma>) = 1"
    and "DA (lib \<sigma>) = 1 \<Longrightarrow> state_safe (lib \<sigma>)"
    and "tids_inv self (lib \<sigma>) (thr \<sigma>)"
    and "tcount (lib \<sigma>) = int (card (active (Nn (lib \<sigma>)) (thr \<sigma>)))"
    and "i < Nn (lib \<sigma>) \<Longrightarrow> thr_inv (lib \<sigma>) i (thr \<sigma> i)"
    and "live (lib \<sigma>) \<or> (\<forall>i<Nn (lib \<sigma>). thr \<sigma> i = Ended)"
  using assms unfolding sys_inv_def by blast+

lemma sys_inv_owns:
  assumes inv: "sys_inv self \<sigma>" and good: "good_handles self"
    and i: "i < Nn (lib \<sigma>)" and "thr \<sigma> i \<noteq> Idle" and "thr \<sigma> i \<noteq> Ended"
  shows "owns_row (lib \<sigma>) (self i) i"
proof -
  have le: "Nn (lib \<sigma>) \<le> MAXP" using sys_invD(1) [OF inv] by (simp add: rm_inv_def rm_dims_def)
  have "find (\<lambda>k. tids (lib \<sigma>) ! k = self i) [0..<MAXP] = Some i"
    using sys_invD(4) [OF inv] good i le assms(4)
    by (intro find_upt_least) (auto simp: tids_inv_def good_handles_def dest: injD)
  then have "get_tid (lib \<sigma>) (self i) = int i" by (simp add: get_tid_def)
  moreover have "live (lib \<sigma>)" using sys_invD(7) [OF inv] assms(3,5) by blast
  ultimately show ?thesis using i by (simp add: owns_row_def)
qed

subsection \<open>A refused request stays refused until resources come back\<close>

definition same_row :: "rm_state \<Rightarrow> rm_state \<Rightarrow> nat \<Rightarrow> bool" where
  "same_row s s' i \<longleftrightarrow> Mn s' = Mn s \<and>
     (\<forall>j<Mn s. allocation s' ! i ! j = allocation s ! i ! j \<and> need s' ! i ! j = need s ! i ! j \<and>
        requests s' ! i ! j = requests s ! i ! j)"

lemma thr_inv_frame:
  assumes "same_row s s' i" and "thr_inv s i st"
    and "\<And>r. st = Waiting r \<Longrightarrow> vec_nonneg (Mn s) r \<Longrightarrow> grantable s' i r \<Longrightarrow> grantable s i r"
  shows "thr_inv s' i st"
  using assms
  by (cases st) (auto simp: same_row_def fresh_row_def row_zero_def pending_row_def vec_nonneg_def)

lemma thr_inv_wake:
  assumes "same_row s s' i" and "thr_inv s i st"
  shows "thr_inv s' i (wake st)"
  using assms
  by (cases st) (auto simp: same_row_def fresh_row_def row_zero_def pending_row_def vec_nonneg_def)

lemma grantable_cong:
  assumes "DA s' = DA s" and "thrN s' = thrN s" and "resM s' = resM s"
    and "available s' = available s" and "allocation s' = allocation s" and "need s' = need s"
  shows "grantable s' t r = grantable s t r"
  using assms
  by (simp add: grantable_def is_available_iff as_if_granted_def state_safe_def)

lemma grantable_after_grant:
  assumes dims: "rm_dims s" and t: "t < Nn s" and u: "u < Nn s" "t \<noteq> u"
    and q: "vec_nonneg (Mn s) q" and g: "grantable (grant_request s u q) t r"
  shows "grantable s t r"
proof -
  have avail: "is_available s r" if "is_available (grant_request s u q) r"
    using that q transfer_avail [OF dims, of _ u "\<lambda>i. q ! i"]
    by (fastforce simp: is_available_iff vec_nonneg_def)
  have safe: "state_safe (as_if_granted s t r)"
    if "state_safe (as_if_granted (grant_request s u q) t r)"
  proof -
    let ?a = "transfer s t (\<lambda>i. r ! i)" and ?b = "transfer s u (\<lambda>i. q ! i)"
    have "state_safe (transfer ?b t (\<lambda>i. r ! i))"
      using that by (simp add: grant_transfer as_if_granted_transfer state_safe_def transfer_def)
    then have "state_safe (transfer ?a u (\<lambda>i. q ! i))"
      using transfer_commute [OF dims t u(1) u(2), of "\<lambda>i. r ! i" "\<lambda>i. q ! i"] by simp
    then have "state_safe (transfer (transfer ?a u (\<lambda>i. q ! i)) u (\<lambda>i. - q ! i))"
      by (rule state_safe_give_back) (use dims q in \<open>simp_all add: vec_nonneg_def\<close>)
    then show ?thesis
      using u dims by (simp add: transfer_transfer transfer_zero as_if_granted_transfer)
  qed
  show ?thesis using g avail safe by (auto simp: grantable_def)
qed

lemma state_safe_less_need:
  assumes "state_safe s" and "rm_dims s" and "thrN s' = thrN s" and "resM s' = resM s"
    and "available s' = available s" and "allocation s' = allocation s"
    and "\<And>i j. i < Nn s \<Longrightarrow> j < Mn s \<Longrightarrow> need s' ! i ! j \<le> need s ! i ! j"
  shows "state_safe s'"
  unfolding state_safe_def
  using assms(3-7) by (auto intro: safe_mono [OF assms(1) [unfolded state_safe_def]])

lemma grantable_after_claim:
  assumes dims: "rm_dims s" and t: "t < Nn s" and u: "u < Nn s" "t \<noteq> u"
    and zero: "row_zero (Mn s) (need s) u" and c: "vec_nonneg (Mn s) c"
    and g: "grantable (set_claim s u c) t r"
  shows "grantable s t r"
proof -
  have "state_safe (as_if_granted s t r)" if "state_safe (as_if_granted (set_claim s u c) t r)"
  proof (rule state_safe_less_need [OF that])
    fix i j
    assume "i < Nn (as_if_granted (set_claim s u c) t r)" "j < Mn (as_if_granted (set_claim s u c) t r)"
    then have ij: "i < Nn s" "j < Mn s" by simp_all
    show "need (as_if_granted s t r) ! i ! j \<le> need (as_if_granted (set_claim s u c) t r) ! i ! j"
      using ij dims zero c u
      by (auto simp: as_if_granted_transfer transfer_cells set_claim_cells row_zero_def vec_nonneg_def)
  qed (insert dims, simp_all, simp_all add: as_if_granted_def)
  then show ?thesis using g by (auto simp: grantable_def is_available_iff)
qed

text \<open>A claim of a thread that holds nothing keeps a safe state safe: it can run last.\<close>

lemma set_claim_safe:
  assumes safe: "state_safe s" and inv: "rm_inv s" and t: "t < Nn s"
    and alloc: "row_zero (Mn s) (allocation s) t"
    and c: "\<And>j. j < Mn s \<Longrightarrow> c ! j \<le> ExistingRes s ! j"
  shows "state_safe (set_claim s t c)"
proof -
  note dims = rm_invD(1) [OF inv] and books = rm_invD(2) [OF inv]
  let ?need = "mat_fun (need (set_claim s t c))" and ?alloc = "mat_fun (allocation s)"
    and ?avail = "vec_fun (available s)"
  from safe obtain xs where xs: "distinct xs" "set xs = {..<Nn s}"
    "safe_order (Mn s) (mat_fun (need s)) ?alloc ?avail xs"
    by (auto simp: state_safe_def safe_def)
  have "t \<in> set xs" using xs(2) t by simp
  then obtain as bs where split: "xs = as @ t # bs" by (auto simp: in_set_conv_decomp)
  have dist: "distinct as" "distinct bs" "t \<notin> set as" "t \<notin> set bs" "set as \<inter> set bs = {}"
    using xs(1) split by auto
  have before: "safe_order (Mn s) (mat_fun (need s)) ?alloc ?avail as"
    and after: "safe_order (Mn s) (mat_fun (need s)) ?alloc
        (\<lambda>j. released ?avail ?alloc (set as) j + allocation s ! t ! j) bs"
    using xs(1,3) unfolding split by (simp_all add: safe_order_append)
  have "safe_order (Mn s) (mat_fun (need s)) ?alloc (released ?avail ?alloc (set as)) bs"
    using after alloc by (subst safe_order_cong) (auto simp: row_zero_def)
  then have "safe_order (Mn s) (mat_fun (need s)) ?alloc ?avail (as @ bs)"
    using before dist by (simp add: safe_order_append)
  moreover have "\<And>x. x \<in> set (as @ bs) \<Longrightarrow> x < Nn s \<and> x \<noteq> t"
    using xs(2) split dist by auto
  ultimately have "safe_order (Mn s) ?need ?alloc ?avail (as @ bs)"
    by (subst (asm) safe_order_cong) (auto simp: set_claim_cells [OF dims])
  moreover have "can_run (Mn s) ?need (released ?avail ?alloc (set (as @ bs))) t"
    unfolding can_run_def
  proof (intro allI impI)
    fix j assume j: "j < Mn s"
    have others: "set (as @ bs) = {..<Nn s} - {t}" using xs(1,2) split by auto
    have "(\<Sum>i<Nn s. allocation s ! i ! j)
        = allocation s ! t ! j + (\<Sum>i\<in>{..<Nn s} - {t}. allocation s ! i ! j)"
      using t by (subst sum.remove [of _ t]) auto
    then have "released ?avail ?alloc (set (as @ bs)) j = ExistingRes s ! j"
      unfolding released_def others
      using rm_booksD(1) [OF books j] alloc j by (simp add: row_zero_def)
    then show "need (set_claim s t c) ! t ! j \<le> released ?avail ?alloc (set (as @ bs)) j"
      using set_claim_cells(1) [OF dims t j, of t c] c [OF j] by simp
  qed
  moreover have "distinct (as @ bs @ [t])" "set (as @ bs @ [t]) = {..<Nn s}"
    using dist xs(2) split by auto
  ultimately have "safe (Nn s) (Mn s) ?need ?alloc ?avail"
    using safe_order_snoc [of "as @ bs" t] unfolding safe_def
    by (intro exI [of _ "(as @ bs) @ [t]"]) simp
  then show ?thesis by (simp add: state_safe_def)
qed

text \<open>A request of a thread whose whole need is available is always granted.\<close>

lemma runnable_grantable:
  assumes inv: "rm_inv s" and safe: "state_safe s" and u: "u < Nn s"
    and run: "can_run (Mn s) (mat_fun (need s)) (vec_fun (available s)) u"
    and q: "vec_nonneg (Mn s) q" and need: "\<And>j. j < Mn s \<Longrightarrow> q ! j \<le> need s ! u ! j"
  shows "grantable s u q"
proof -
  note dims = rm_invD(1) [OF inv]
  let ?g = "transfer s u (\<lambda>i. q ! i)"
  have "is_available s q"
    using run need by (fastforce simp: is_available_iff can_run_def)
  obtain xs where xs: "distinct (u # xs)" "set (u # xs) = {..<Nn s}"
    "safe_order (Mn s) (mat_fun (need s)) (mat_fun (allocation s)) (vec_fun (available s)) (u # xs)"
    using need_graph.safe_run_first [OF rm_invD(4) [OF inv] safe [unfolded state_safe_def] u run] .
  have "can_run (Mn s) (mat_fun (need ?g)) (vec_fun (available ?g)) u"
    using run by (simp add: can_run_def transfer_cells [OF dims u] transfer_avail [OF dims])
  moreover have "safe_order (Mn s) (mat_fun (need ?g)) (mat_fun (allocation ?g))
      (\<lambda>j. available ?g ! j + allocation ?g ! u ! j) xs
      = safe_order (Mn s) (mat_fun (need s)) (mat_fun (allocation s))
      (\<lambda>j. available s ! j + allocation s ! u ! j) xs"
  proof (rule safe_order_cong)
    fix x j assume x: "x \<in> set xs" and j: "j < Mn s"
    then have "x < Nn s" "x \<noteq> u" using xs(1,2) by auto
    then show "need ?g ! x ! j = need s ! x ! j \<and> allocation ?g ! x ! j = allocation s ! x ! j"
      using transfer_cells(2,3) [OF dims _ j] by simp
  qed (simp add: transfer_cells [OF dims u] transfer_avail [OF dims])
  ultimately have "state_safe ?g"
    using xs unfolding state_safe_def safe_def by (intro exI [of _ "u # xs"]) simp
  with \<open>is_available s q\<close> show ?thesis by (simp add: grantable_def as_if_granted_transfer)
qed

subsection \<open>Every step keeps the invariant\<close>

text \<open>Steps inside the library leave its registration of threads alone.\<close>

definition same_registry :: "rm_state \<Rightarrow> rm_state \<Rightarrow> bool" where
  "same_registry s s' \<longleftrightarrow> thrN s' = thrN s \<and> resM s' = resM s \<and> DA s' = DA s \<and> tids s' = tids s \<and>
     tcount s' = tcount s \<and> live s' = live s"

lemma sys_inv_update:
  assumes inv: "sys_inv self \<sigma>" and reg: "same_registry (lib \<sigma>) s'"
    and "rm_inv s'" and "DA (lib \<sigma>) = 1 \<Longrightarrow> state_safe s'"
    and idle: "\<And>k. th' k = Idle \<longleftrightarrow> thr \<sigma> k = Idle"
    and ended: "\<And>k. th' k = Ended \<longleftrightarrow> thr \<sigma> k = Ended"
    and "\<And>k. k < Nn (lib \<sigma>) \<Longrightarrow> thr_inv s' k (th' k)"
  shows "sys_inv self \<lparr>lib = s', thr = th'\<rparr>"
proof -
  have "active n th' = active n (thr \<sigma>)" for n by (simp add: active_def idle ended)
  then show ?thesis
    using assms sys_invD(2,4,5,7) [OF inv]
    by (auto simp: sys_inv_def same_registry_def tids_inv_def)
qed

lemma registry_simps [simp]:
  "same_registry s s" "same_registry s (grant_request s t r)" "same_registry s (record_request s t r)"
  "same_registry s (transfer s t d)" "same_registry s (set_claim s t c)"
  by (simp_all add: same_registry_def)

lemma same_row_simps:
  assumes "rm_dims s" and "i < Nn s"
  shows "i \<noteq> t \<Longrightarrow> same_row s (grant_request s t r) i"
    and "i \<noteq> t \<Longrightarrow> same_row s (transfer s t d) i"
    and "i \<noteq> t \<Longrightarrow> same_row s (set_claim s t c) i"
    and "i \<noteq> t \<Longrightarrow> same_row s (record_request s t r) i"
  using assms
  by (auto simp: same_row_def transfer_cells set_claim_cells grant_request_requests record_request_cell)

lemma after_grant:
  assumes inv: "sys_inv self \<sigma>" and i: "i < Nn (lib \<sigma>)"
    and r: "vec_nonneg (Mn (lib \<sigma>)) r" "\<And>j. j < Mn (lib \<sigma>) \<Longrightarrow> r ! j \<le> need (lib \<sigma>) ! i ! j"
    and g: "grantable (lib \<sigma>) i r" and st: "thr \<sigma> i \<noteq> Idle" "thr \<sigma> i \<noteq> Ended"
  shows "sys_inv self \<lparr>lib = grant_request (lib \<sigma>) i r, thr = (thr \<sigma>)(i := Running)\<rparr>"
proof (rule sys_inv_update [OF inv])
  note inv' = sys_invD(1) [OF inv] and dims = rm_invD(1) [OF sys_invD(1) [OF inv]]
  have avail: "is_available (lib \<sigma>) r"
    using g sys_invD(2) [OF inv] by (auto simp: grantable_def)
  show "rm_inv (grant_request (lib \<sigma>) i r)"
    by (rule grant_request_inv [OF inv' i r(1) r(2) avail])
  show "state_safe (grant_request (lib \<sigma>) i r)" if "DA (lib \<sigma>) = 1"
    using g that by (simp add: grant_request_safe grantable_def)
  fix k assume k: "k < Nn (lib \<sigma>)"
  show "thr_inv (grant_request (lib \<sigma>) i r) k (((thr \<sigma>)(i := Running)) k)"
  proof (cases "k = i")
    case True
    then show ?thesis using grant_request_requests [OF dims i] by (simp add: row_zero_def)
  next
    case False
    then show ?thesis
      using thr_inv_frame [OF same_row_simps(1) [OF dims k False] sys_invD(6) [OF inv k]]
        grantable_after_grant [OF dims k i False r(1)] by simp
  qed
qed (use st in auto)

lemma after_block:
  assumes inv: "sys_inv self \<sigma>" and i: "i < Nn (lib \<sigma>)"
    and r: "vec_nonneg (Mn (lib \<sigma>)) r" "\<And>j. j < Mn (lib \<sigma>) \<Longrightarrow> r ! j \<le> need (lib \<sigma>) ! i ! j"
    and g: "\<not> grantable (lib \<sigma>) i r" and st: "thr \<sigma> i \<noteq> Idle" "thr \<sigma> i \<noteq> Ended"
  shows "sys_inv self \<lparr>lib = record_request (lib \<sigma>) i r, thr = (thr \<sigma>)(i := Waiting r)\<rparr>"
proof (rule sys_inv_update [OF inv])
  note inv' = sys_invD(1) [OF inv] and dims = rm_invD(1) [OF sys_invD(1) [OF inv]]
  show "rm_inv (record_request (lib \<sigma>) i r)"
    by (rule record_request_inv [OF inv' r])
  show "state_safe (record_request (lib \<sigma>) i r)" if "DA (lib \<sigma>) = 1"
    using sys_invD(3) [OF inv that] by simp
  fix k assume k: "k < Nn (lib \<sigma>)"
  show "thr_inv (record_request (lib \<sigma>) i r) k (((thr \<sigma>)(i := Waiting r)) k)"
  proof (cases "k = i")
    case True
    then show ?thesis
      using record_request_cell [OF dims i, of _ i r] r g by (auto simp: pending_row_def)
  next
    case False
    then show ?thesis
      using thr_inv_frame [OF same_row_simps(4) [OF dims k False] sys_invD(6) [OF inv k]] by simp
  qed
qed (use st in auto)

lemma after_release:
  assumes inv: "sys_inv self \<sigma>" and i: "i < Nn (lib \<sigma>)" and run: "thr \<sigma> i = Running"
    and r: "vec_nonneg (Mn (lib \<sigma>)) r"
    and held: "\<And>j. j < Mn (lib \<sigma>) \<Longrightarrow> r ! j \<le> allocation (lib \<sigma>) ! i ! j"
  shows "sys_inv self \<lparr>lib = transfer (lib \<sigma>) i (\<lambda>j. - r ! j),
           thr = signal_all [0..<Nn (lib \<sigma>)] (thr \<sigma>)\<rparr>"
proof (rule sys_inv_update [OF inv])
  note inv' = sys_invD(1) [OF inv] and dims = rm_invD(1) [OF sys_invD(1) [OF inv]]
  show "rm_inv (transfer (lib \<sigma>) i (\<lambda>j. - r ! j))"
    by (rule release_inv [OF inv' i r held])
  show "state_safe (transfer (lib \<sigma>) i (\<lambda>j. - r ! j))" if "DA (lib \<sigma>) = 1"
    by (rule release_safe [OF dims sys_invD(3) [OF inv that] r])
  have wake: "wake st = Idle \<longleftrightarrow> st = Idle" "wake st = Ended \<longleftrightarrow> st = Ended" for st
    by (cases st; simp)+
  show "(signal_all [0..<Nn (lib \<sigma>)] (thr \<sigma>) k = Idle) = (thr \<sigma> k = Idle)"
    and "(signal_all [0..<Nn (lib \<sigma>)] (thr \<sigma>) k = Ended) = (thr \<sigma> k = Ended)" for k
    by (simp_all add: signal_all_def wake)
  fix k assume k: "k < Nn (lib \<sigma>)"
  have "thr_inv (transfer (lib \<sigma>) i (\<lambda>j. - r ! j)) k (wake (thr \<sigma> k))"
  proof (cases "k = i")
    case True
    then show ?thesis using run sys_invD(6) [OF inv i] by (simp add: row_zero_def)
  next
    case False
    then show ?thesis
      by (rule thr_inv_wake [OF same_row_simps(2) [OF dims k] sys_invD(6) [OF inv k]])
  qed
  then show "thr_inv (transfer (lib \<sigma>) i (\<lambda>j. - r ! j)) k (signal_all [0..<Nn (lib \<sigma>)] (thr \<sigma>) k)"
    using k by (simp add: signal_all_def)
qed simp

lemma after_claim:
  assumes inv: "sys_inv self \<sigma>" and i: "i < Nn (lib \<sigma>)" and st: "thr \<sigma> i = Started"
    and c: "vec_nonneg (Mn (lib \<sigma>)) c" "\<And>j. j < Mn (lib \<sigma>) \<Longrightarrow> c ! j \<le> ExistingRes (lib \<sigma>) ! j"
  shows "sys_inv self \<lparr>lib = set_claim (lib \<sigma>) i c, thr = (thr \<sigma>)(i := Running)\<rparr>"
proof (rule sys_inv_update [OF inv])
  note inv' = sys_invD(1) [OF inv] and dims = rm_invD(1) [OF sys_invD(1) [OF inv]]
  have fresh: "row_zero (Mn (lib \<sigma>)) (allocation (lib \<sigma>)) i" "row_zero (Mn (lib \<sigma>)) (need (lib \<sigma>)) i"
    "row_zero (Mn (lib \<sigma>)) (requests (lib \<sigma>)) i"
    using sys_invD(6) [OF inv i] st by (simp_all add: fresh_row_def)
  show "rm_inv (set_claim (lib \<sigma>) i c)"
    by (rule set_claim_inv [OF inv' i c fresh(1,3)])
  show "state_safe (set_claim (lib \<sigma>) i c)" if "DA (lib \<sigma>) = 1"
    by (rule set_claim_safe [OF sys_invD(3) [OF inv that] inv' i fresh(1) c(2)])
  fix k assume k: "k < Nn (lib \<sigma>)"
  show "thr_inv (set_claim (lib \<sigma>) i c) k (((thr \<sigma>)(i := Running)) k)"
  proof (cases "k = i")
    case True
    then show ?thesis using fresh(3) by simp
  next
    case False
    then show ?thesis
      using thr_inv_frame [OF same_row_simps(3) [OF dims k False] sys_invD(6) [OF inv k]]
        grantable_after_claim [OF dims k i False fresh(2) c(1)] by simp
  qed
qed (use st in auto)

text \<open>Starting and ending a thread change the registration only.\<close>

definition reregister :: "rm_state \<Rightarrow> int \<Rightarrow> pthread list \<Rightarrow> bool \<Rightarrow> rm_state" where
  "reregister s n ts l = s\<lparr>tcount := n, tids := ts, live := l\<rparr>"

lemma reregister_select [simp]:
  "thrN (reregister s n ts l) = thrN s" "resM (reregister s n ts l) = resM s"
  "DA (reregister s n ts l) = DA s" "tids (reregister s n ts l) = ts"
  "tcount (reregister s n ts l) = n" "live (reregister s n ts l) = l"
  "allocation (reregister s n ts l) = allocation s" "need (reregister s n ts l) = need s"
  "requests (reregister s n ts l) = requests s" "available (reregister s n ts l) = available s"
  "ExistingRes (reregister s n ts l) = ExistingRes s" "maxDemand (reregister s n ts l) = maxDemand s"
  by (simp_all add: reregister_def)

lemma reregister_inv:
  assumes "length ts = length (tids s)"
  shows "rm_inv (reregister s n ts l) = rm_inv s"
  using assms by (simp add: rm_inv_def rm_dims_def rm_books_def rm_pending_def)

lemma reregister_safe: "state_safe (reregister s n ts l) = state_safe s"
  by (simp add: state_safe_def)

lemma reregister_thr: "thr_inv (reregister s n ts l) i st = thr_inv s i st"
proof -
  have "grantable (reregister s n ts l) i r = grantable s i r" for r
    by (rule grantable_cong) simp_all
  then show ?thesis by (cases st) (simp_all add: fresh_row_def pending_row_def)
qed

lemma after_start:
  assumes inv: "sys_inv self \<sigma>" and i: "i < Nn (lib \<sigma>)" and st: "thr \<sigma> i = Idle"
  shows "sys_inv self \<lparr>lib = reregister (lib \<sigma>) (tcount (lib \<sigma>) + 1) ((tids (lib \<sigma>))[i := self i]) (live (lib \<sigma>)),
           thr = (thr \<sigma>)(i := Started)\<rparr>"
proof -
  note inv' = sys_invD(1) [OF inv]
  have len: "i < length (tids (lib \<sigma>))" "length (tids (lib \<sigma>)) = MAXP"
    using inv' i by (simp_all add: rm_inv_def rm_dims_def)
  have "active (Nn (lib \<sigma>)) ((thr \<sigma>)(i := Started)) = insert i (active (Nn (lib \<sigma>)) (thr \<sigma>))"
    using i by (auto simp: active_def)
  moreover have "i \<notin> active (Nn (lib \<sigma>)) (thr \<sigma>)" "finite (active (Nn (lib \<sigma>)) (thr \<sigma>))"
    using st by (simp_all add: active_def)
  ultimately have "card (active (Nn (lib \<sigma>)) ((thr \<sigma>)(i := Started)))
      = Suc (card (active (Nn (lib \<sigma>)) (thr \<sigma>)))"
    by simp
  moreover have "live (lib \<sigma>)" using sys_invD(7) [OF inv] i st by fastforce
  moreover have "tids_inv self (reregister (lib \<sigma>) n ((tids (lib \<sigma>))[i := self i]) l) ((thr \<sigma>)(i := Started))"
    for n l
    using sys_invD(4) [OF inv] i len by (auto simp: tids_inv_def nth_list_update)
  moreover have "thr_inv (lib \<sigma>) k (((thr \<sigma>)(i := Started)) k)" if "k < Nn (lib \<sigma>)" for k
    using sys_invD(6) [OF inv that] st by (cases "k = i") auto
  ultimately show ?thesis
    using inv' sys_invD(2,3,5) [OF inv]
    by (simp add: sys_inv_def reregister_inv reregister_safe reregister_thr)
qed

lemma after_finish:
  assumes inv: "sys_inv self \<sigma>" and i: "i < Nn (lib \<sigma>)" and st: "thr \<sigma> i = Running"
    and all: "\<forall>k<Nn (lib \<sigma>). thr \<sigma> k \<noteq> Idle"
    and l: "l \<longleftrightarrow> live (lib \<sigma>) \<and> tcount (lib \<sigma>) - 1 \<noteq> 0"
  shows "sys_inv self \<lparr>lib = reregister (lib \<sigma>) (tcount (lib \<sigma>) - 1) (tids (lib \<sigma>)) l,
           thr = (thr \<sigma>)(i := Ended)\<rparr>"
proof -
  note inv' = sys_invD(1) [OF inv]
  let ?act = "active (Nn (lib \<sigma>)) (thr \<sigma>)"
  have act: "active (Nn (lib \<sigma>)) ((thr \<sigma>)(i := Ended)) = ?act - {i}" "i \<in> ?act" "finite ?act"
    using i st by (auto simp: active_def)
  then have card: "card (active (Nn (lib \<sigma>)) ((thr \<sigma>)(i := Ended))) = card ?act - 1" "0 < card ?act"
    by (simp_all add: card_gt_0_iff) blast
  have count: "tcount (lib \<sigma>) - 1 = int (card (active (Nn (lib \<sigma>)) ((thr \<sigma>)(i := Ended))))"
    using card sys_invD(5) [OF inv] by simp
  have "live (lib \<sigma>)" using sys_invD(7) [OF inv] i st by fastforce
  moreover have "thr \<sigma> k = Ended" if "tcount (lib \<sigma>) - 1 = 0" "k < Nn (lib \<sigma>)" "k \<noteq> i" for k
  proof -
    have "active (Nn (lib \<sigma>)) ((thr \<sigma>)(i := Ended)) = {}"
      using count that(1) unfolding act(1)
      by (metis act(3) card_0_eq finite_Diff of_nat_eq_0_iff)
    with that(2,3) all show ?thesis by (auto simp: active_def)
  qed
  ultimately have "l \<or> (\<forall>k<Nn (lib \<sigma>). ((thr \<sigma>)(i := Ended)) k = Ended)"
    using l by auto
  moreover have "thr_inv (lib \<sigma>) k (((thr \<sigma>)(i := Ended)) k)" if "k < Nn (lib \<sigma>)" for k
    using sys_invD(6) [OF inv that] st by (cases "k = i") auto
  moreover have "tids_inv self (reregister (lib \<sigma>) n (tids (lib \<sigma>)) l) ((thr \<sigma>)(i := Ended))" for n
    using sys_invD(4) [OF inv] st by (auto simp: tids_inv_def)
  ultimately show ?thesis
    using inv' sys_invD(2,3) [OF inv] count
    by (simp add: sys_inv_def reregister_inv reregister_safe reregister_thr)
qed

lemma after_nothing:
  assumes inv: "sys_inv self \<sigma>" and st: "thr \<sigma> i = Started"
  shows "sys_inv self \<lparr>lib = lib \<sigma>, thr = (thr \<sigma>)(i := Running)\<rparr>"
proof (rule sys_inv_update [OF inv])
  fix k assume "k < Nn (lib \<sigma>)"
  then show "thr_inv (lib \<sigma>) k (((thr \<sigma>)(i := Running)) k)"
    using sys_invD(6) [OF inv] st by (fastforce simp: fresh_row_def)
qed (use st sys_invD(1,3) [OF inv] in auto)

lemma waiting_wait:
  assumes inv: "sys_inv self \<sigma>" and good: "good_handles self" and i: "i < Nn (lib \<sigma>)"
    and st: "thr \<sigma> i = Signalled r \<or> thr \<sigma> i = Waiting r"
  shows "rm_request_wait (lib \<sigma>) (self i) r
      = (if grantable (lib \<sigma>) i r then Ret 0 (grant_request (lib \<sigma>) i r) else Block (lib \<sigma>))"
    and "vec_nonneg (Mn (lib \<sigma>)) r" and "j < Mn (lib \<sigma>) \<Longrightarrow> r ! j \<le> need (lib \<sigma>) ! i ! j"
proof -
  have own: "owns_row (lib \<sigma>) (self i) i"
    by (rule sys_inv_owns [OF inv good i]) (use st in auto)
  have pend: "pending_row (lib \<sigma>) i r"
    using sys_invD(6) [OF inv i] st by auto
  show r: "vec_nonneg (Mn (lib \<sigma>)) r" and "j < Mn (lib \<sigma>) \<Longrightarrow> r ! j \<le> need (lib \<sigma>) ! i ! j"
    using pend by (auto simp: pending_row_def)
  show "rm_request_wait (lib \<sigma>) (self i) r
      = (if grantable (lib \<sigma>) i r then Ret 0 (grant_request (lib \<sigma>) i r) else Block (lib \<sigma>))"
    using rm_request_wait_eq [OF _ _ own r] rm_invD(1,4) [OF sys_invD(1) [OF inv]] by simp
qed

text \<open>Refusing a waiting thread once more leaves its recorded request.\<close>

lemma after_rewait:
  assumes inv: "sys_inv self \<sigma>" and i: "i < Nn (lib \<sigma>)"
    and st: "thr \<sigma> i = Signalled r \<or> thr \<sigma> i = Waiting r" and g: "\<not> grantable (lib \<sigma>) i r"
  shows "sys_inv self \<lparr>lib = lib \<sigma>, thr = (thr \<sigma>)(i := Waiting r)\<rparr>"
proof (rule sys_inv_update [OF inv])
  fix k assume "k < Nn (lib \<sigma>)"
  then show "thr_inv (lib \<sigma>) k (((thr \<sigma>)(i := Waiting r)) k)"
    using sys_invD(6) [OF inv] st g by fastforce
qed (use st sys_invD(1,3) [OF inv] in auto)

subsection \<open>The moves of the threads\<close>

text \<open>
  What the steps come to in a state of the invariant: the abstract specification of the library.
  A thread registers, claims, is granted what is grantable, waits for what is not, gives
  back, or ends; a request for more than it needs, or a release of more than it holds, changes
  nothing.
\<close>

inductive rm_move :: "(nat \<Rightarrow> pthread) \<Rightarrow> rm_sys \<Rightarrow> rm_sys \<Rightarrow> bool" for self \<sigma> where
  registers: "\<lbrakk>i < Nn (lib \<sigma>); thr \<sigma> i = Idle\<rbrakk>
    \<Longrightarrow> rm_move self \<sigma> \<lparr>lib = reregister (lib \<sigma>) (tcount (lib \<sigma>) + 1) ((tids (lib \<sigma>))[i := self i]) (live (lib \<sigma>)),
          thr = (thr \<sigma>)(i := Started)\<rparr>"
| claims: "\<lbrakk>i < Nn (lib \<sigma>); thr \<sigma> i = Started; vec_nonneg (Mn (lib \<sigma>)) c;
      \<forall>j<Mn (lib \<sigma>). c ! j \<le> ExistingRes (lib \<sigma>) ! j\<rbrakk>
    \<Longrightarrow> rm_move self \<sigma> \<lparr>lib = set_claim (lib \<sigma>) i c, thr = (thr \<sigma>)(i := Running)\<rparr>"
| goes_on: "\<lbrakk>i < Nn (lib \<sigma>); thr \<sigma> i = Started\<rbrakk>
    \<Longrightarrow> rm_move self \<sigma> \<lparr>lib = lib \<sigma>, thr = (thr \<sigma>)(i := Running)\<rparr>"
| refused: "\<lbrakk>i < Nn (lib \<sigma>); thr \<sigma> i = Running; vec_nonneg (Mn (lib \<sigma>)) r;
      (\<exists>j<Mn (lib \<sigma>). r ! j > need (lib \<sigma>) ! i ! j) \<or> (\<exists>j<Mn (lib \<sigma>). r ! j > allocation (lib \<sigma>) ! i ! j)\<rbrakk>
    \<Longrightarrow> rm_move self \<sigma> \<sigma>"
| is_granted: "\<lbrakk>i < Nn (lib \<sigma>); thr \<sigma> i = Running \<or> thr \<sigma> i = Signalled r \<or> thr \<sigma> i = Waiting r;
      vec_nonneg (Mn (lib \<sigma>)) r; \<forall>j<Mn (lib \<sigma>). r ! j \<le> need (lib \<sigma>) ! i ! j; grantable (lib \<sigma>) i r\<rbrakk>
    \<Longrightarrow> rm_move self \<sigma> \<lparr>lib = grant_request (lib \<sigma>) i r, thr = (thr \<sigma>)(i := Running)\<rparr>"
| has_to_wait: "\<lbrakk>i < Nn (lib \<sigma>); thr \<sigma> i = Running; vec_nonneg (Mn (lib \<sigma>)) r;
      \<forall>j<Mn (lib \<sigma>). r ! j \<le> need (lib \<sigma>) ! i ! j; \<not> grantable (lib \<sigma>) i r\<rbrakk>
    \<Longrightarrow> rm_move self \<sigma> \<lparr>lib = record_request (lib \<sigma>) i r, thr = (thr \<sigma>)(i := Waiting r)\<rparr>"
| waits_again: "\<lbrakk>i < Nn (lib \<sigma>); thr \<sigma> i = Signalled r \<or> thr \<sigma> i = Waiting r; \<not> grantable (lib \<sigma>) i r\<rbrakk>
    \<Longrightarrow> rm_move self \<sigma> \<lparr>lib = lib \<sigma>, thr = (thr \<sigma>)(i := Waiting r)\<rparr>"
| gives_back: "\<lbrakk>i < Nn (lib \<sigma>); thr \<sigma> i = Running; vec_nonneg (Mn (lib \<sigma>)) r;
      \<forall>j<Mn (lib \<sigma>). r ! j \<le> allocation (lib \<sigma>) ! i ! j\<rbrakk>
    \<Longrightarrow> rm_move self \<sigma> \<lparr>lib = transfer (lib \<sigma>) i (\<lambda>j. - r ! j),
          thr = signal_all [0..<Nn (lib \<sigma>)] (thr \<sigma>)\<rparr>"
| ends: "\<lbrakk>i < Nn (lib \<sigma>); thr \<sigma> i = Running; \<forall>k<Nn (lib \<sigma>). thr \<sigma> k \<noteq> Idle\<rbrakk>
    \<Longrightarrow> rm_move self \<sigma> \<lparr>lib = reregister (lib \<sigma>) (tcount (lib \<sigma>) - 1) (tids (lib \<sigma>))
            (live (lib \<sigma>) \<and> tcount (lib \<sigma>) - 1 \<noteq> 0), thr = (thr \<sigma>)(i := Ended)\<rparr>"

lemma ended_eq:
  assumes "live s"
  shows "rm_thread_ended s = Ret 0 (reregister s (tcount s - 1) (tids s) (live s \<and> tcount s - 1 \<noteq> 0))"
  using assms by (simp add: rm_thread_ended_def reregister_def Let_def)

lemma started_eq:
  "i < MAXP \<Longrightarrow> rm_thread_started s p (int i) = Ret 0 (reregister s (tcount s + 1) ((tids s)[i := p]) (live s))"
  by (simp add: rm_thread_started_def reregister_def)

text \<open>The code implements these moves, and every move is a step of the code.\<close>

lemma rm_step_move:
  assumes "rm_step self \<sigma> \<sigma>'" and good: "good_handles self" and inv: "sys_inv self \<sigma>"
  shows "rm_move self \<sigma> \<sigma>'"
  using assms(1)
proof cases
  case (start i v s')
  then have "s' = reregister (lib \<sigma>) (tcount (lib \<sigma>) + 1) ((tids (lib \<sigma>))[i := self i]) (live (lib \<sigma>))"
    by (auto simp: rm_thread_started_def reregister_def split: if_splits)
  with start show ?thesis by (simp add: rm_move.registers)
next
  case (claim i c v s')
  then have own: "owns_row (lib \<sigma>) (self i) i" by (intro sys_inv_owns [OF inv good]) auto
  show ?thesis
  proof (cases "\<exists>j<Mn (lib \<sigma>). c ! j > ExistingRes (lib \<sigma>) ! j")
    case True
    then have "s' = lib \<sigma>" using claim(5) rm_claim_eq [OF own, of c] by simp
    with claim show ?thesis by (simp add: rm_move.goes_on)
  next
    case False
    then have "s' = set_claim (lib \<sigma>) i c"
      using claim(5) rm_claim_eq [OF own, of c] by (simp split: if_splits)
    moreover have "\<forall>j<Mn (lib \<sigma>). c ! j \<le> ExistingRes (lib \<sigma>) ! j" using False by (meson not_less)
    ultimately show ?thesis using claim(1) rm_move.claims [OF claim(2-4)] by simp
  qed
next
  case (no_claim i)
  then show ?thesis by (simp add: rm_move.goes_on)
next
  case (request_returns i r v s')
  then have own: "owns_row (lib \<sigma>) (self i) i" by (intro sys_inv_owns [OF inv good]) auto
  note eq = rm_request_eq [OF sys_invD(1) [OF inv] own request_returns(4)]
  show ?thesis
  proof (cases "\<exists>j<Mn (lib \<sigma>). r ! j > need (lib \<sigma>) ! i ! j")
    case True
    then have "\<sigma>' = \<sigma>" using request_returns(1,5) eq by simp
    then show ?thesis using rm_move.refused [OF request_returns(2-4)] True by blast
  next
    case False
    then have "grantable (lib \<sigma>) i r" "s' = grant_request (lib \<sigma>) i r"
      using request_returns(5) eq by (simp_all split: if_splits)
    moreover have "\<forall>j<Mn (lib \<sigma>). r ! j \<le> need (lib \<sigma>) ! i ! j" using False by (meson not_less)
    moreover have "(thr \<sigma>)(i := Running) = thr \<sigma>" using request_returns(3) by auto
    ultimately show ?thesis
      using request_returns(1,3) rm_move.is_granted [OF request_returns(2) _ request_returns(4)] by simp
  qed
next
  case (request_blocks i r s')
  then have own: "owns_row (lib \<sigma>) (self i) i" by (intro sys_inv_owns [OF inv good]) auto
  note eq = rm_request_eq [OF sys_invD(1) [OF inv] own request_blocks(4)]
  have "\<not> (\<exists>j<Mn (lib \<sigma>). r ! j > need (lib \<sigma>) ! i ! j)" and g: "\<not> grantable (lib \<sigma>) i r"
    and s': "s' = record_request (lib \<sigma>) i r"
    using request_blocks(5) eq by (auto split: if_splits)
  then have "\<forall>j<Mn (lib \<sigma>). r ! j \<le> need (lib \<sigma>) ! i ! j" by (meson not_less)
  with g s' show ?thesis using request_blocks(1) rm_move.has_to_wait [OF request_blocks(2-4)] by simp
next
  case (wake_returns i r v s')
  note eq = waiting_wait [OF inv good wake_returns(2,3)]
  from wake_returns(4) eq(1) have "grantable (lib \<sigma>) i r" "s' = grant_request (lib \<sigma>) i r"
    by (simp_all split: if_splits)
  then show ?thesis
    using wake_returns(1) rm_move.is_granted [OF wake_returns(2) disjI2 [OF wake_returns(3)] eq(2)] eq(3) by simp
next
  case (wake_blocks i r s')
  note eq = waiting_wait [OF inv good wake_blocks(2,3)]
  from wake_blocks(4) eq(1) have "\<not> grantable (lib \<sigma>) i r" "s' = lib \<sigma>"
    by (simp_all split: if_splits)
  then show ?thesis using wake_blocks(1) rm_move.waits_again [OF wake_blocks(2,3)] by simp
next
  case (release i r v s' cvs)
  then have own: "owns_row (lib \<sigma>) (self i) i" by (intro sys_inv_owns [OF inv good]) auto
  show ?thesis
  proof (cases "\<exists>j<Mn (lib \<sigma>). r ! j > allocation (lib \<sigma>) ! i ! j")
    case True
    then have "s' = lib \<sigma>" "cvs = []" using release(5) rm_release_eq [OF own, of r] by simp_all
    then have "\<sigma>' = \<sigma>" using release(1) by (simp add: signal_all_def)
    then show ?thesis using rm_move.refused [OF release(2-4)] True by blast
  next
    case False
    then have "s' = transfer (lib \<sigma>) i (\<lambda>j. - r ! j)" "cvs = [0..<Nn (lib \<sigma>)]"
      using release(5) rm_release_eq [OF own, of r] by (auto split: if_splits)
    moreover have "\<forall>j<Mn (lib \<sigma>). r ! j \<le> allocation (lib \<sigma>) ! i ! j" using False by (meson not_less)
    ultimately show ?thesis using release(1) rm_move.gives_back [OF release(2-4)] by simp
  qed
next
  case (finish i v s')
  then have "live (lib \<sigma>)" using sys_invD(7) [OF inv] by fastforce
  then show ?thesis using finish ended_eq [of "lib \<sigma>"] rm_move.ends [OF finish(2-4)] by simp
qed

lemma rm_move_step:
  assumes "rm_move self \<sigma> \<sigma>'" and good: "good_handles self" and inv: "sys_inv self \<sigma>"
  shows "rm_step self \<sigma> \<sigma>'"
  using assms(1)
proof cases
  case (registers i)
  have "Nn (lib \<sigma>) \<le> MAXP" using sys_invD(1) [OF inv] by (simp add: rm_inv_def rm_dims_def)
  then show ?thesis using registers rm_step.start [OF registers(2,3) started_eq] by simp
next
  case (claims i c)
  then have own: "owns_row (lib \<sigma>) (self i) i" by (intro sys_inv_owns [OF inv good]) auto
  have "\<not> (\<exists>j<Mn (lib \<sigma>). c ! j > ExistingRes (lib \<sigma>) ! j)" using claims(5) by (auto simp: not_less)
  then have "rm_claim (lib \<sigma>) (self i) c = Ret 0 (set_claim (lib \<sigma>) i c)"
    using rm_claim_eq [OF own, of c] by simp
  then show ?thesis using claims(1) rm_step.claim [OF claims(2-4)] by simp
next
  case (goes_on i)
  then show ?thesis using rm_step.no_claim [of i \<sigma> self] by simp
next
  case (refused i r)
  then have own: "owns_row (lib \<sigma>) (self i) i" by (intro sys_inv_owns [OF inv good]) auto
  from refused(5) show ?thesis
  proof
    assume "\<exists>j<Mn (lib \<sigma>). r ! j > need (lib \<sigma>) ! i ! j"
    then have "rm_request (lib \<sigma>) (self i) r = Ret (-1) (lib \<sigma>)"
      using rm_request_eq [OF sys_invD(1) [OF inv] own refused(4)] by simp
    then show ?thesis using refused(1) rm_step.request_returns [OF refused(2-4), of self "-1" "lib \<sigma>"] by simp
  next
    assume "\<exists>j<Mn (lib \<sigma>). r ! j > allocation (lib \<sigma>) ! i ! j"
    then have "rm_release (lib \<sigma>) (self i) r = (Ret (-1) (lib \<sigma>), [])"
      using rm_release_eq [OF own, of r] by simp
    then show ?thesis using refused(1) rm_step.release [OF refused(2-4), of self "-1" "lib \<sigma>" "[]"]
      by (simp add: signal_all_def)
  qed
next
  case (is_granted i r)
  note own = sys_inv_owns [OF inv good is_granted(2)]
  have le: "\<not> (\<exists>j<Mn (lib \<sigma>). r ! j > need (lib \<sigma>) ! i ! j)" using is_granted(5) by (auto simp: not_less)
  from is_granted(3) show ?thesis
  proof (elim disjE)
    assume run: "thr \<sigma> i = Running"
    then have "rm_request (lib \<sigma>) (self i) r = Ret 0 (grant_request (lib \<sigma>) i r)"
      using rm_request_eq [OF sys_invD(1) [OF inv] own is_granted(4)] le is_granted(6) by simp
    moreover have "(thr \<sigma>)(i := Running) = thr \<sigma>" using run by auto
    ultimately show ?thesis
      using is_granted(1) rm_step.request_returns [OF is_granted(2) run is_granted(4)] by simp
  qed (use is_granted(1,6) rm_step.wake_returns [OF is_granted(2)] waiting_wait(1) [OF inv good is_granted(2)] in auto)
next
  case (has_to_wait i r)
  then have own: "owns_row (lib \<sigma>) (self i) i" by (intro sys_inv_owns [OF inv good]) auto
  have "\<not> (\<exists>j<Mn (lib \<sigma>). r ! j > need (lib \<sigma>) ! i ! j)" using has_to_wait(5) by (auto simp: not_less)
  then have "rm_request (lib \<sigma>) (self i) r = Block (record_request (lib \<sigma>) i r)"
    using rm_request_eq [OF sys_invD(1) [OF inv] own has_to_wait(4)] has_to_wait(6) by simp
  then show ?thesis using has_to_wait(1) rm_step.request_blocks [OF has_to_wait(2-4)] by simp
next
  case (waits_again i r)
  then show ?thesis
    using rm_step.wake_blocks [OF waits_again(2,3)] waiting_wait(1) [OF inv good waits_again(2,3)] by simp
next
  case (gives_back i r)
  then have own: "owns_row (lib \<sigma>) (self i) i" by (intro sys_inv_owns [OF inv good]) auto
  have "\<not> (\<exists>j<Mn (lib \<sigma>). r ! j > allocation (lib \<sigma>) ! i ! j)" using gives_back(5) by (auto simp: not_less)
  then have "rm_release (lib \<sigma>) (self i) r = (Ret 0 (transfer (lib \<sigma>) i (\<lambda>j. - r ! j)), [0..<Nn (lib \<sigma>)])"
    using rm_release_eq [OF own, of r] by simp
  then show ?thesis using gives_back(1) rm_step.release [OF gives_back(2-4)] by simp
next
  case (ends i)
  then have "live (lib \<sigma>)" using sys_invD(7) [OF inv] by fastforce
  then show ?thesis using ends(1) rm_step.finish [OF ends(2-4) ended_eq] by simp
qed

lemma rm_move_inv:
  assumes "rm_move self \<sigma> \<sigma>'" and inv: "sys_inv self \<sigma>"
  shows "sys_inv self \<sigma>'"
  using assms(1)
proof cases
  case (registers i)
  then show ?thesis using after_start [OF inv] by simp
next
  case (claims i c)
  then show ?thesis using after_claim [OF inv] by simp
next
  case (goes_on i)
  then show ?thesis using after_nothing [OF inv] by simp
next
  case (is_granted i r)
  then show ?thesis using after_grant [OF inv is_granted(2,4) _ is_granted(6)] by auto
next
  case (has_to_wait i r)
  then show ?thesis using after_block [OF inv has_to_wait(2,4) _ has_to_wait(6)] by simp
next
  case (waits_again i r)
  then show ?thesis using after_rewait [OF inv] by simp
next
  case (gives_back i r)
  then show ?thesis using after_release [OF inv gives_back(2-4)] by simp
next
  case (ends i)
  then show ?thesis using after_finish [OF inv ends(2-4) refl] by simp
qed (use inv in simp)

lemma rm_step_inv:
  assumes "rm_step self \<sigma> \<sigma>'" and "good_handles self" and "sys_inv self \<sigma>"
  shows "sys_inv self \<sigma>'"
  by (rule rm_move_inv [OF rm_step_move [OF assms] assms(3)])

lemma rm_boot_inv:
  assumes "boot_args p_count r_count r_exist avoid"
  shows "sys_inv self (rm_boot p_count r_count r_exist avoid)"
proof -
  let ?s = "lib (rm_boot p_count r_count r_exist avoid)"
  have s: "?s = snd (rm_init rm_globals p_count r_count r_exist avoid)" by (simp add: rm_boot_def)
  have ok: "\<not> (p_count > int MAXP \<or> r_count > int MAXR \<or> tcount rm_globals > 0)"
    using assms by (auto simp: boot_args_def rm_globals_def)
  have zero: "replicate n (replicate m 0) ! i ! j = (0::int)" if "i < n" "j < m" for n m i j
    using that by simp
  have le: "nat r_count \<le> MAXR" "nat p_count \<le> MAXP" using assms by (auto simp: boot_args_def)
  have exist: "for_upd (nat r_count) (\<lambda>i _. r_exist ! i) (replicate MAXR 0) ! j = r_exist ! j"
    if "j < nat r_count" for j
    using that le(1) by (simp add: nth_for_upd)
  have inv: "rm_inv ?s"
    unfolding s rm_init_def using ok assms le
    by (simp add: rm_globals_def Let_def rm_inv_def rm_dims_def mat_dims_def rm_books_def
        rm_pending_def boot_args_def vec_nonneg_def exist zero)
  have safe: "state_safe ?s"
  proof -
    have "safe_order (nat r_count) (\<lambda>i j. 0) (\<lambda>i j. 0) w xs"
      if "\<And>j. j < nat r_count \<Longrightarrow> 0 \<le> w j" for w xs
      using that by (induction xs) (auto simp: can_run_def)
    then have "safe (nat p_count) (nat r_count) (\<lambda>i j. 0) (\<lambda>i j. 0) (\<lambda>j. r_exist ! j)"
      using assms unfolding safe_def boot_args_def vec_nonneg_def
      by (intro exI [of _ "[0..<nat p_count]"]) (simp add: atLeast0LessThan)
    also have "?this \<longleftrightarrow> state_safe ?s"
      unfolding s rm_init_def state_safe_def using ok
      by (simp add: Let_def) (rule safe_cong; simp add: zero)
    finally show ?thesis .
  qed
  show ?thesis
    using inv safe ok assms
    by (simp add: sys_inv_def s rm_boot_def) (simp add: rm_init_def rm_globals_def Let_def tids_inv_def
        active_def fresh_row_def row_zero_def boot_args_def)
qed

lemma reachable_inv:
  assumes "rm_reachable self p_count r_count r_exist avoid \<sigma>" and "good_handles self"
  shows "sys_inv self \<sigma>"
  using assms(1)
proof (induction rule: rm_reachable.induct)
  case boot
  then show ?case by (rule rm_boot_inv)
next
  case (step \<sigma> \<sigma>')
  then show ?case using rm_step_inv assms(2) by blast
qed

lemma reachable_live:
  assumes "rm_reachable self p m e a \<sigma>" and "good_handles self" and "tcount (lib \<sigma>) \<noteq> 0"
  shows "live (lib \<sigma>)"
proof (rule ccontr)
  have inv: "sys_inv self \<sigma>" by (rule reachable_inv [OF assms(1,2)])
  assume "\<not> live (lib \<sigma>)"
  then have "active (Nn (lib \<sigma>)) (thr \<sigma>) = {}" using sys_invD(7) [OF inv] by (auto simp: active_def)
  then show False using assms(3) sys_invD(5) [OF inv] by simp
qed

end
