(* ===== verification/RmClients.thy ===== *)
theory RmClients
  imports RmSystem
begin

text \<open>
  The two test applications, \<open>p3/22002379-22003430/app.c\<close> and \<open>myapp.c\<close>: each thread
  function is the list of library calls it makes (its sleeps and prints only choose the
  interleaving). \<open>rm_exec\<close> runs a schedule, a list of (thread, call) pairs in which
  \<open>Wakeup\<close> is a return from \<open>pthread_cond_wait\<close>; it is executable and every schedule it
  completes is a run of \<open>rm_step\<close> (\<open>rm_exec_reachable\<close>).
\<close>

datatype lib_call =
    Start
  | Claim "int list"
  | Request "int list"
  | Release "int list"
  | End
  | Wakeup

subsection \<open>Running a schedule\<close>

definition may_end :: "rm_sys \<Rightarrow> bool" where
  "may_end \<sigma> \<longleftrightarrow> (\<forall>k \<in> set [0..<Nn (lib \<sigma>)]. thr \<sigma> k \<noteq> Idle)"

definition nonneg_arg :: "rm_sys \<Rightarrow> int list \<Rightarrow> bool" where
  "nonneg_arg \<sigma> r \<longleftrightarrow> (\<forall>j \<in> set [0..<Mn (lib \<sigma>)]. 0 \<le> r ! j)"

fun rm_call :: "(nat \<Rightarrow> pthread) \<Rightarrow> rm_sys \<Rightarrow> nat \<Rightarrow> lib_call \<Rightarrow> rm_sys option" where
  "rm_call self \<sigma> i Start =
     (if thr \<sigma> i = Idle then
        (case rm_thread_started (lib \<sigma>) (self i) (int i) of
           Ret v s' \<Rightarrow> Some \<lparr>lib = s', thr = (thr \<sigma>)(i := Started)\<rparr>
         | _ \<Rightarrow> None)
      else None)"
| "rm_call self \<sigma> i (Claim c) =
     (if thr \<sigma> i = Started \<and> nonneg_arg \<sigma> c then
        (case rm_claim (lib \<sigma>) (self i) c of
           Ret v s' \<Rightarrow> Some \<lparr>lib = s', thr = (thr \<sigma>)(i := Running)\<rparr>
         | _ \<Rightarrow> None)
      else None)"
| "rm_call self \<sigma> i (Request r) =
     (if thr \<sigma> i = Running \<and> nonneg_arg \<sigma> r then
        (case rm_request (lib \<sigma>) (self i) r of
           Ret v s' \<Rightarrow> Some \<lparr>lib = s', thr = thr \<sigma>\<rparr>
         | Block s' \<Rightarrow> Some \<lparr>lib = s', thr = (thr \<sigma>)(i := Waiting r)\<rparr>
         | Undef \<Rightarrow> None)
      else None)"
| "rm_call self \<sigma> i (Release r) =
     (if thr \<sigma> i = Running \<and> nonneg_arg \<sigma> r then
        (case rm_release (lib \<sigma>) (self i) r of
           (Ret v s', cvs) \<Rightarrow> Some \<lparr>lib = s', thr = signal_all cvs (thr \<sigma>)\<rparr>
         | _ \<Rightarrow> None)
      else None)"
| "rm_call self \<sigma> i End =
     (if thr \<sigma> i = Running \<and> may_end \<sigma> then
        (case rm_thread_ended (lib \<sigma>) of
           Ret v s' \<Rightarrow> Some \<lparr>lib = s', thr = (thr \<sigma>)(i := Ended)\<rparr>
         | _ \<Rightarrow> None)
      else None)"
| "rm_call self \<sigma> i Wakeup =
     (case (case thr \<sigma> i of Signalled r \<Rightarrow> Some r | Waiting r \<Rightarrow> Some r | _ \<Rightarrow> None) of
        Some r \<Rightarrow>
          (case rm_request_wait (lib \<sigma>) (self i) r of
             Ret v s' \<Rightarrow> Some \<lparr>lib = s', thr = (thr \<sigma>)(i := Running)\<rparr>
           | Block s' \<Rightarrow> Some \<lparr>lib = s', thr = (thr \<sigma>)(i := Waiting r)\<rparr>
           | Undef \<Rightarrow> None)
      | None \<Rightarrow> None)"

fun rm_exec :: "(nat \<Rightarrow> pthread) \<Rightarrow> rm_sys \<Rightarrow> (nat \<times> lib_call) list \<Rightarrow> rm_sys option" where
  "rm_exec self \<sigma> [] = Some \<sigma>"
| "rm_exec self \<sigma> ((i, c) # es) =
     (if i < Nn (lib \<sigma>) then
        (case rm_call self \<sigma> i c of Some \<sigma>' \<Rightarrow> rm_exec self \<sigma>' es | None \<Rightarrow> None)
      else None)"

lemma nonneg_arg_iff: "nonneg_arg \<sigma> r = vec_nonneg (Mn (lib \<sigma>)) r"
  by (auto simp: nonneg_arg_def vec_nonneg_def)

lemma may_end_iff: "may_end \<sigma> \<longleftrightarrow> (\<forall>k<Nn (lib \<sigma>). thr \<sigma> k \<noteq> Idle)"
  by (auto simp: may_end_def)

lemma rm_call_step:
  assumes "rm_call self \<sigma> i c = Some \<sigma>'" and "i < Nn (lib \<sigma>)"
  shows "rm_step self \<sigma> \<sigma>'"
  using assms
  by (cases c)
    (auto simp: nonneg_arg_iff may_end_iff split: if_splits outcome.splits option.splits
        tstate.splits prod.splits intro: rm_step.intros)

lemma rm_exec_reachable:
  assumes "rm_exec self \<sigma> es = Some \<sigma>'" and "rm_reachable self p m e a \<sigma>"
  shows "rm_reachable self p m e a \<sigma>'"
  using assms
proof (induction self \<sigma> es rule: rm_exec.induct)
  case (2 self \<sigma> i c es)
  then show ?case
    by (auto split: if_splits option.splits intro: rm_reachable.step dest: rm_call_step)
qed simp

text \<open>The calls of each thread, in order, without the wake-ups.\<close>

definition calls_of :: "nat \<Rightarrow> (nat \<times> lib_call) list \<Rightarrow> lib_call list" where
  "calls_of i es = map snd (filter (\<lambda>(k, c). k = i \<and> c \<noteq> Wakeup) es)"

fun starts_with :: "lib_call list \<Rightarrow> lib_call list \<Rightarrow> bool" where
  "starts_with _ [] = True"
| "starts_with [] (_ # _) = False"
| "starts_with (x # xs) (y # ys) = (x = y \<and> starts_with xs ys)"

definition follows :: "lib_call list list \<Rightarrow> (nat \<times> lib_call) list \<Rightarrow> bool" where
  "follows scripts es \<longleftrightarrow>
     (\<forall>i \<in> set [0..<length scripts]. starts_with (scripts ! i) (calls_of i es)) \<and>
     list_all (\<lambda>(i, c). i < length scripts) es"

subsection \<open>app.c\<close>

definition threadfunc1 :: "lib_call list" where
  "threadfunc1 = [Start, Claim [8], Request [5], Request [3], Release [5], Release [3], End]"

definition threadfunc2 :: "lib_call list" where
  "threadfunc2 = [Start, Claim [8], Request [2], Request [4], Release [2], Release [4], End]"

definition app_scripts :: "lib_call list list" where
  "app_scripts = [threadfunc1, threadfunc2]"

definition app_main :: "int \<Rightarrow> rm_sys" where
  "app_main avoidflag = (if avoidflag = 1 then rm_boot 2 1 [8] 1 else rm_boot 2 1 [8] 0)"

subsection \<open>myapp.c\<close>

definition worker1 :: "lib_call list" where
  "worker1 = [Start, Claim [7, 2, 6, 1, 1],
     Request [2, 2, 3, 1, 1], Request [1, 0, 2, 0, 0], Request [0, 0, 1, 1, 1],
     Release [2, 2, 3, 1, 1], Release [1, 0, 2, 0, 0], Release [0, 0, 1, 1, 1], End]"

definition worker2 :: "lib_call list" where
  "worker2 = [Start, Claim [7, 2, 6, 1, 1],
     Request [2, 0, 0, 0, 0], Request [2, 0, 2, 0, 0], Request [0, 0, 0, 1, 1],
     Release [2, 0, 0, 0, 0], Release [2, 0, 2, 0, 0], Release [0, 0, 0, 1, 1], End]"

definition worker3 :: "lib_call list" where
  "worker3 = [Start, Claim [7, 2, 6, 1, 1],
     Request [3, 0, 3, 0, 0], Request [0, 0, 1, 0, 0], Request [2, 0, 0, 1, 1],
     Release [3, 0, 3, 0, 0], Release [0, 0, 1, 0, 0], Release [2, 0, 0, 1, 1], End]"

definition myapp_scripts :: "lib_call list list" where
  "myapp_scripts = [worker1, worker2, worker3]"

definition deadlock :: rm_sys where
  "deadlock = rm_boot 3 5 [7, 2, 6, 1, 1] 0"

definition deadlock_avoid :: rm_sys where
  "deadlock_avoid = rm_boot 3 5 [7, 2, 6, 1, 1] 1"

definition myapp_main :: "int \<Rightarrow> rm_sys" where
  "myapp_main avoidflag = (if avoidflag = 1 then deadlock_avoid else deadlock)"

end
