(* ===== verification/RmProperties.thy ===== *)
theory RmProperties
  imports RmClients
begin

text \<open>
  The properties of the resource manager: safety and absence of deadlock under avoidance,
  the books of every reachable state, the exactness of the safety test and of the detection,
  every branch of the calls, and what happens outside the protocol the comments prescribe.
\<close>

lemma good_handles_Suc: "good_handles Suc"
  by (simp add: good_handles_def)

subsection \<open>What a run cannot change\<close>

definition same_config :: "rm_state \<Rightarrow> rm_state \<Rightarrow> bool" where
  "same_config s s' \<longleftrightarrow> DA s' = DA s \<and> thrN s' = thrN s \<and> resM s' = resM s \<and>
     ExistingRes s' = ExistingRes s"

lemma wait_config:
  "rm_request_wait s self r = Ret v s' \<Longrightarrow> same_config s s'"
  "rm_request_wait s self r = Block s' \<Longrightarrow> same_config s s'"
  by (auto simp: rm_request_wait_def is_state_safe_def Let_def split_beta same_config_def
      split: if_splits)

lemma same_config_refl [simp]: "same_config s s"
  by (simp add: same_config_def)

lemma same_config_requests [simp]: "same_config (s\<lparr>requests := q\<rparr>) s' = same_config s s'"
  by (simp add: same_config_def)

lemma request_config:
  "rm_request s self r = Ret v s' \<Longrightarrow> same_config s s'"
  "rm_request s self r = Block s' \<Longrightarrow> same_config s s'"
  using wait_config [of "s\<lparr>requests := row_upd (Mn s) (\<lambda>i _. r ! i) (nat (get_tid s self)) (requests s)\<rparr>" self r]
  by (simp_all add: rm_request_def Let_def split: if_splits)

lemma rm_step_config:
  assumes "rm_step self \<sigma> \<sigma>'"
  shows "same_config (lib \<sigma>) (lib \<sigma>')"
  using assms
proof cases
  case (start i v s')
  then show ?thesis by (auto simp: rm_thread_started_def same_config_def split: if_splits)
next
  case (claim i c v s')
  then show ?thesis by (auto simp: rm_claim_def Let_def same_config_def split: if_splits)
next
  case (release i r v s' cvs)
  then show ?thesis by (auto simp: rm_release_def Let_def same_config_def split: if_splits)
next
  case (finish i v s')
  then show ?thesis by (auto simp: rm_thread_ended_def Let_def same_config_def split: if_splits)
qed (auto dest: request_config wait_config)

lemma reachable_config:
  assumes "rm_reachable self p m e a \<sigma>"
  shows "DA (lib \<sigma>) = a" and "thrN (lib \<sigma>) = p" and "resM (lib \<sigma>) = m"
    and "j < nat m \<Longrightarrow> ExistingRes (lib \<sigma>) ! j = e ! j"
proof -
  have "DA (lib \<sigma>) = a \<and> thrN (lib \<sigma>) = p \<and> resM (lib \<sigma>) = m \<and>
      (\<forall>j<nat m. ExistingRes (lib \<sigma>) ! j = e ! j)"
    using assms
  proof (induction rule: rm_reachable.induct)
    case boot
    then have "nat m \<le> MAXR" by (auto simp: boot_args_def)
    with boot show ?case
      by (auto simp: rm_boot_def rm_init_def rm_globals_def boot_args_def Let_def nth_for_upd)
  next
    case (step \<sigma> \<sigma>')
    then show ?case using rm_step_config [of self \<sigma> \<sigma>'] by (simp add: same_config_def)
  qed
  then show "DA (lib \<sigma>) = a" and "thrN (lib \<sigma>) = p" and "resM (lib \<sigma>) = m"
    and "j < nat m \<Longrightarrow> ExistingRes (lib \<sigma>) ! j = e ! j"
    by auto
qed

text \<open>A concrete run of \<open>app.c\<close> with avoidance: thread 0 holds 5 of 8, thread 1 waits for 2.\<close>

definition avoid_schedule :: "(nat \<times> lib_call) list" where
  "avoid_schedule = [(0, Start), (1, Start), (0, Claim [8]), (1, Claim [8]), (0, Request [5]),
     (1, Request [2])]"

definition avoid_example :: rm_sys where
  "avoid_example = (case rm_exec Suc (app_main 1) avoid_schedule of Some \<sigma> \<Rightarrow> \<sigma>)"

lemma app_main_boot: "app_main a = rm_boot 2 1 [8] (if a = 1 then 1 else 0)"
  by (simp add: app_main_def)

lemma avoid_example_exec: "rm_exec Suc (app_main 1) avoid_schedule = Some avoid_example"
proof -
  have "rm_exec Suc (app_main 1) avoid_schedule \<noteq> None" by code_simp
  then show ?thesis by (auto simp: avoid_example_def)
qed

lemma avoid_example_reachable: "rm_reachable Suc 2 1 [8] 1 avoid_example"
proof (rule rm_exec_reachable [OF avoid_example_exec])
  have "boot_args 2 1 [8] 1" by (simp add: boot_args_def MAXP_def MAXR_def vec_nonneg_def)
  then show "rm_reachable Suc 2 1 [8] 1 (app_main 1)"
    by (simp add: app_main_boot rm_reachable.boot)
qed

lemma avoid_example_facts:
  "thr avoid_example 0 = Running" "thr avoid_example 1 = Waiting [2]"
  "allocation (lib avoid_example) = [[5], [0]]" "need (lib avoid_example) = [[3], [8]]"
  "requests (lib avoid_example) = [[0], [2]]" "available (lib avoid_example) = [3]"
  by code_simp+

subsection \<open>Deadlock avoidance\<close>

text \<open>C1: with avoidance on, every reachable state is safe: there is an order in which all
  threads can obtain everything they may still claim and run to completion.\<close>

theorem avoidance_state_safe:
  assumes "rm_reachable self p_count r_count r_exist 1 \<sigma>" and "good_handles self"
  shows "safe (Nn (lib \<sigma>)) (Mn (lib \<sigma>)) (mat_fun (need (lib \<sigma>)))
           (mat_fun (allocation (lib \<sigma>))) (vec_fun (available (lib \<sigma>)))"
  using sys_invD(3) [OF reachable_inv [OF assms]] reachable_config(1) [OF assms(1)]
  by (simp add: state_safe_def)

theorem avoidance_state_safe_witness:
  "rm_reachable Suc 2 1 [8] 1 avoid_example \<and> good_handles Suc \<and>
   safe (Nn (lib avoid_example)) (Mn (lib avoid_example)) (mat_fun (need (lib avoid_example)))
     (mat_fun (allocation (lib avoid_example))) (vec_fun (available (lib avoid_example)))"
  using avoidance_state_safe [OF avoid_example_reachable good_handles_Suc]
    avoid_example_reachable good_handles_Suc by blast

lemma no_deadlock:
  assumes "rm_reachable self p_count r_count r_exist 1 \<sigma>" and "good_handles self"
    and "i < Nn (lib \<sigma>)" and "thr \<sigma> i = Waiting r"
  shows "\<exists>k<Nn (lib \<sigma>). (\<forall>q. thr \<sigma> k \<noteq> Waiting q) \<and>
           (\<exists>j<Mn (lib \<sigma>). 0 < allocation (lib \<sigma>) ! k ! j)"
proof (rule ccontr)
  let ?s = "lib \<sigma>"
  let ?B = "{k. k < Nn ?s \<and> (\<exists>q. thr \<sigma> k = Waiting q)}"
  assume none: "\<not> ?thesis"
  have inv: "sys_inv self \<sigma>" by (rule reachable_inv [OF assms(1,2)])
  note inv' = sys_invD(1) [OF inv] and dims = rm_invD(1) [OF sys_invD(1) [OF inv]]
  have da: "DA ?s = 1" by (rule reachable_config(1) [OF assms(1)])
  have zero: "allocation ?s ! k ! j = 0" if "k < Nn ?s" "k \<notin> ?B" "j < Mn ?s" for k j
    using none that rm_booksD(3) [OF rm_invD(2) [OF inv'] that(3,1)] by force
  obtain xs where xs: "distinct xs" "set xs = {..<Nn ?s}"
    "safe_order (Mn ?s) (mat_fun (need ?s)) (mat_fun (allocation ?s)) (vec_fun (available ?s)) xs"
    using sys_invD(3) [OF inv da] by (auto simp: state_safe_def safe_def)
  have "\<exists>x\<in>set xs. x \<in> ?B" by (rule bexI [of _ i]) (use xs(2) assms(3,4) in auto)
  then obtain as u bs where split: "xs = as @ u # bs" "u \<in> ?B" "\<forall>y\<in>set as. y \<notin> ?B"
    using split_list_first_prop [of xs "\<lambda>x. x \<in> ?B"] by blast
  then obtain q where u: "u < Nn ?s" "thr \<sigma> u = Waiting q" by auto
  have "released (vec_fun (available ?s)) (mat_fun (allocation ?s)) (set as) j = available ?s ! j"
    if "j < Mn ?s" for j
  proof -
    have "(\<Sum>i\<in>set as. allocation ?s ! i ! j) = 0"
      using zero that split xs(2) by (intro sum.neutral) auto
    then show ?thesis by (simp add: released_def)
  qed
  moreover have "can_run (Mn ?s) (mat_fun (need ?s))
      (released (vec_fun (available ?s)) (mat_fun (allocation ?s)) (set as)) u"
    using xs(1,3) unfolding split(1) by (simp add: safe_order_append)
  ultimately have run: "can_run (Mn ?s) (mat_fun (need ?s)) (vec_fun (available ?s)) u"
    by (simp add: can_run_def)
  note pend = waiting_wait(2,3) [OF inv assms(2) u(1) disjI2 [OF u(2)]]
  have "\<not> grantable ?s u q" using sys_invD(6) [OF inv u(1)] u(2) by simp
  moreover have "grantable ?s u q"
    by (rule runnable_grantable [OF inv' sys_invD(3) [OF inv da] u(1) run pend])
  ultimately show False by simp
qed

text \<open>C2: with avoidance on, the threads never deadlock: whenever a thread waits inside
  \<open>rm_request\<close>, some thread that is not waiting holds resources it has yet to release.\<close>

theorem avoidance_no_deadlock:
  assumes "rm_reachable self p_count r_count r_exist 1 \<sigma>" and "good_handles self"
    and "i < Nn (lib \<sigma>)" and "thr \<sigma> i = Waiting r"
  shows "\<exists>k<Nn (lib \<sigma>). (\<forall>q. thr \<sigma> k \<noteq> Waiting q) \<and>
           (\<exists>j<Mn (lib \<sigma>). 0 < allocation (lib \<sigma>) ! k ! j)"
  using assms by (rule no_deadlock)

theorem avoidance_no_deadlock_witness:
  "rm_reachable Suc 2 1 [8] 1 avoid_example \<and> thr avoid_example 1 = Waiting [2] \<and>
   (\<exists>k<Nn (lib avoid_example). (\<forall>q. thr avoid_example k \<noteq> Waiting q) \<and>
      (\<exists>j<Mn (lib avoid_example). 0 < allocation (lib avoid_example) ! k ! j))"
proof -
  have "1 < Nn (lib avoid_example)"
    using reachable_config(2) [OF avoid_example_reachable] by simp
  then show ?thesis
    using avoidance_no_deadlock [OF avoid_example_reachable good_handles_Suc _ avoid_example_facts(2)]
      avoid_example_reachable avoid_example_facts(2) by blast
qed

text \<open>C5: in every reachable state the books balance: for each resource type, what is available
  plus what the threads hold is what exists at initialisation, nothing is negative, and no
  thread holds more than it claimed or claims more than exists. So no cell overflows.\<close>

theorem books_balance:
  assumes "rm_reachable self p_count r_count r_exist avoid \<sigma>" and "good_handles self"
    and "j < nat r_count"
  shows "available (lib \<sigma>) ! j + (\<Sum>i<nat p_count. allocation (lib \<sigma>) ! i ! j) = r_exist ! j \<and>
    0 \<le> available (lib \<sigma>) ! j \<and>
    (\<forall>i<nat p_count. 0 \<le> allocation (lib \<sigma>) ! i ! j \<and> 0 \<le> need (lib \<sigma>) ! i ! j \<and>
       allocation (lib \<sigma>) ! i ! j + need (lib \<sigma>) ! i ! j = maxDemand (lib \<sigma>) ! i ! j \<and>
       maxDemand (lib \<sigma>) ! i ! j \<le> r_exist ! j \<and>
       0 \<le> requests (lib \<sigma>) ! i ! j \<and> requests (lib \<sigma>) ! i ! j \<le> need (lib \<sigma>) ! i ! j)"
proof -
  have inv: "rm_inv (lib \<sigma>)" by (rule sys_invD(1) [OF reachable_inv [OF assms(1,2)]])
  note conf = reachable_config [OF assms(1)]
  show ?thesis
    using rm_booksD [OF rm_invD(2) [OF inv], of j] rm_invD(3) [OF inv] assms(3) conf(4) [OF assms(3)]
    by (simp add: conf(2,3) rm_pending_def add.commute)
qed

theorem books_balance_witness:
  "rm_reachable Suc 2 1 [8] 1 avoid_example \<and>
   available (lib avoid_example) ! 0 + (\<Sum>i<nat 2. allocation (lib avoid_example) ! i ! 0) = 8"
  using books_balance [OF avoid_example_reachable good_handles_Suc, of 0] avoid_example_reachable
  by simp

text \<open>C6: the safety test answers true exactly when the state with the request granted is safe,
  and it leaves the library's state as it found it.\<close>

theorem is_state_safe_correct:
  assumes "rm_inv s" and "owns_row s self t" and "vec_nonneg (Mn s) request"
  shows "is_state_safe s self request =
    (safe (Nn s) (Mn s)
       (\<lambda>i j. if i = t then need s ! i ! j - request ! j else need s ! i ! j)
       (\<lambda>i j. if i = t then allocation s ! i ! j + request ! j else allocation s ! i ! j)
       (\<lambda>j. available s ! j - request ! j), s)"
proof -
  note inv = rm_invD [OF assms(1)] and tid = owns_rowD [OF assms(2)]
  have "state_safe (as_if_granted s t request) = safe (Nn s) (Mn s)
       (\<lambda>i j. if i = t then need s ! i ! j - request ! j else need s ! i ! j)
       (\<lambda>i j. if i = t then allocation s ! i ! j + request ! j else allocation s ! i ! j)
       (\<lambda>j. available s ! j - request ! j)"
    unfolding state_safe_def as_if_granted_transfer
    by (simp, rule safe_cong) (simp_all add: transfer_cells [OF inv(1)] transfer_avail [OF inv(1)])
  then show ?thesis
    using is_state_safe_restores [OF inv(1) tid(1,2), of request]
      is_state_safe_decides [OF inv(1) tid(1,2) alloc_nonneg_granted [OF inv(1,4) assms(3)]]
    by (simp add: prod_eq_iff)
qed

lemma avoid_example_owns: "owns_row (lib avoid_example) 1 0"
  using sys_inv_owns [OF reachable_inv [OF avoid_example_reachable good_handles_Suc] good_handles_Suc, of 0]
    avoid_example_facts(1) reachable_config(2) [OF avoid_example_reachable] by simp

lemma avoid_example_inv: "rm_inv (lib avoid_example)"
  by (rule sys_invD(1) [OF reachable_inv [OF avoid_example_reachable good_handles_Suc]])

lemma avoid_example_Mn: "Mn (lib avoid_example) = 1"
  using reachable_config(3) [OF avoid_example_reachable] by simp

lemma avoid_example_arg: "0 \<le> x \<Longrightarrow> vec_nonneg (Mn (lib avoid_example)) [x]"
  by (simp add: vec_nonneg_def avoid_example_Mn)

theorem is_state_safe_correct_witness:
  "fst (is_state_safe (lib avoid_example) 1 [3]) \<and>
   safe (Nn (lib avoid_example)) (Mn (lib avoid_example))
     (\<lambda>i j. if i = 0 then need (lib avoid_example) ! i ! j - [3] ! j else need (lib avoid_example) ! i ! j)
     (\<lambda>i j. if i = 0 then allocation (lib avoid_example) ! i ! j + [3] ! j
            else allocation (lib avoid_example) ! i ! j)
     (\<lambda>j. available (lib avoid_example) ! j - [3] ! j)"
proof -
  have "fst (is_state_safe (lib avoid_example) 1 [3])" by code_simp
  then show ?thesis
    using is_state_safe_correct [OF avoid_example_inv avoid_example_owns avoid_example_arg, of 3]
    by simp
qed

text \<open>C7: deadlock detection is exact: it returns the size of the greatest deadlocked set, the
  greatest set of threads none of whose pending requests could be met even if all other
  threads handed back everything they hold.\<close>

theorem rm_detection_correct:
  assumes "rm_inv s" and "live s" and "tcount s \<noteq> 0"
  shows "\<exists>D. rm_detection s = Ret (int (card D)) s \<and> D \<subseteq> {..<Nn s} \<and>
    (\<forall>i\<in>D. \<exists>j<Mn s. requests s ! i ! j >
        available s ! j + (\<Sum>k\<in>{..<Nn s} - D. allocation s ! k ! j)) \<and>
    (\<forall>E. E \<subseteq> {..<Nn s} \<and> (\<forall>i\<in>E. \<exists>j<Mn s. requests s ! i ! j >
        available s ! j + (\<Sum>k\<in>{..<Nn s} - E. allocation s ! k ! j)) \<longrightarrow> E \<subseteq> D)"
proof -
  have eq: "deadlocked_set s E \<longleftrightarrow> E \<subseteq> {..<Nn s} \<and> (\<forall>i\<in>E. \<exists>j<Mn s. requests s ! i ! j >
        available s ! j + (\<Sum>k\<in>{..<Nn s} - E. allocation s ! k ! j))" for E
    by (simp add: deadlocked_set_def stuck_def can_run_def released_def not_le)
  obtain D where "rm_detection s = Ret (int (card D)) s" "deadlocked_set s D"
    "\<And>E. deadlocked_set s E \<Longrightarrow> E \<subseteq> D"
    using rm_detection_greatest [OF rm_invD(1) [OF assms(1)] rm_invD(4) [OF assms(1)] assms(3,2)]
    by blast
  then show ?thesis unfolding eq by (intro exI [of _ D]) simp
qed

text \<open>A concrete deadlock of \<open>app.c\<close> without avoidance: both threads wait for the other.\<close>

definition deadlock_schedule :: "(nat \<times> lib_call) list" where
  "deadlock_schedule = [(0, Start), (1, Start), (0, Claim [8]), (1, Claim [8]), (0, Request [5]),
     (1, Request [2]), (1, Request [4]), (0, Request [3])]"

definition deadlock_example :: rm_sys where
  "deadlock_example = (case rm_exec Suc (app_main 0) deadlock_schedule of Some \<sigma> \<Rightarrow> \<sigma>)"

lemma deadlock_example_reachable: "rm_reachable Suc 2 1 [8] 0 deadlock_example"
proof -
  have "rm_exec Suc (app_main 0) deadlock_schedule \<noteq> None" by code_simp
  then have run: "rm_exec Suc (app_main 0) deadlock_schedule = Some deadlock_example"
    by (auto simp: deadlock_example_def)
  have "boot_args 2 1 [8] 0" by (simp add: boot_args_def MAXP_def MAXR_def vec_nonneg_def)
  then have "rm_reachable Suc 2 1 [8] 0 (app_main 0)"
    by (simp add: app_main_boot rm_reachable.boot)
  then show ?thesis by (rule rm_exec_reachable [OF run])
qed

lemma deadlock_example_inv: "rm_inv (lib deadlock_example)"
  by (rule sys_invD(1) [OF reachable_inv [OF deadlock_example_reachable good_handles_Suc]])

lemma deadlock_example_facts:
  "live (lib deadlock_example)" "tcount (lib deadlock_example) = 2"
  "(case rm_detection (lib deadlock_example) of Ret v _ \<Rightarrow> v = 2 | _ \<Rightarrow> False)"
  "thr deadlock_example 0 = Waiting [3]" "thr deadlock_example 1 = Waiting [4]"
  by code_simp+

theorem rm_detection_correct_witness:
  "live (lib deadlock_example) \<and> tcount (lib deadlock_example) \<noteq> 0 \<and>
   (\<exists>D. card D = 2 \<and> D \<subseteq> {..<Nn (lib deadlock_example)} \<and>
     (\<forall>i\<in>D. \<exists>j<Mn (lib deadlock_example). requests (lib deadlock_example) ! i ! j >
        available (lib deadlock_example) ! j +
        (\<Sum>k\<in>{..<Nn (lib deadlock_example)} - D. allocation (lib deadlock_example) ! k ! j)))"
proof -
  have count: "tcount (lib deadlock_example) \<noteq> 0" using deadlock_example_facts(2) by simp
  obtain D where D: "rm_detection (lib deadlock_example) = Ret (int (card D)) (lib deadlock_example)"
    "D \<subseteq> {..<Nn (lib deadlock_example)}"
    "\<forall>i\<in>D. \<exists>j<Mn (lib deadlock_example). requests (lib deadlock_example) ! i ! j >
        available (lib deadlock_example) ! j +
        (\<Sum>k\<in>{..<Nn (lib deadlock_example)} - D. allocation (lib deadlock_example) ! k ! j)"
    using rm_detection_correct [OF deadlock_example_inv deadlock_example_facts(1) count] by blast
  have "card D = 2" using D(1) deadlock_example_facts(3) by simp
  then show ?thesis using D(2,3) deadlock_example_facts(1) count by blast
qed

text \<open>A pending request is part of the remaining need, so a thread stuck on its request would
  be stuck in the safety test too.\<close>

lemma avoidance_detection_zero_aux:
  assumes "rm_reachable self p_count r_count r_exist 1 \<sigma>" and "good_handles self"
  shows "rm_detection (lib \<sigma>) = Ret 0 (lib \<sigma>)"
proof (cases "tcount (lib \<sigma>) = 0")
  case True
  then show ?thesis by (simp add: rm_detection_def)
next
  case False
  let ?s = "lib \<sigma>"
  have inv: "sys_inv self \<sigma>" by (rule reachable_inv [OF assms])
  note inv' = sys_invD(1) [OF inv]
  have "live ?s" by (rule reachable_live [OF assms False])
  then obtain D where D: "rm_detection ?s = Ret (int (card D)) ?s" "deadlocked_set ?s D"
    using rm_detection_greatest [OF rm_invD(1) [OF inv'] rm_invD(4) [OF inv'] False] by blast
  have more: "requests ?s ! i ! j \<le> need ?s ! i ! j" if "i < Nn ?s" "j < Mn ?s" for i j
    using rm_invD(3) [OF inv'] that by (simp add: rm_pending_def)
  have "stuck (Nn ?s) (Mn ?s) (mat_fun (need ?s)) (mat_fun (allocation ?s)) (vec_fun (available ?s)) D"
    by (rule stuck_more_demand [OF D(2) [unfolded deadlocked_set_def] more])
  moreover obtain xs where xs: "distinct xs" "set xs = {..<Nn ?s}"
    "safe_order (Mn ?s) (mat_fun (need ?s)) (mat_fun (allocation ?s)) (vec_fun (available ?s)) xs"
    using sys_invD(3) [OF inv] reachable_config(1) [OF assms(1)] by (auto simp: state_safe_def safe_def)
  ultimately have "set xs \<inter> D = {}"
    using need_graph.order_avoids_stuck [OF rm_invD(4) [OF inv'] xs(3,1)] by simp
  moreover have "D \<subseteq> {..<Nn ?s}" using D(2) by (simp add: deadlocked_set_def stuck_def)
  ultimately have "D = {}" using xs(2) by blast
  then show ?thesis using D(1) by simp
qed

text \<open>With avoidance on, the detection reports no deadlock in any reachable state.\<close>

theorem avoidance_detection_zero:
  assumes "rm_reachable self p_count r_count r_exist 1 \<sigma>" and "good_handles self"
  shows "rm_detection (lib \<sigma>) = Ret 0 (lib \<sigma>)"
  using assms by (rule avoidance_detection_zero_aux)

theorem avoidance_detection_zero_witness:
  "rm_reachable Suc 2 1 [8] 1 avoid_example \<and> thr avoid_example 1 = Waiting [2] \<and>
   rm_detection (lib avoid_example) = Ret 0 (lib avoid_example)"
  using avoidance_detection_zero [OF avoid_example_reachable good_handles_Suc]
    avoid_example_reachable avoid_example_facts(2) by blast

subsection \<open>The calls\<close>

text \<open>C9: \<open>rm_request\<close> on every branch: more than the remaining need is refused with -1 and no
  change; a request that is available (and, with avoidance, leaves a safe state) is granted;
  any other blocks the caller with only its request recorded.\<close>

theorem rm_request_branches:
  assumes "rm_inv s" and "owns_row s self t" and "vec_nonneg (Mn s) r" and "DA s = 0 \<or> DA s = 1"
  shows "rm_request s self r =
    (if \<exists>j<Mn s. r ! j > need s ! t ! j then Ret (-1) s
     else if (\<forall>j<Mn s. r ! j \<le> available s ! j) \<and> (DA s = 1 \<longrightarrow> state_safe (transfer s t (\<lambda>j. r ! j)))
     then Ret 0 ((transfer s t (\<lambda>j. r ! j))\<lparr>requests := row_upd (Mn s) (\<lambda>_ _. 0) t (requests s)\<rparr>)
     else Block (s\<lparr>requests := row_upd (Mn s) (\<lambda>j _. r ! j) t (requests s)\<rparr>))"
  unfolding rm_request_eq [OF assms(1-3)] grantable_def is_available_iff grant_transfer
    record_request_def as_if_granted_transfer
  using assms(4) by (elim disjE) simp_all

theorem rm_request_branches_witness:
  "rm_request (lib avoid_example) 1 [4] = Ret (-1) (lib avoid_example) \<and>
   rm_request (lib avoid_example) 1 [1] =
     Ret 0 ((transfer (lib avoid_example) 0 (\<lambda>j. [1] ! j))
       \<lparr>requests := row_upd (Mn (lib avoid_example)) (\<lambda>_ _. 0) 0 (requests (lib avoid_example))\<rparr>)"
proof -
  have da: "DA (lib avoid_example) = 0 \<or> DA (lib avoid_example) = 1"
    using reachable_config(1) [OF avoid_example_reachable] by simp
  have "state_safe (transfer (lib avoid_example) 0 (\<lambda>j. [1] ! j))"
  proof -
    have "fst (is_state_safe (lib avoid_example) 1 [1])" by code_simp
    then show ?thesis
      using is_state_safe_decides [of "lib avoid_example" 1 0 "[1]"] avoid_example_inv
        owns_rowD [OF avoid_example_owns] alloc_nonneg_granted avoid_example_arg [of 1]
      by (simp add: as_if_granted_transfer rm_invD)
  qed
  then show ?thesis
    using rm_request_branches [OF avoid_example_inv avoid_example_owns avoid_example_arg da]
    by (simp add: avoid_example_Mn avoid_example_facts)
qed

text \<open>A granted request followed by the release of the same vector restores the library's
  state exactly, and the release signals every condition variable.\<close>

theorem request_release_roundtrip:
  assumes "rm_inv s" and "owns_row s self t" and "vec_nonneg (Mn s) r"
    and "row_zero (Mn s) (requests s) t" and "rm_request s self r = Ret 0 s'"
  shows "rm_release s' self r = (Ret 0 s, [0..<Nn s])"
proof -
  note dims = rm_invD(1) [OF assms(1)] and tid = owns_rowD [OF assms(2)]
  have "s' = grant_request s t r"
    using assms(5) rm_request_eq [OF assms(1-3)] by (simp split: if_splits)
  moreover have "row_upd (Mn s) (\<lambda>_ _. 0) t (requests s) = requests s"
    using assms(4) by (simp add: row_upd_def row_zero_def for_upd_id)
  ultimately have s': "s' = transfer s t (\<lambda>j. r ! j)" by (simp add: grant_transfer)
  have own: "owns_row s' self t"
    using assms(2) by (simp add: s' owns_row_def get_tid_def)
  have "r ! j \<le> allocation (transfer s t (\<lambda>j. r ! j)) ! t ! j" if "j < Mn s" for j
    using rm_booksD(3) [OF rm_invD(2) [OF assms(1)] that tid(2)] transfer_cells(2) [OF dims tid(2) that]
    by simp
  then have "\<not> (\<exists>j<Mn s'. r ! j > allocation s' ! t ! j)"
    unfolding s' transfer_select by (meson not_le)
  then show ?thesis
    using rm_release_eq [OF own, of r]
    by (simp add: s' transfer_transfer [OF dims tid(2)] transfer_zero [OF dims tid(2)])
qed

theorem request_release_roundtrip_witness:
  "\<exists>s'. rm_request (lib avoid_example) 1 [1] = Ret 0 s' \<and>
        rm_release s' 1 [1] = (Ret 0 (lib avoid_example), [0..<Nn (lib avoid_example)])"
proof -
  have "(case rm_request (lib avoid_example) 1 [1] of Ret v _ \<Rightarrow> v = 0 | _ \<Rightarrow> False)"
    by code_simp
  then obtain s' where s': "rm_request (lib avoid_example) 1 [1] = Ret 0 s'"
    by (auto split: outcome.splits)
  have "row_zero (Mn (lib avoid_example)) (requests (lib avoid_example)) 0"
    by (simp add: row_zero_def avoid_example_Mn avoid_example_facts)
  then show ?thesis
    using request_release_roundtrip [OF avoid_example_inv avoid_example_owns avoid_example_arg _ s'] s'
    by simp
qed

text \<open>C10: no wake-up is lost: while a thread waits unsignalled, its request cannot be granted,
  so running the wait loop again would only block it again and change nothing.\<close>

theorem waiting_stays_blocked:
  assumes "rm_reachable self p_count r_count r_exist avoid \<sigma>" and "good_handles self"
    and "i < Nn (lib \<sigma>)" and "thr \<sigma> i = Waiting r"
  shows "rm_request_wait (lib \<sigma>) (self i) r = Block (lib \<sigma>)"
proof -
  have inv: "sys_inv self \<sigma>" by (rule reachable_inv [OF assms(1,2)])
  have "\<not> grantable (lib \<sigma>) i r" using sys_invD(6) [OF inv assms(3)] assms(4) by simp
  then show ?thesis using waiting_wait(1) [OF inv assms(2,3) disjI2 [OF assms(4)]] by simp
qed

theorem waiting_stays_blocked_witness:
  "thr deadlock_example 1 = Waiting [4] \<and>
   rm_request_wait (lib deadlock_example) (Suc 1) [4] = Block (lib deadlock_example)"
  using waiting_stays_blocked [OF deadlock_example_reachable good_handles_Suc _ deadlock_example_facts(5)]
    reachable_config(2) [OF deadlock_example_reachable] deadlock_example_facts(5) by simp

text \<open>A release serves the waiters it can: without avoidance, when a running thread gives
  back part of what it holds, every waiting thread is signalled, and a waiter whose request
  fits the enlarged pool is granted it when it runs again.\<close>

theorem release_serves_waiter:
  assumes "rm_reachable self p_count r_count r_exist 0 \<sigma>" and "good_handles self"
    and "i < Nn (lib \<sigma>)" and "thr \<sigma> i = Running" and "vec_nonneg (Mn (lib \<sigma>)) r"
    and "\<forall>j<Mn (lib \<sigma>). r ! j \<le> allocation (lib \<sigma>) ! i ! j"
    and "k < Nn (lib \<sigma>)" and "thr \<sigma> k = Waiting q"
    and "\<forall>j<Mn (lib \<sigma>). q ! j \<le> available (lib \<sigma>) ! j + r ! j"
  shows "\<exists>s' cvs. rm_release (lib \<sigma>) (self i) r = (Ret 0 s', cvs) \<and>
    signal_all cvs (thr \<sigma>) k = Signalled q \<and>
    rm_request_wait s' (self k) q = Ret 0 (grant_request s' k q)"
proof -
  have inv: "sys_inv self \<sigma>" by (rule reachable_inv [OF assms(1,2)])
  let ?s = "transfer (lib \<sigma>) i (\<lambda>j. - r ! j)" and ?th = "signal_all [0..<Nn (lib \<sigma>)] (thr \<sigma>)"
  have own: "owns_row (lib \<sigma>) (self i) i"
    by (rule sys_inv_owns [OF inv assms(2,3)]) (simp_all add: assms(4))
  have "\<not> (\<exists>j<Mn (lib \<sigma>). r ! j > allocation (lib \<sigma>) ! i ! j)" using assms(6) by (auto simp: not_less)
  then have rel: "rm_release (lib \<sigma>) (self i) r = (Ret 0 ?s, [0..<Nn (lib \<sigma>)])"
    using rm_release_eq [OF own, of r] by simp
  have inv': "sys_inv self \<lparr>lib = ?s, thr = ?th\<rparr>"
    using after_release [OF inv assms(3-5)] assms(6) by simp
  have th: "?th k = Signalled q" using assms(7,8) by (simp add: signal_all_def)
  have "grantable ?s k q"
    using assms(9) reachable_config(1) [OF assms(1)]
    by (simp add: grantable_def is_available_iff transfer_avail [OF rm_invD(1) [OF sys_invD(1) [OF inv]]])
  then have "rm_request_wait ?s (self k) q = Ret 0 (grant_request ?s k q)"
    using waiting_wait(1) [OF inv' assms(2), of k q] th assms(7) by simp
  with rel th show ?thesis by blast
qed

definition waiter_schedule :: "(nat \<times> lib_call) list" where
  "waiter_schedule = [(0, Start), (1, Start), (0, Claim [8]), (1, Claim [8]), (0, Request [5]),
     (1, Request [4])]"

definition waiter_example :: rm_sys where
  "waiter_example = (case rm_exec Suc (app_main 0) waiter_schedule of Some \<sigma> \<Rightarrow> \<sigma>)"

lemma waiter_example_reachable: "rm_reachable Suc 2 1 [8] 0 waiter_example"
proof -
  have "rm_exec Suc (app_main 0) waiter_schedule \<noteq> None" by code_simp
  then have run: "rm_exec Suc (app_main 0) waiter_schedule = Some waiter_example"
    by (auto simp: waiter_example_def)
  have "boot_args 2 1 [8] 0" by (simp add: boot_args_def MAXP_def MAXR_def vec_nonneg_def)
  then have "rm_reachable Suc 2 1 [8] 0 (app_main 0)"
    by (simp add: app_main_boot rm_reachable.boot)
  then show ?thesis by (rule rm_exec_reachable [OF run])
qed

lemma waiter_example_facts:
  "thr waiter_example 0 = Running" "thr waiter_example 1 = Waiting [4]"
  "allocation (lib waiter_example) = [[5], [0]]" "available (lib waiter_example) = [3]"
  by code_simp+

theorem release_serves_waiter_witness:
  "\<exists>s' cvs. rm_release (lib waiter_example) (Suc 0) [5] = (Ret 0 s', cvs) \<and>
    signal_all cvs (thr waiter_example) 1 = Signalled [4] \<and>
    rm_request_wait s' (Suc 1) [4] = Ret 0 (grant_request s' 1 [4])"
  by (rule release_serves_waiter [OF waiter_example_reachable good_handles_Suc])
    (simp_all add: waiter_example_facts [unfolded One_nat_def] vec_nonneg_def reachable_config [OF waiter_example_reachable])



subsection \<open>Outside the protocol\<close>

text \<open>When the only registered thread ends before another one has started, the library frees
  its matrices, and every request or release of the late thread touches freed memory.\<close>

theorem early_end_frees_the_matrices:
  assumes "tcount s = 1" and "rm_thread_ended s = Ret v s1"
    and "rm_thread_started s1 self tid = Ret w s2"
  shows "rm_request s2 self r = Undef \<and> fst (rm_release s2 self r) = Undef"
proof -
  have "\<not> live s1" using assms(1,2) by (auto simp: rm_thread_ended_def Let_def split: if_splits)
  then have "\<not> live s2" using assms(3) by (auto simp: rm_thread_started_def split: if_splits)
  then show ?thesis by (simp add: rm_request_def rm_release_def bad_row_def Let_def)
qed

theorem early_end_frees_the_matrices_witness:
  "\<exists>s s1 s2. rm_thread_started (snd (rm_init rm_globals 2 1 [8] 1)) 1 0 = Ret 0 s \<and>
     rm_thread_ended s = Ret 0 s1 \<and> rm_thread_started s1 2 1 = Ret 0 s2 \<and>
     rm_request s2 2 [3] = Undef"
proof -
  obtain s where s: "rm_thread_started (snd (rm_init rm_globals 2 1 [8] 1)) 1 0 = Ret 0 s"
    and count: "tcount s = 1" "live s"
    by (simp add: rm_thread_started_def rm_init_def rm_globals_def MAXP_def MAXR_def Let_def)
  obtain s1 where s1: "rm_thread_ended s = Ret 0 s1"
    using count by (simp add: rm_thread_ended_def Let_def)
  obtain s2 where s2: "rm_thread_started s1 2 1 = Ret 0 s2"
    by (simp add: rm_thread_started_def MAXP_def)
  show ?thesis
    using early_end_frees_the_matrices [OF count(1) s1 s2, of "[3]"] s s1 s2 by blast
qed

text \<open>A thread that made no claim cannot obtain anything, with or without avoidance: any
  request for a positive amount is refused, because it exceeds a need of zero.\<close>

theorem unclaimed_request_refused:
  assumes "owns_row s self t" and "row_zero (Mn s) (need s) t" and "j < Mn s" and "0 < r ! j"
  shows "rm_request s self r = Ret (-1) s"
proof -
  have "exits_early (Mn s) (\<lambda>i. r ! i > need s ! t ! i)"
    using assms(2-4) by (auto simp: exits_early_iff row_zero_def)
  then show ?thesis
    using owns_rowD [OF assms(1)] by (simp add: rm_request_def Let_def)
qed

definition unclaimed_example :: rm_state where
  "unclaimed_example = (case rm_thread_started (snd (rm_init rm_globals 2 1 [8] 0)) 1 0 of
     Ret v s \<Rightarrow> s | _ \<Rightarrow> rm_globals)"

theorem unclaimed_request_refused_witness:
  "DA unclaimed_example = 0 \<and> available unclaimed_example = [8] \<and>
   rm_request unclaimed_example 1 [5] = Ret (-1) unclaimed_example"
proof -
  have facts: "DA unclaimed_example = 0" "available unclaimed_example = [8]"
    "live unclaimed_example" "get_tid unclaimed_example 1 = 0" "thrN unclaimed_example = 2"
    "resM unclaimed_example = 1" "need unclaimed_example = [[0], [0]]"
    by code_simp+
  have "owns_row unclaimed_example 1 0" "row_zero (Mn unclaimed_example) (need unclaimed_example) 0"
    by (simp_all add: owns_row_def row_zero_def facts facts [unfolded One_nat_def])
  then have "rm_request unclaimed_example 1 [5] = Ret (-1) unclaimed_example"
    by (rule unclaimed_request_refused [where j = 0]) (simp_all add: facts)
  with facts(1,2) show ?thesis by simp
qed

text \<open>\<open>rm_init\<close> returns -1, without any change, exactly when a count exceeds its maximum or
  threads are registered; negative counts and negative numbers of instances are accepted.\<close>

theorem rm_init_result:
  "rm_init s p_count r_count r_exist avoid =
     (if p_count > int MAXP \<or> r_count > int MAXR \<or> tcount s > 0 then (-1, s)
      else (0, snd (rm_init s p_count r_count r_exist avoid))) \<and>
   fst (rm_init rm_globals (-1) 1 [-5] avoid) = 0 \<and>
   available (snd (rm_init rm_globals (-1) 1 [-5] avoid)) = [-5]"
  by (simp add: rm_init_def rm_globals_def MAXP_def MAXR_def Let_def)

text \<open>With an avoidance flag other than 0 and 1 no request ever waits: it is granted whether
  or not the instances are available, so the pool can become negative.\<close>

theorem other_flag_never_waits:
  assumes "DA s \<noteq> 0" and "DA s \<noteq> 1"
  shows "rm_request_wait s self r = Ret 0 (grant_request s (nat (get_tid s self)) r)"
  using assms by (simp add: rm_request_wait_def)

theorem other_flag_never_waits_witness:
  "(let s = snd (rm_init rm_globals 2 1 [8] 2) in
    DA s \<noteq> 0 \<and> DA s \<noteq> 1 \<and> \<not> is_available s [9] \<and>
    rm_request_wait s 1 [9] = Ret 0 (grant_request s (nat (get_tid s 1)) [9]))"
proof -
  let ?s = "snd (rm_init rm_globals 2 1 [8] 2)"
  have facts: "DA ?s \<noteq> 0" "DA ?s \<noteq> 1" "\<not> is_available ?s [9]" by code_simp+
  then show ?thesis using other_flag_never_waits [OF facts(1,2)] by (simp add: Let_def)
qed

subsection \<open>The test application\<close>




end
