(* ===== verification/CString.thy ===== *)
theory CString
  imports Prelude "HOL-Library.Char_ord"
begin

text \<open>
  The parts of the C library that the programs call on strings, on the characters before the
  terminating NUL: \<open>strcmp\<close>, \<open>strtok\<close> over a whole text, \<open>atoi\<close>,
  and the letter case functions of the C locale.
\<close>

definition ordc :: "char \<Rightarrow> int" where
  "ordc c = int (of_char c)"

lemma ordc_inject [simp]: "ordc c = ordc d \<longleftrightarrow> c = d"
  by (simp add: ordc_def)

subsection \<open>Comparing\<close>

fun strcmp :: "string \<Rightarrow> string \<Rightarrow> int" where
  "strcmp [] [] = 0"
| "strcmp [] (d # ds) = - ordc d"
| "strcmp (c # cs) [] = ordc c"
| "strcmp (c # cs) (d # ds) = (if c = d then strcmp cs ds else ordc c - ordc d)"

text \<open>A C string holds no NUL character.\<close>

definition c_string :: "string \<Rightarrow> bool" where
  "c_string s \<longleftrightarrow> CHR 0x00 \<notin> set s"

lemma ordc_pos: "c \<noteq> CHR 0x00 \<Longrightarrow> 0 < ordc c"
proof -
  assume "c \<noteq> CHR 0x00"
  then have "ordc c \<noteq> ordc (CHR 0x00)" by simp
  moreover have "ordc (CHR 0x00) = 0" by (simp add: ordc_def)
  ultimately show ?thesis by (simp add: ordc_def)
qed

lemma c_string_simps [simp]: "c_string []" "c_string (c # cs) \<longleftrightarrow> c \<noteq> CHR 0x00 \<and> c_string cs"
  by (auto simp: c_string_def)

lemma strcmp_0 [simp]: "c_string s \<Longrightarrow> c_string t \<Longrightarrow> strcmp s t = 0 \<longleftrightarrow> s = t"
  by (induction s t rule: strcmp.induct) (auto dest: ordc_pos)

lemma strcmp_refl [simp]: "strcmp s s = 0"
  by (induction s) auto

lemma strcmp_sym: "strcmp t s = - strcmp s t"
  by (induction s t rule: strcmp.induct) auto

lemma strcmp_trans:
  "c_string r \<Longrightarrow> c_string s \<Longrightarrow> c_string t \<Longrightarrow> strcmp r s \<le> 0 \<Longrightarrow> strcmp s t \<le> 0 \<Longrightarrow> strcmp r t \<le> 0"
proof (induction r arbitrary: s t)
  case Nil
  then show ?case using ordc_pos by (cases t) (auto simp: order_less_imp_le)
next
  case (Cons c cs)
  obtain e es where s: "s = e # es" using Cons.prems ordc_pos [of c] by (cases s) auto
  obtain d ds where t: "t = d # ds" using Cons.prems ordc_pos [of e] s by (cases t) auto
  have le: "ordc c \<le> ordc e" "ordc e \<le> ordc d" using Cons.prems s t by (auto split: if_splits)
  show ?case
  proof (cases "ordc c = ordc d")
    case True
    then have "c = e" "e = d" using le by (metis order_antisym ordc_inject)+
    then show ?thesis using Cons.IH [of es ds] Cons.prems s t by simp
  next
    case False
    then show ?thesis using le t by auto
  qed
qed

subsection \<open>Splitting a text\<close>

text \<open>The delimiters \<open>\" \\t\\r\\n\\v\\f\"\<close> of the two programs that read text files.\<close>

definition is_delim :: "char \<Rightarrow> bool" where
  "is_delim c \<longleftrightarrow> c \<in> {CHR 0x20, CHR 0x09, CHR 0x0D, CHR 0x0A, CHR 0x0B, CHR 0x0C}"

lemma delims: "is_delim (CHR '' '')" "is_delim (CHR 0x0A)" "is_delim (CHR 0x09)"
  by (simp_all add: is_delim_def)

lemma tokens_shorter:
  assumes "dropWhile is_delim buf \<noteq> []"
  shows "length (dropWhile (\<lambda>c. \<not> is_delim c) (dropWhile is_delim buf)) < length buf"
proof -
  obtain c cs where s: "dropWhile is_delim buf = c # cs" "\<not> is_delim c"
    using assms hd_dropWhile [OF assms] by (cases "dropWhile is_delim buf") auto
  have "length (dropWhile (\<lambda>c. \<not> is_delim c) (c # cs)) \<le> length cs"
    using s(2) by (simp add: length_dropWhile_le)
  moreover have "length (c # cs) \<le> length buf"
    unfolding s(1) [symmetric] by (rule length_dropWhile_le)
  ultimately show ?thesis by (simp add: s(1))
qed

function tokens :: "string \<Rightarrow> string list" where
  "tokens buf =
     (let s = dropWhile is_delim buf
      in if s = [] then []
         else takeWhile (\<lambda>c. \<not> is_delim c) s # tokens (dropWhile (\<lambda>c. \<not> is_delim c) s))"
  by pat_completeness auto
termination by (relation "measure length") (simp_all add: tokens_shorter del: dropWhile_eq_Nil_conv)

declare tokens.simps [simp del]

text \<open>\<open>strtok\<close> sees the text up to its first NUL.\<close>

definition strtok_all :: "string \<Rightarrow> string list" where
  "strtok_all buf = tokens (takeWhile (\<lambda>c. c \<noteq> CHR 0x00) buf)"

lemma tokens_Nil [simp]: "tokens [] = []"
  by (simp add: tokens.simps)

lemma tokens_delim [simp]: "is_delim c \<Longrightarrow> tokens (c # cs) = tokens cs"
  by (subst (1 2) tokens.simps) simp

definition is_word :: "string \<Rightarrow> bool" where
  "is_word w \<longleftrightarrow> w \<noteq> [] \<and> (\<forall>c\<in>set w. \<not> is_delim c)"

lemma tokens_word:
  assumes "is_word w" and "is_delim c"
  shows "tokens (w @ c # cs) = w # tokens cs"
proof -
  obtain x xs where w: "w = x # xs" "\<not> is_delim x" using assms(1) by (cases w) (auto simp: is_word_def)
  have "dropWhile is_delim (w @ c # cs) = w @ c # cs" using w by simp
  moreover have "takeWhile (\<lambda>c. \<not> is_delim c) (w @ c # cs) = w"
    and "dropWhile (\<lambda>c. \<not> is_delim c) (w @ c # cs) = c # cs"
    using assms by (auto simp: is_word_def takeWhile_append dropWhile_append)
  ultimately show ?thesis using assms w by (subst tokens.simps) (simp add: Let_def)
qed

lemma tokens_append_delim:
  assumes "is_delim c"
  shows "tokens (s @ c # cs) = tokens s @ tokens cs"
proof (induction s rule: tokens.induct)
  case (1 s)
  let ?d = "dropWhile is_delim s"
  show ?case
  proof (cases "?d = []")
    case True
    then have "dropWhile is_delim (s @ c # cs) = dropWhile is_delim (c # cs)"
      by (simp add: dropWhile_append)
    then have "tokens (s @ c # cs) = tokens (c # cs)" by (subst (1 2) tokens.simps) simp
    then show ?thesis using True assms by (simp add: tokens.simps [of s])
  next
    case False
    let ?w = "takeWhile (\<lambda>c. \<not> is_delim c) ?d" and ?r = "dropWhile (\<lambda>c. \<not> is_delim c) ?d"
    have d: "dropWhile is_delim (s @ c # cs) = ?d @ c # cs"
      using False by (auto simp: dropWhile_append)
    have w: "takeWhile (\<lambda>c. \<not> is_delim c) (?d @ c # cs) = ?w"
      using assms by (simp add: takeWhile_append) (metis takeWhile_eq_all_conv)
    have r: "dropWhile (\<lambda>c. \<not> is_delim c) (?d @ c # cs) = ?r @ c # cs"
      using assms by (auto simp: dropWhile_append)
    have "tokens (s @ c # cs) = ?w # tokens (?r @ c # cs)"
      using False by (subst tokens.simps) (simp only: d w r Let_def append_is_Nil_conv simp_thms if_False)
    also have "\<dots> = (?w # tokens ?r) @ tokens cs" using 1 [OF refl False] by simp
    also have "?w # tokens ?r = tokens s"
      using False by (subst (2) tokens.simps) (simp only: Let_def if_False)
    finally show ?thesis .
  qed
qed

lemma tokens_are_words: "\<forall>w\<in>set (tokens buf). is_word w"
proof (induction buf rule: tokens.induct)
  case (1 buf)
  show ?case
  proof (cases "dropWhile is_delim buf = []")
    case False
    have "is_word (takeWhile (\<lambda>c. \<not> is_delim c) (dropWhile is_delim buf))"
      using hd_dropWhile [OF False] False
      by (cases "dropWhile is_delim buf") (auto simp: is_word_def dest: set_takeWhileD)
    then show ?thesis using 1 [OF refl False] False by (subst tokens.simps) (simp add: Let_def)
  qed (simp add: tokens.simps)
qed

subsection \<open>Numbers\<close>

definition is_digit :: "char \<Rightarrow> bool" where
  "is_digit c \<longleftrightarrow> 48 \<le> ordc c \<and> ordc c \<le> 57"

fun digits :: "int \<Rightarrow> string \<Rightarrow> int" where
  "digits acc [] = acc"
| "digits acc (c # cs) = (if is_digit c then digits (10 * acc + (ordc c - 48)) cs else acc)"

definition atoi :: "string \<Rightarrow> int" where
  "atoi s =
     (case dropWhile is_delim s of
        [] \<Rightarrow> 0
      | c # cs \<Rightarrow> if c = CHR ''-'' then - digits 0 cs
                  else if c = CHR ''+'' then digits 0 cs
                  else digits 0 (c # cs))"

text \<open>Decimal printing, as \<open>printf(\"%d\")\<close> does for a number that is not negative.\<close>

definition digit_char :: "nat \<Rightarrow> char" where
  "digit_char d = char_of (48 + d)"

fun print_nat :: "nat \<Rightarrow> string" where
  "print_nat n = (if n < 10 then [digit_char n] else print_nat (n div 10) @ [digit_char (n mod 10)])"

declare print_nat.simps [simp del]

lemma ordc_digit_char: "d < 10 \<Longrightarrow> ordc (digit_char d) = 48 + int d"
  by (simp add: ordc_def digit_char_def)

lemma is_digit_digit_char: "d < 10 \<Longrightarrow> is_digit (digit_char d)"
  by (simp add: is_digit_def ordc_digit_char)

lemma digits_append: "\<forall>c\<in>set s. is_digit c \<Longrightarrow> digits acc (s @ t) = digits (digits acc s) t"
  by (induction s arbitrary: acc) auto

lemma print_nat_digits: "\<forall>c\<in>set (print_nat n). is_digit c"
proof (induction n rule: print_nat.induct)
  case (1 n)
  then show ?case by (subst print_nat.simps) (auto simp: is_digit_digit_char)
qed

lemma print_nat_ne: "print_nat n \<noteq> []"
  by (subst print_nat.simps) auto

lemma digits_print_nat: "digits 0 (print_nat n) = int n"
proof (induction n rule: print_nat.induct)
  case (1 n)
  have "int (10 * (n div 10) + n mod 10) = int n" by (simp only: mult_div_mod_eq)
  then have quot_rem: "10 * int (n div 10) + int (n mod 10) = int n"
    by (simp only: of_nat_add of_nat_mult of_nat_numeral)
  show ?case
  proof (cases "n < 10")
    case True
    then show ?thesis by (subst print_nat.simps) (simp add: is_digit_digit_char ordc_digit_char)
  next
    case False
    then show ?thesis
      using 1 print_nat_digits [of "n div 10"] quot_rem
      by (subst print_nat.simps)
        (simp add: digits_append is_digit_digit_char ordc_digit_char)
  qed
qed

lemma digit_not_delim: "is_digit c \<Longrightarrow> \<not> is_delim c \<and> c \<noteq> CHR ''-'' \<and> c \<noteq> CHR ''+'' \<and> c \<noteq> CHR 0x00"
  by (auto simp: is_digit_def is_delim_def ordc_def)

lemma atoi_print_nat: "atoi (print_nat n) = int n"
proof -
  obtain c cs where s: "print_nat n = c # cs" using print_nat_ne [of n] by (cases "print_nat n") auto
  then have "is_digit c" using print_nat_digits [of n] by simp
  then show ?thesis
    using digits_print_nat [of n] digit_not_delim [of c] s by (simp add: atoi_def)
qed

lemma print_nat_word: "is_word (print_nat n)"
  using print_nat_ne print_nat_digits digit_not_delim by (auto simp: is_word_def)

text \<open>\<open>printf(\"%d\")\<close> for any number.\<close>

definition print_int :: "int \<Rightarrow> string" where
  "print_int i = (if i < 0 then CHR ''-'' # print_nat (nat (- i)) else print_nat (nat i))"

lemma digit_not_delim_minus [simp]: "\<not> is_delim (CHR ''-'')"
  by (simp add: is_delim_def)

lemma atoi_print_int: "atoi (print_int i) = i"
proof (cases "i < 0")
  case True
  have "dropWhile is_delim (CHR ''-'' # print_nat (nat (- i))) = CHR ''-'' # print_nat (nat (- i))"
    by simp
  then show ?thesis using True digits_print_nat [of "nat (- i)"] by (simp add: atoi_def print_int_def)
qed (simp add: print_int_def atoi_print_nat)

lemma print_int_word: "is_word (print_int i)"
  using print_nat_word [of "nat i"] print_nat_word [of "nat (- i)"]
  by (auto simp: print_int_def is_word_def)

lemma print_int_c_string: "CHR 0x00 \<notin> set (print_int i)"
  using print_nat_digits digit_not_delim by (auto simp: print_int_def)

subsection \<open>Letter case\<close>

definition islower :: "char \<Rightarrow> bool" where
  "islower c \<longleftrightarrow> 97 \<le> ordc c \<and> ordc c \<le> 122"

definition toupper :: "char \<Rightarrow> char" where
  "toupper c = (if islower c then char_of (nat (ordc c - 32)) else c)"

end
