(* ===== verification/Printing.thy ===== *)
theory Printing
  imports CString
begin

text \<open>
  Texts that \<open>printf\<close> writes, and reading them back. \<open>prints t ws\<close> says that the text \<open>t\<close> is made
  of the whole words \<open>ws\<close>, whatever is printed after it; its rules follow the structure of
  the printing code. \<open>shown_numbers\<close> are the numbers among the words of a text.
\<close>

text \<open>A \<open>for\<close> loop whose body prints.\<close>

definition print_each :: "nat \<Rightarrow> (nat \<Rightarrow> string) \<Rightarrow> string" where
  "print_each n f = concat (map f [0..<n])"

text \<open>A field of a given width, and a line of such fields with two spaces between them.\<close>

definition pad_left :: "nat \<Rightarrow> string \<Rightarrow> string" where
  "pad_left n s = replicate (n - length s) CHR 0x20 @ s"

fun columns :: "(nat \<times> string) list \<Rightarrow> string" where
  "columns [] = []"
| "columns [(n, s)] = pad_left n s"
| "columns ((n, s) # c # cs) = pad_left n s @ '' '' @ '' '' @ columns (c # cs)"

subsection \<open>Reading the text back\<close>

definition is_number :: "string \<Rightarrow> bool" where
  "is_number w = (case w of [] \<Rightarrow> False | c # cs \<Rightarrow> is_digit c \<or> c = CHR ''-'')"

definition shown_numbers :: "string \<Rightarrow> int list" where
  "shown_numbers t = map atoi (filter is_number (tokens t))"

definition prints :: "string \<Rightarrow> string list \<Rightarrow> bool" where
  "prints t ws \<longleftrightarrow> (\<forall>rest. tokens (t @ rest) = ws @ tokens rest)"

lemma prints_append:
  "prints t ws \<Longrightarrow> prints u vs \<Longrightarrow> prints (t @ u) (ws @ vs)"
  by (simp add: prints_def)

lemma prints_delim: "is_delim c \<Longrightarrow> prints [c] []"
  by (simp add: prints_def)

lemma prints_word: "is_word w \<Longrightarrow> is_delim c \<Longrightarrow> prints (w @ [c]) [w]"
  by (simp add: prints_def tokens_word)

lemma prints_line: "is_delim c \<Longrightarrow> prints (t @ [c]) (tokens t)"
  by (simp add: prints_def tokens_append_delim)

lemma prints_concat:
  assumes "\<And>x. x \<in> set xs \<Longrightarrow> prints (f x) (g x)"
  shows "prints (concat (map f xs)) (concat (map g xs))"
  using assms by (induction xs) (simp_all add: prints_def)

lemma prints_each:
  assumes "\<And>i. i < n \<Longrightarrow> prints (f i) (g i)"
  shows "prints (print_each n f) (concat (map g [0..<n]))"
  unfolding print_each_def by (rule prints_concat) (simp add: assms)

lemma prints_tokens: "prints t ws \<Longrightarrow> tokens t = ws"
  by (simp add: prints_def) (metis append_Nil2 tokens_Nil)

lemma is_number_print_int: "is_number (print_int i)"
proof -
  have "is_number (print_nat n)" for n
    using print_nat_ne [of n] print_nat_digits [of n] by (cases "print_nat n") (auto simp: is_number_def)
  then show ?thesis by (auto simp: print_int_def is_number_def)
qed

lemma prints_number: "prints (print_int i @ '' '') [print_int i]"
  by (rule prints_word [OF print_int_word delims(1)])

lemma prints_numbers:
  "prints (print_each n (\<lambda>i. print_int (f i) @ '' '')) (concat (map (\<lambda>i. [print_int (f i)]) [0..<n]))"
  by (rule prints_each [OF prints_number])

lemma concat_single: "concat (map (\<lambda>i. [f i]) xs) = map f xs"
  by (induction xs) simp_all

lemma atoi_cells: "map atoi (map (\<lambda>i. print_int (f i)) xs) = map f xs"
  by (simp add: comp_def atoi_print_int)

text \<open>Padding adds no word.\<close>

lemma tokens_spaces: "tokens (replicate n CHR 0x20 @ s) = tokens s"
  by (induction n) (simp_all add: delims)

lemma prints_pad: "prints (w @ [c]) ws \<Longrightarrow> prints (pad_left n w @ [c]) ws"
  by (simp add: prints_def pad_left_def tokens_spaces)

lemma prints_columns_line:
  assumes "cs \<noteq> []" and "\<forall>c\<in>set cs. is_word (snd c)" and "is_delim d"
  shows "prints (columns cs @ [d]) (map snd cs)"
  using assms(1,2)
proof (induction cs rule: columns.induct)
  case (2 n s)
  then show ?case using prints_pad [OF prints_word [OF _ assms(3)], of s n] by simp
next
  case (3 n s c cs)
  have "prints ((pad_left n s @ '' '') @ '' '' @ (columns (c # cs) @ [d])) ([s] @ [] @ map snd (c # cs))"
    using 3 by (intro prints_append prints_pad prints_word prints_delim delims) auto
  then show ?case by simp
qed simp

text \<open>Lines that begin with their line end, followed by another line.\<close>

lemma lines_shift: "concat (map (\<lambda>x. c # f x) xs) @ [c] = c # concat (map (\<lambda>x. f x @ [c]) xs)"
  by (induction xs) simp_all

end
