(* ===== verification/RmPrint.thy ===== *)
theory RmPrint
  imports RmProperties Printing
begin

text \<open>
  What the resource manager and its test applications print: \<open>printMat\<close>, \<open>printArr\<close> and
  \<open>rm_print_state\<close> of \<open>rm.c\<close>, and the \<open>main\<close> functions of \<open>app.c\<close> and
  \<open>myapp.c\<close> with their monitoring loops. A printing function returns the text it writes;
  None means that it reads matrices that were freed. \<open>rm_print_state\<close> does not take the
  mutex; the model gives it the state of one moment between two library calls.
\<close>

subsection \<open>Printing\<close>

definition printMat :: "int list list \<Rightarrow> int \<Rightarrow> int \<Rightarrow> string" where
  "printMat mat n m =
     [CHR 0x09] @ print_each (nat m) (\<lambda>i. ''R'' @ print_int (int i) @ '' '') @
     print_each (nat n) (\<lambda>i. [CHR 0x0A] @ ''T'' @ print_int (int i) @ '':'' @ [CHR 0x09] @
       print_each (nat m) (\<lambda>j. print_int (mat ! i ! j) @ '' ''))"

definition printArr :: "int list \<Rightarrow> int \<Rightarrow> string" where
  "printArr arr n =
     [CHR 0x09] @ print_each (nat n) (\<lambda>i. ''R'' @ print_int (int i) @ '' '') @
     [CHR 0x0A] @ [CHR 0x09] @ print_each (nat n) (\<lambda>i. print_int (arr ! i) @ '' '')"

text \<open>The lines of the report that hold fixed text, with the line ends around them.\<close>

definition banner :: "nat \<Rightarrow> string" where
  "banner n = replicate n CHR ''#'' @ [CHR 0x0A]"

definition heading :: "string \<Rightarrow> string" where
  "heading t = [CHR 0x0A, CHR 0x0A] @ t @ [CHR 0x0A]"

definition rm_print_state :: "rm_state \<Rightarrow> string \<Rightarrow> string option" where
  "rm_print_state s hmsg =
     (if tcount s = 0 then Some (''No threads are active'' @ [CHR 0x0A])
      else if \<not> live s \<and> 0 < resM s then None
      else Some
        ([CHR 0x0A] @ banner 26 @ (hmsg @ [CHR 0x0A]) @ banner 27 @
         (''Exist:'' @ [CHR 0x0A]) @ printArr (ExistingRes s) (resM s) @
         heading ''Available:'' @ printArr (available s) (resM s) @
         heading ''Allocation:'' @ printMat (allocation s) (thrN s) (resM s) @
         heading ''Request:'' @ printMat (requests s) (thrN s) (resM s) @
         heading ''MaxDemand:'' @ printMat (maxDemand s) (thrN s) (resM s) @
         heading ''Need:'' @ printMat (need s) (thrN s) (resM s) @
         [CHR 0x0A] @ banner 26))"

subsection \<open>Reading the text back\<close>

definition label :: "string \<Rightarrow> string \<Rightarrow> nat \<Rightarrow> string" where
  "label pre post i = pre @ print_int (int i) @ post"

lemma label_word: "(\<forall>c\<in>set pre \<union> set post. \<not> is_delim c) \<Longrightarrow> is_word (label pre post i)"
  using print_int_word [of "int i"] by (auto simp: label_def is_word_def)

lemma label_R: "is_word (label ''R'' [] i)" and label_T: "is_word (label ''T'' '':'' i)"
  by (auto intro!: label_word simp: is_delim_def)

lemma not_number_label: "\<not> is_number (label (c # pre) post i)" if "\<not> is_digit c" "c \<noteq> CHR ''-''"
  using that by (simp add: label_def is_number_def)

lemma not_number_R: "\<not> is_number (label ''R'' post i)" and not_number_T: "\<not> is_number (label ''T'' post i)"
  by (rule not_number_label; simp add: is_digit_def ordc_def)+

lemma prints_column: "prints (''R'' @ print_int (int i) @ '' '') [label ''R'' [] i]"
  using prints_word [OF label_R delims(1), of i] by (simp add: label_def)

lemma prints_columns:
  "prints (print_each n (\<lambda>i. ''R'' @ print_int (int i) @ '' '')) (concat (map (\<lambda>i. [label ''R'' [] i]) [0..<n]))"
  by (rule prints_each [OF prints_column])

definition arr_words :: "int list \<Rightarrow> nat \<Rightarrow> string list" where
  "arr_words arr n = map (label ''R'' []) [0..<n] @ map (\<lambda>i. print_int (arr ! i)) [0..<n]"

definition mat_words :: "int list list \<Rightarrow> nat \<Rightarrow> nat \<Rightarrow> string list" where
  "mat_words mat n m = map (label ''R'' []) [0..<m] @
     concat (map (\<lambda>i. label ''T'' '':'' i # map (\<lambda>j. print_int (mat ! i ! j)) [0..<m]) [0..<n])"

lemma prints_arr: "prints (printArr arr n) (arr_words arr (nat n))"
proof -
  have "prints (printArr arr n)
     ([] @ map (label ''R'' []) [0..<nat n] @ [] @ [] @ map (\<lambda>i. print_int (arr ! i)) [0..<nat n])"
    unfolding printArr_def
    by (intro prints_append prints_delim delims
        prints_columns [unfolded concat_single] prints_numbers [unfolded concat_single])
  then show ?thesis by (simp add: arr_words_def)
qed

lemma prints_row:
  "prints ([CHR 0x0A] @ ''T'' @ print_int (int i) @ '':'' @ [CHR 0x09] @
       print_each m (\<lambda>j. print_int (mat ! i ! j) @ '' ''))
     (label ''T'' '':'' i # map (\<lambda>j. print_int (mat ! i ! j)) [0..<m])"
proof -
  have "prints ([CHR 0x0A] @ (label ''T'' '':'' i @ [CHR 0x09]) @
       print_each m (\<lambda>j. print_int (mat ! i ! j) @ '' ''))
     ([] @ [label ''T'' '':'' i] @ map (\<lambda>j. print_int (mat ! i ! j)) [0..<m])"
    by (intro prints_append prints_delim prints_word label_T delims prints_numbers [unfolded concat_single])
  then show ?thesis by (simp add: label_def)
qed

lemma prints_mat: "prints (printMat mat n m) (mat_words mat (nat n) (nat m))"
proof -
  have "prints (printMat mat n m)
     ([] @ map (label ''R'' []) [0..<nat m] @
      concat (map (\<lambda>i. label ''T'' '':'' i # map (\<lambda>j. print_int (mat ! i ! j)) [0..<nat m]) [0..<nat n]))"
    unfolding printMat_def
    by (intro prints_append prints_delim delims prints_columns [unfolded concat_single]
        prints_each prints_row)
  then show ?thesis by (simp add: mat_words_def)
qed

lemma prints_banner: "0 < n \<Longrightarrow> prints (banner n) [replicate n CHR ''#'']"
  unfolding banner_def by (rule prints_word) (auto simp: is_word_def is_delim_def)

lemma prints_heading: "is_word t \<Longrightarrow> prints (heading t) [t]"
  unfolding heading_def
  using prints_append [OF prints_append [OF prints_delim prints_delim] prints_word, OF delims(2,2) _ delims(2), of t]
  by simp

definition state_words :: "rm_state \<Rightarrow> string \<Rightarrow> string list" where
  "state_words s hmsg =
     [replicate 26 CHR ''#''] @ tokens hmsg @ [replicate 27 CHR ''#''] @
     [''Exist:''] @ arr_words (ExistingRes s) (Mn s) @ [''Available:''] @ arr_words (available s) (Mn s) @
     [''Allocation:''] @ mat_words (allocation s) (Nn s) (Mn s) @
     [''Request:''] @ mat_words (requests s) (Nn s) (Mn s) @
     [''MaxDemand:''] @ mat_words (maxDemand s) (Nn s) (Mn s) @
     [''Need:''] @ mat_words (need s) (Nn s) (Mn s) @ [replicate 26 CHR ''#'']"

lemma heading_words:
  "is_word ''Exist:''" "is_word ''Available:''" "is_word ''Allocation:''" "is_word ''Request:''"
  "is_word ''MaxDemand:''" "is_word ''Need:''"
  by (simp_all add: is_word_def is_delim_def)

lemma print_state_words:
  assumes "rm_print_state s hmsg = Some text" and "tcount s \<noteq> 0"
  shows "tokens text = state_words s hmsg"
proof (rule prints_tokens)
  have banners: "prints (banner 26) [replicate 26 CHR ''#'']" "prints (banner 27) [replicate 27 CHR ''#'']"
    by (rule prints_banner; simp)+
  have "prints text ([] @ [replicate 26 CHR ''#''] @ tokens hmsg @ [replicate 27 CHR ''#''] @
     [''Exist:''] @ arr_words (ExistingRes s) (Mn s) @ [''Available:''] @ arr_words (available s) (Mn s) @
     [''Allocation:''] @ mat_words (allocation s) (Nn s) (Mn s) @
     [''Request:''] @ mat_words (requests s) (Nn s) (Mn s) @
     [''MaxDemand:''] @ mat_words (maxDemand s) (Nn s) (Mn s) @
     [''Need:''] @ mat_words (need s) (Nn s) (Mn s) @ [] @ [replicate 26 CHR ''#''])"
    using assms
    by (auto simp only: rm_print_state_def if_False option.inject split: if_splits
        intro!: prints_append banners prints_delim delims prints_line prints_arr prints_mat
        prints_heading prints_word heading_words)
  then show "prints text (state_words s hmsg)" by (simp add: state_words_def)
qed

lemma numbers_of_arr: "filter is_number (arr_words arr n) = map (\<lambda>i. print_int (arr ! i)) [0..<n]"
  by (simp add: arr_words_def filter_map comp_def not_number_R is_number_print_int)

lemma numbers_of_rows:
  "filter is_number (concat (map (\<lambda>i. label ''T'' '':'' i # map (\<lambda>j. print_int (f i j)) [0..<m]) xs))
   = concat (map (\<lambda>i. map (\<lambda>j. print_int (f i j)) [0..<m]) xs)"
  by (induction xs) (simp_all add: not_number_T is_number_print_int filter_map comp_def)

lemma numbers_of_mat:
  "filter is_number (mat_words mat n m)
   = concat (map (\<lambda>i. map (\<lambda>j. print_int (mat ! i ! j)) [0..<m]) [0..<n])"
  by (simp add: mat_words_def numbers_of_rows filter_map comp_def not_number_R)

lemma atoi_rows:
  "map atoi (concat (map (\<lambda>i. map (\<lambda>j. print_int (f i j)) ys) xs)) = concat (map (\<lambda>i. map (f i) ys) xs)"
  by (simp add: map_concat comp_def atoi_print_int)

lemma cells_of_mat:
  "mat_dims n m mat \<Longrightarrow> concat (map (\<lambda>i. map (\<lambda>j. mat ! i ! j) [0..<m]) [0..<n]) = concat mat"
proof -
  assume dims: "mat_dims n m mat"
  have "map (\<lambda>i. map (\<lambda>j. mat ! i ! j) [0..<m]) [0..<n] = map (\<lambda>i. mat ! i) [0..<n]"
    using dims by (intro map_cong refl) (auto simp: mat_dims_def map_nth intro: nth_equalityI)
  also have "\<dots> = mat" using dims map_nth [of mat] by (simp add: mat_dims_def)
  finally show ?thesis by (rule arg_cong)
qed

lemma not_number_words:
  "\<not> is_number (replicate 26 CHR ''#'')" "\<not> is_number (replicate 27 CHR ''#'')"
  "\<not> is_number ''Exist:''" "\<not> is_number ''Available:''" "\<not> is_number ''Allocation:''"
  "\<not> is_number ''Request:''" "\<not> is_number ''MaxDemand:''" "\<not> is_number ''Need:''"
  by (simp_all add: is_number_def is_digit_def ordc_def numeral_eq_Suc)

lemma print_state_numbers:
  assumes "rm_print_state s hmsg = Some text" and "tcount s \<noteq> 0" and "rm_dims s"
  shows "shown_numbers text = shown_numbers hmsg @ map (\<lambda>j. ExistingRes s ! j) [0..<Mn s] @
    available s @ concat (allocation s) @ concat (requests s) @ concat (maxDemand s) @ concat (need s)"
proof -
  note dims = rm_dimsD [OF assms(3)]
  have avail: "map ((!) (available s)) [0..<Mn s] = available s"
    using map_nth [of "available s"] dims(5) by simp
  show ?thesis
    unfolding shown_numbers_def print_state_words [OF assms(1,2)] state_words_def
    by (simp add: not_number_words numbers_of_arr numbers_of_mat atoi_rows atoi_cells avail
        cells_of_mat [OF dims(1)] cells_of_mat [OF dims(2)] cells_of_mat [OF dims(3)]
        cells_of_mat [OF dims(4)] del: map_map)
qed

lemma rm_print_idle:
  "tcount s = 0 \<Longrightarrow> rm_print_state s hmsg = Some (''No threads are active'' @ [CHR 0x0A])"
  by (simp add: rm_print_state_def)

lemma rm_print_defined:
  assumes "rm_reachable self p m e a \<sigma>" and "good_handles self"
  shows "rm_print_state (lib \<sigma>) hmsg \<noteq> None"
  using reachable_live [OF assms] by (auto simp: rm_print_state_def)

text \<open>C13: in every reachable state \<open>rm_print_state\<close> is defined, and while threads are
  registered the numbers of the printed text are the library's books, in the order of the
  headings: reading the text back gives every vector and every row of the four matrices.\<close>

theorem rm_print_roundtrip:
  assumes "rm_reachable self p_count r_count r_exist avoid \<sigma>" and "good_handles self"
  shows "\<exists>text. rm_print_state (lib \<sigma>) hmsg = Some text \<and>
    (if tcount (lib \<sigma>) = 0 then text = ''No threads are active'' @ [CHR 0x0A]
     else shown_numbers text = shown_numbers hmsg @ map (\<lambda>j. r_exist ! j) [0..<nat r_count] @
       available (lib \<sigma>) @ concat (allocation (lib \<sigma>)) @ concat (requests (lib \<sigma>)) @
       concat (maxDemand (lib \<sigma>)) @ concat (need (lib \<sigma>)))"
proof -
  have inv: "sys_inv self \<sigma>" by (rule reachable_inv [OF assms])
  note conf = reachable_config [OF assms(1)]
  obtain out where out: "rm_print_state (lib \<sigma>) hmsg = Some out"
    "tcount (lib \<sigma>) = 0 \<longrightarrow> out = ''No threads are active'' @ [CHR 0x0A]"
    using rm_print_defined [OF assms, of hmsg] rm_print_idle [of "lib \<sigma>" hmsg]
    by (cases "tcount (lib \<sigma>) = 0") auto
  have exist: "map (\<lambda>j. ExistingRes (lib \<sigma>) ! j) [0..<Mn (lib \<sigma>)] = map (\<lambda>j. r_exist ! j) [0..<nat r_count]"
    by (rule map_cong) (simp_all add: conf(3,4))
  show ?thesis
    using out print_state_numbers [OF out(1) _ rm_invD(1) [OF sys_invD(1) [OF inv]]]
    unfolding exist by (intro exI [of _ out]) simp
qed

theorem rm_print_roundtrip_witness:
  "rm_reachable Suc 2 1 [8] 1 avoid_example \<and>
   (\<exists>text. rm_print_state (lib avoid_example) ''The current state'' = Some text \<and>
      shown_numbers text = [8, 3, 5, 0, 0, 2, 8, 8, 3, 8])"
proof -
  have facts: "tcount (lib avoid_example) = 2" "maxDemand (lib avoid_example) = [[8], [8]]"
    "shown_numbers ''The current state'' = []"
    by code_simp+
  show ?thesis
    using rm_print_roundtrip [OF avoid_example_reachable good_handles_Suc, of "''The current state''"]
      avoid_example_reachable facts avoid_example_facts by auto
qed

subsection \<open>The test applications\<close>

text \<open>
  \<open>pr\<close> and \<open>setarray\<close>, which the two files repeat; \<open>setarray\<close> takes its variable arguments
  as a list, and the threads call it before every request, so that the first \<open>m\<close> entries of
  the array are the ones listed in the scripts of theory \<open>RmClients\<close>.
\<close>

definition pr :: "int \<Rightarrow> string \<Rightarrow> nat \<Rightarrow> int list \<Rightarrow> string" where
  "pr tid astr m r =
     ''thread '' @ print_int tid @ '', '' @ astr @ '', ['' @
     print_each m (\<lambda>i. if i = m - 1 then print_int (r ! i) else print_int (r ! i) @ '','') @
     '']'' @ [CHR 0x0A]"

definition setarray :: "int list \<Rightarrow> nat \<Rightarrow> int list \<Rightarrow> int list" where
  "setarray r m valist = for_upd m (\<lambda>i _. valist ! i) r"

lemma take_setarray:
  assumes "m \<le> length r" and "m = length valist"
  shows "take m (setarray r m valist) = valist"
  by (rule nth_equalityI) (use assms in \<open>auto simp: setarray_def nth_for_upd\<close>)

text \<open>
  One turn of the monitoring loop. Between its three calls the threads go on, so each call sees
  a state of its own; the third is made only when the second reports a deadlock.
\<close>

definition monitor_turn :: "rm_state \<Rightarrow> rm_state \<Rightarrow> rm_state \<Rightarrow> (string \<times> int) option" where
  "monitor_turn s1 s2 s3 =
     (case (rm_print_state s1 ''The current state'', rm_detection s2) of
        (Some t1, Ret ret _) \<Rightarrow>
          if ret > 0 then
            (case rm_print_state s3 ''state after deadlock'' of
               Some t3 \<Rightarrow> Some (t1 @ ''deadlock detected, count='' @ print_int ret @ [CHR 0x0A] @ t3, ret)
             | None \<Rightarrow> None)
          else Some (t1, ret)
      | _ \<Rightarrow> None)"

text \<open>
  The loop over the turns: the printed text and the last value of \<open>ret\<close>. \<open>seen c\<close> are
  the three states of turn \<open>c\<close>.
\<close>

fun monitor :: "(nat \<Rightarrow> rm_state \<times> rm_state \<times> rm_state) \<Rightarrow> int \<Rightarrow> nat list \<Rightarrow> (string \<times> int) option" where
  "monitor seen ret [] = Some ([], ret)"
| "monitor seen ret (c # cs) =
     (case seen c of (s1, s2, s3) \<Rightarrow>
       (case monitor_turn s1 s2 s3 of
          Some (t, ret') \<Rightarrow>
            (case monitor seen ret' cs of Some (u, r) \<Rightarrow> Some (t @ u, r) | None \<Rightarrow> None)
        | None \<Rightarrow> None))"

text \<open>
  The two \<open>main\<close> functions. \<open>argv\<close> includes the program's name. \<open>app.c\<close> looks at the
  last \<open>ret\<close>: only when it is 0 does it wait for its threads; \<open>myapp.c\<close> always does. The
  result says whether the threads are joined.
\<close>

datatype app_run = Usage string | Threads rm_sys

definition app_args :: "(int \<Rightarrow> rm_sys) \<Rightarrow> string list \<Rightarrow> app_run" where
  "app_args prog argv =
     (if length argv \<noteq> 2 then Usage (''usage: ./app avoidflag'' @ [CHR 0x0A])
      else Threads (prog (atoi (argv ! 1))))"

definition app_monitor :: "(nat \<Rightarrow> rm_state \<times> rm_state \<times> rm_state) \<Rightarrow> (string \<times> bool) option" where
  "app_monitor seen =
     (case monitor seen 0 [0..<10] of
        Some (t, ret) \<Rightarrow>
          if ret = 0 then Some (t @ print_each 2 (\<lambda>i. ''joined'' @ [CHR 0x0A]), True)
          else Some (t, False)
      | None \<Rightarrow> None)"

definition myapp_monitor :: "(nat \<Rightarrow> rm_state \<times> rm_state \<times> rm_state) \<Rightarrow> (string \<times> bool) option" where
  "myapp_monitor seen =
     (case monitor seen 0 [0..<20] of
        Some (t, ret) \<Rightarrow>
          Some (t @ print_each 3 (\<lambda>i. ''thread '' @ print_int (int i) @ '' joined'' @ [CHR 0x0A]), True)
      | None \<Rightarrow> None)"

text \<open>What the loop prints when no turn finds a deadlock.\<close>

lemma monitor_turn_quiet:
  assumes "rm_print_state s1 ''The current state'' = Some t" and "rm_detection s2 = Ret 0 s2"
  shows "monitor_turn s1 s2 s3 = Some (t, 0)"
  using assms by (simp add: monitor_turn_def)

definition state_texts :: "(nat \<Rightarrow> rm_state \<times> rm_state \<times> rm_state) \<Rightarrow> nat list \<Rightarrow> string" where
  "state_texts seen cs = concat (map (\<lambda>c. the (rm_print_state (fst (seen c)) ''The current state'')) cs)"

lemma monitor_quiet:
  assumes "\<And>c. c \<in> set cs \<Longrightarrow> rm_print_state (fst (seen c)) ''The current state'' \<noteq> None \<and>
             rm_detection (fst (snd (seen c))) = Ret 0 (fst (snd (seen c)))"
  shows "monitor seen 0 cs = Some (state_texts seen cs, 0)"
  using assms
proof (induction cs)
  case (Cons c cs)
  obtain s1 s2 s3 where turn: "seen c = (s1, s2, s3)" by (cases "seen c")
  obtain t where t: "rm_print_state s1 ''The current state'' = Some t" "rm_detection s2 = Ret 0 s2"
    using Cons.prems [of c] turn by auto
  have "monitor seen 0 cs = Some (state_texts seen cs, 0)" using Cons by simp
  then show ?case using turn t by (simp add: monitor_turn_quiet [OF t] state_texts_def)
qed (simp add: state_texts_def)

text \<open>Started with avoidance, neither application reports a deadlock, whatever states the
  turns of its monitoring loop see: the loop prints the state once per turn, and \<open>main\<close> goes
  on to join the threads.\<close>

theorem monitor_never_alarms:
  assumes "good_handles self"
    and "\<And>c. rm_reachable self p m e 1 (see1 c)" and "\<And>c. rm_reachable self p m e 1 (see2 c)"
  shows "app_monitor (\<lambda>c. (lib (see1 c), lib (see2 c), see3 c)) =
      Some (concat (map (\<lambda>c. the (rm_print_state (lib (see1 c)) ''The current state'')) [0..<10]) @
        ''joined'' @ [CHR 0x0A] @ ''joined'' @ [CHR 0x0A], True) \<and>
    (\<exists>t. myapp_monitor (\<lambda>c. (lib (see1 c), lib (see2 c), see3 c)) = Some (t, True))"
proof -
  let ?seen = "\<lambda>c. (lib (see1 c), lib (see2 c), see3 c)"
  have "monitor ?seen 0 cs = Some (state_texts ?seen cs, 0)" for cs
    using rm_print_defined [OF assms(2,1)] avoidance_detection_zero_aux [OF assms(3,1)]
    by (intro monitor_quiet) simp
  moreover have "state_texts ?seen cs =
      concat (map (\<lambda>c. the (rm_print_state (lib (see1 c)) ''The current state'')) cs)" for cs
    by (simp add: state_texts_def)
  ultimately show ?thesis
    by (simp add: app_monitor_def myapp_monitor_def print_each_def upt_rec [of 0 2] upt_rec [of "Suc 0" 2])
qed

theorem monitor_never_alarms_witness:
  "\<exists>t. app_monitor (\<lambda>c. (lib avoid_example, lib avoid_example, lib avoid_example)) = Some (t, True)"
  using monitor_never_alarms [OF good_handles_Suc avoid_example_reachable avoid_example_reachable,
      of "\<lambda>c. lib avoid_example"] by blast

subsection \<open>Shapes\<close>

text \<open>C11: in every reachable state the data has the types the C code relies on: the four
  matrices are N by M and the vectors of their declared lengths, N and M are within the
  array bounds, each registered thread finds its own row, and no thread is counted twice.\<close>

theorem rm_shapes:
  assumes "rm_reachable self p_count r_count r_exist avoid \<sigma>" and "good_handles self"
  shows "mat_dims (nat p_count) (nat r_count) (maxDemand (lib \<sigma>)) \<and>
    mat_dims (nat p_count) (nat r_count) (allocation (lib \<sigma>)) \<and>
    mat_dims (nat p_count) (nat r_count) (need (lib \<sigma>)) \<and>
    mat_dims (nat p_count) (nat r_count) (requests (lib \<sigma>)) \<and>
    length (available (lib \<sigma>)) = nat r_count \<and> length (ExistingRes (lib \<sigma>)) = MAXR \<and>
    length (tids (lib \<sigma>)) = MAXP \<and> nat p_count \<le> MAXP \<and> nat r_count \<le> MAXR \<and>
    (\<forall>i<nat p_count. if thr \<sigma> i = Idle then get_tid (lib \<sigma>) (self i) = -1
       else get_tid (lib \<sigma>) (self i) = int i) \<and>
    0 \<le> tcount (lib \<sigma>) \<and> tcount (lib \<sigma>) \<le> int (nat p_count)"
proof -
  have inv: "sys_inv self \<sigma>" by (rule reachable_inv [OF assms])
  have dims: "rm_dims (lib \<sigma>)" by (rule rm_invD(1) [OF sys_invD(1) [OF inv]])
  note conf = reachable_config(2,3) [OF assms(1)]
  have le: "nat p_count \<le> MAXP" using dims conf by (simp add: rm_dims_def)
  have row: "get_tid (lib \<sigma>) (self i) = int i" if "i < nat p_count" "thr \<sigma> i \<noteq> Idle" for i
  proof -
    have "find (\<lambda>k. tids (lib \<sigma>) ! k = self i) [0..<MAXP] = Some i"
      using sys_invD(4) [OF inv] assms(2) that le
      by (intro find_upt_least) (auto simp: tids_inv_def good_handles_def conf dest: injD)
    then show ?thesis by (simp add: get_tid_def)
  qed
  have no_row: "get_tid (lib \<sigma>) (self i) = -1" if "i < nat p_count" "thr \<sigma> i = Idle" for i
  proof -
    have "find (\<lambda>k. tids (lib \<sigma>) ! k = self i) [0..<MAXP] = None"
      using sys_invD(4) [OF inv] assms(2) that
      by (auto simp: find_upt_None tids_inv_def good_handles_def conf dest: injD)
    then show ?thesis by (simp add: get_tid_def)
  qed
  have "card (active (nat p_count) (thr \<sigma>)) \<le> card {..<nat p_count}"
    by (rule card_mono) (auto simp: active_def)
  then have count: "0 \<le> tcount (lib \<sigma>)" "tcount (lib \<sigma>) \<le> int (nat p_count)"
    using sys_invD(5) [OF inv] by (simp_all add: conf del: int_nat_eq)
  show ?thesis using dims le row no_row count by (simp add: rm_dims_def conf del: int_nat_eq)
qed

theorem rm_shapes_witness:
  "rm_reachable Suc 2 1 [8] 1 avoid_example \<and> mat_dims 2 1 (requests (lib avoid_example)) \<and>
   get_tid (lib avoid_example) (Suc 1) = 1"
proof -
  have w: "thr avoid_example (Suc 0) \<noteq> Idle" using avoid_example_facts(2) by simp
  have "mat_dims (nat 2) (nat 1) (requests (lib avoid_example))"
    "if thr avoid_example 1 = Idle then get_tid (lib avoid_example) (Suc 1) = -1
       else get_tid (lib avoid_example) (Suc 1) = int 1"
    using rm_shapes [OF avoid_example_reachable good_handles_Suc] by auto
  then show ?thesis using w avoid_example_reachable by simp
qed

end
