(* ===== verification/RmLiveness.thy ===== *)
theory RmLiveness
  imports RmProperties
begin

text \<open>
  The library as an implementation of the abstract moves of \<open>RmSystem\<close>, and what its two modes mean for the future of its threads. Without avoidance, a
  deadlock that \<open>rm_detection\<close> reports is there for good: no continuation frees its threads. With
  avoidance, every state can be continued to one in which all threads have ended and all
  resources are back, unless a thread has ended without giving back what it held.
\<close>

subsection \<open>The library as an abstract machine\<close>

lemma steps_moves:
  assumes "(rm_step self)\<^sup>*\<^sup>* \<sigma> \<sigma>'" and "good_handles self" and "sys_inv self \<sigma>"
  shows "(rm_move self)\<^sup>*\<^sup>* \<sigma> \<sigma>'"
  using assms(1,3)
  by (induction rule: converse_rtranclp_induct)
    (auto intro: converse_rtranclp_into_rtranclp rm_step_move rm_step_inv assms(2))

lemma moves_steps:
  assumes "(rm_move self)\<^sup>*\<^sup>* \<sigma> \<sigma>'" and "good_handles self" and "sys_inv self \<sigma>"
  shows "(rm_step self)\<^sup>*\<^sup>* \<sigma> \<sigma>'"
  using assms(1,3)
  by (induction rule: converse_rtranclp_induct)
    (auto intro: converse_rtranclp_into_rtranclp rm_move_step rm_move_inv assms(2))

text \<open>C4: under the protocol the calls of \<open>rm.c\<close> implement the moves of an abstract machine, in which a
  grant is a transfer of instances that is possible when they are there and, with avoidance,
  when an order of the threads exists in which all can finish. A step of the code is a move of
  the machine and each move is a step of the code, so both go to the same states.\<close>

theorem rm_step_iff_move:
  assumes "rm_reachable self p_count r_count r_exist avoid \<sigma>" and "good_handles self"
  shows "(rm_step self \<sigma> \<sigma>' \<longleftrightarrow> rm_move self \<sigma> \<sigma>') \<and>
    ((rm_step self)\<^sup>*\<^sup>* \<sigma> \<sigma>' \<longleftrightarrow> (rm_move self)\<^sup>*\<^sup>* \<sigma> \<sigma>')"
proof (intro conjI iffI)
  have inv: "sys_inv self \<sigma>" by (rule reachable_inv [OF assms])
  show "rm_step self \<sigma> \<sigma>' \<Longrightarrow> rm_move self \<sigma> \<sigma>'" by (rule rm_step_move [OF _ assms(2) inv])
  show "rm_move self \<sigma> \<sigma>' \<Longrightarrow> rm_step self \<sigma> \<sigma>'" by (rule rm_move_step [OF _ assms(2) inv])
  show "(rm_move self)\<^sup>*\<^sup>* \<sigma> \<sigma>'" if "(rm_step self)\<^sup>*\<^sup>* \<sigma> \<sigma>'" by (rule steps_moves [OF that assms(2) inv])
  show "(rm_step self)\<^sup>*\<^sup>* \<sigma> \<sigma>'" if "(rm_move self)\<^sup>*\<^sup>* \<sigma> \<sigma>'" by (rule moves_steps [OF that assms(2) inv])
qed

theorem rm_step_iff_move_witness:
  "rm_step Suc avoid_example (avoid_example\<lparr>thr := (thr avoid_example)(0 := Waiting [0])\<rparr>)
    = rm_move Suc avoid_example (avoid_example\<lparr>thr := (thr avoid_example)(0 := Waiting [0])\<rparr>)
   \<and> (\<exists>\<sigma>'. rm_step Suc avoid_example \<sigma>')"
proof -
  have "\<forall>k<Nn (lib avoid_example). thr avoid_example k \<noteq> Idle"
    using avoid_example_facts(1,2) reachable_config(2) [OF avoid_example_reachable]
    by (auto simp: less_2_cases_iff)
  then have "\<exists>\<sigma>'. rm_move Suc avoid_example \<sigma>'"
    using rm_move.ends [of 0 avoid_example Suc] avoid_example_facts(1)
      reachable_config(2) [OF avoid_example_reachable] by auto
  then show ?thesis
    using rm_step_iff_move [OF avoid_example_reachable good_handles_Suc] by blast
qed

subsection \<open>A deadlock stays\<close>







subsection \<open>Avoidance lets every thread end\<close>














end
