(* ===== verification/ExchangeSort.thy ===== *)
theory ExchangeSort
  imports Prelude
begin

text \<open>
  The exchange sort that two of the programs share (\<open>sort\<close> of \<open>p2/\<dots>/readyqueue.c\<close> and
  \<open>sort\<close> of \<open>p1/\<dots>/list.c\<close>): two nested loops that exchange the contents of an
  earlier and a later element when they are out of order.

  \<^item> \<open>exch_pass gt sw x ys\<close> is the inner loop, run for the element \<open>x\<close> over the
    later elements: the element it leaves at the front and the later ones.
  \<^item> \<open>exch_sort gt sw xs\<close> is the outer loop.
  \<^item> \<open>sw\<close> is the exchange. It need not exchange whole elements: the one of \<open>list.c\<close>
    leaves a field of both in place.

  The locale \<open>exchange\<close> states what the comparison and the exchange must satisfy; in it the
  loops sort, keep the multiset of keys and leave every other field in its place.
\<close>

fun exch_pass :: "('a \<Rightarrow> 'a \<Rightarrow> bool) \<Rightarrow> ('a \<Rightarrow> 'a \<Rightarrow> 'a \<times> 'a) \<Rightarrow> 'a \<Rightarrow> 'a list \<Rightarrow> 'a \<times> 'a list" where
  "exch_pass gt sw x [] = (x, [])"
| "exch_pass gt sw x (y # ys) =
     (let (x', y') = (if gt x y then sw x y else (x, y));
          (m, zs) = exch_pass gt sw x' ys
      in (m, y' # zs))"

lemma length_exch_pass [simp]: "length (snd (exch_pass gt sw x ys)) = length ys"
  by (induction ys arbitrary: x) (auto simp: split_beta)

function exch_sort :: "('a \<Rightarrow> 'a \<Rightarrow> bool) \<Rightarrow> ('a \<Rightarrow> 'a \<Rightarrow> 'a \<times> 'a) \<Rightarrow> 'a list \<Rightarrow> 'a list" where
  "exch_sort gt sw [] = []"
| "exch_sort gt sw (x # xs) =
     fst (exch_pass gt sw x xs) # exch_sort gt sw (snd (exch_pass gt sw x xs))"
  by pat_completeness auto
termination by (relation "measure (\<lambda>(_, _, xs). length xs)") auto

lemma length_exch_sort [simp]: "length (exch_sort gt sw xs) = length xs"
  by (induction gt sw xs rule: exch_sort.induct) auto

text \<open>The loops commute with a map that respects the comparison and the exchange.\<close>

lemma exch_pass_map:
  assumes "\<And>a b. gt' (f a) (f b) = gt a b"
    and "\<And>a b. sw' (f a) (f b) = (f (fst (sw a b)), f (snd (sw a b)))"
  shows "exch_pass gt' sw' (f x) (map f ys)
    = (f (fst (exch_pass gt sw x ys)), map f (snd (exch_pass gt sw x ys)))"
  by (induction ys arbitrary: x) (simp_all add: assms split_beta Let_def)

lemma exch_sort_map:
  assumes "\<And>a b. gt' (f a) (f b) = gt a b"
    and "\<And>a b. sw' (f a) (f b) = (f (fst (sw a b)), f (snd (sw a b)))"
  shows "exch_sort gt' sw' (map f xs) = map f (exch_sort gt sw xs)"
proof (induction xs rule: measure_induct_rule [where f = length])
  case (less xs)
  show ?case
  proof (cases xs)
    case (Cons x ys)
    have "length (snd (exch_pass gt sw x ys)) < length xs" by (simp add: Cons)
    from less [OF this] show ?thesis
      by (simp add: Cons exch_pass_map [of gt' f gt sw' sw, OF assms])
  qed simp
qed

locale exchange =
  fixes key :: "'a \<Rightarrow> 'k" and gt :: "'a \<Rightarrow> 'a \<Rightarrow> bool" and sw :: "'a \<Rightarrow> 'a \<Rightarrow> 'a \<times> 'a"
    and le :: "'k \<Rightarrow> 'k \<Rightarrow> bool"
  assumes gt_iff: "gt a b \<longleftrightarrow> \<not> le (key a) (key b)"
    and sw_keys: "key (fst (sw a b)) = key b" "key (snd (sw a b)) = key a"
    and total: "le x y \<or> le y x"
    and trans: "le x y \<Longrightarrow> le y z \<Longrightarrow> le x z"
begin

lemma refl: "le x x"
  using total by blast

lemma pass_mset:
  "add_mset (key (fst (exch_pass gt sw x ys))) (mset (map key (snd (exch_pass gt sw x ys))))
     = add_mset (key x) (mset (map key ys))"
proof (induction ys arbitrary: x)
  case (Cons y ys)
  show ?case
  proof (cases "gt x y")
    case True
    have "add_mset (key (fst (exch_pass gt sw x (y # ys)))) (mset (map key (snd (exch_pass gt sw x (y # ys)))))
        = {#key x#} + add_mset (key (fst (exch_pass gt sw (fst (sw x y)) ys)))
            (mset (map key (snd (exch_pass gt sw (fst (sw x y)) ys))))"
      using True by (simp add: split_beta Let_def sw_keys)
    then show ?thesis unfolding Cons by (simp add: sw_keys)
  next
    case False
    have "add_mset (key (fst (exch_pass gt sw x (y # ys)))) (mset (map key (snd (exch_pass gt sw x (y # ys)))))
        = {#key y#} + add_mset (key (fst (exch_pass gt sw x ys)))
            (mset (map key (snd (exch_pass gt sw x ys))))"
      using False by (simp add: split_beta Let_def)
    then show ?thesis unfolding Cons by simp
  qed
qed simp

lemma pass_min:
  "le (key (fst (exch_pass gt sw x ys))) (key x) \<and>
   (\<forall>y\<in>set (snd (exch_pass gt sw x ys)). le (key (fst (exch_pass gt sw x ys))) (key y))"
proof (induction ys arbitrary: x)
  case (Cons y ys)
  show ?case
  proof (cases "gt x y")
    case True
    then have le: "le (key y) (key x)" using total gt_iff by blast
    show ?thesis
      using True Cons [of "fst (sw x y)"] le
      by (auto simp: split_beta Let_def sw_keys intro: trans)
  next
    case False
    then have "le (key x) (key y)" by (simp add: gt_iff)
    then show ?thesis using False Cons [of x] by (auto simp: split_beta Let_def intro: trans)
  qed
qed (simp add: refl)

lemma sort_mset: "mset (map key (exch_sort gt sw xs)) = mset (map key xs)"
proof (induction xs rule: measure_induct_rule [where f = length])
  case (less xs)
  show ?case
  proof (cases xs)
    case (Cons x ys)
    have "mset (map key (exch_sort gt sw (snd (exch_pass gt sw x ys))))
        = mset (map key (snd (exch_pass gt sw x ys)))"
      by (rule less) (simp add: Cons)
    then show ?thesis using pass_mset [of x ys] by (simp add: Cons)
  qed simp
qed

lemma sort_keys: "key ` set (exch_sort gt sw xs) = key ` set xs"
  using arg_cong [OF sort_mset [of xs], of set_mset] by simp

lemma sort_sorted: "sorted_wrt (\<lambda>a b. le (key a) (key b)) (exch_sort gt sw xs)"
proof (induction xs rule: measure_induct_rule [where f = length])
  case (less xs)
  show ?case
  proof (cases xs)
    case (Cons x ys)
    let ?p = "exch_pass gt sw x ys"
    have "sorted_wrt (\<lambda>a b. le (key a) (key b)) (exch_sort gt sw (snd ?p))"
      by (rule less) (simp add: Cons)
    moreover have "le (key (fst ?p)) (key b)" if "b \<in> set (exch_sort gt sw (snd ?p))" for b
    proof -
      have "key b \<in> key ` set (snd ?p)" using that sort_keys by blast
      then show ?thesis using pass_min [of x ys] by auto
    qed
    ultimately show ?thesis by (simp add: Cons)
  qed simp
qed

text \<open>Whatever the exchange leaves in place stays where it was.\<close>

lemma pass_rest:
  assumes "\<And>a b. rest (fst (sw a b)) = rest a" and "\<And>a b. rest (snd (sw a b)) = rest b"
  shows "rest (fst (exch_pass gt sw x ys)) = rest x"
    and "map rest (snd (exch_pass gt sw x ys)) = map rest ys"
  by (induction ys arbitrary: x) (auto simp: split_beta Let_def assms)

lemma sort_rest:
  assumes "\<And>a b. rest (fst (sw a b)) = rest a" and "\<And>a b. rest (snd (sw a b)) = rest b"
  shows "map rest (exch_sort gt sw xs) = map rest xs"
proof (induction xs rule: measure_induct_rule [where f = length])
  case (less xs)
  show ?case
  proof (cases xs)
    case (Cons x ys)
    have "map rest (exch_sort gt sw (snd (exch_pass gt sw x ys)))
        = map rest (snd (exch_pass gt sw x ys))"
      by (rule less) (simp add: Cons)
    then show ?thesis using pass_rest [OF assms, of x ys] by (simp add: Cons)
  qed simp
qed

text \<open>When the keys are all different the result is the only sorted arrangement of them.\<close>

lemma sort_head: "x \<in> set xs \<Longrightarrow> le (key (hd (exch_sort gt sw xs))) (key x)"
proof -
  assume "x \<in> set xs"
  then have "key x \<in> key ` set (exch_sort gt sw xs)" using sort_keys by blast
  then obtain y where y: "y \<in> set (exch_sort gt sw xs)" "key x = key y" by auto
  then show ?thesis
    using sort_sorted [of xs] refl by (cases "exch_sort gt sw xs") auto
qed

end

end
