(* ===== verification/ReadyQueue.thy ===== *)
theory ReadyQueue
  imports ExchangeSort "HOL-Library.Monad_Syntax"
begin

text \<open>
  The ready queue of the scheduler, \<open>p2/22002379-22003430/readyqueue.c\<close>: a doubly linked list
  on the heap.

  \<^item> An address is a number, 0 is \<open>NULL\<close>. The heap maps addresses to nodes and to burst
    items; \<open>brk\<close> is the next address \<open>malloc\<close> returns (it never returns one twice and never
    fails). A read or write through \<open>NULL\<close> or a freed node is \<open>None\<close>.
  \<^item> Every operation is the sequence of reads and writes of the C function; the loops over
    \<open>next\<close> pointers are partial functions, since on a cyclic list they would not end.
  \<^item> A burst item with process id -1 is the marker that tells a processor to stop.
\<close>

type_synonym addr = nat

record BurstItem =
  pid :: int
  burstLength :: int
  arrivalTime :: int
  remainingTime :: int
  finishTime :: int
  turnaroundTime :: int
  processorId :: int

record Node =
  ndata :: addr
  nnext :: addr
  nprev :: addr

record Queue =
  qhead :: addr
  qtail :: addr
  qsize :: int
  queueLoad :: int

record heap =
  nodes :: "addr \<Rightarrow> Node option"
  items :: "addr \<Rightarrow> BurstItem option"
  brk :: addr

type_synonym qstate = "heap \<times> Queue"

subsection \<open>Reads and writes through pointers\<close>

definition get_node :: "heap \<Rightarrow> addr \<Rightarrow> Node option" where
  "get_node h a = (if a = 0 then None else nodes h a)"

definition get_item :: "heap \<Rightarrow> addr \<Rightarrow> BurstItem option" where
  "get_item h a = (if a = 0 then None else items h a)"

definition put_node :: "heap \<Rightarrow> addr \<Rightarrow> Node option \<Rightarrow> heap" where
  "put_node h a n = h\<lparr>nodes := (nodes h)(a := n)\<rparr>"

definition set_next :: "heap \<Rightarrow> addr \<Rightarrow> addr \<Rightarrow> heap option" where
  "set_next h a v = do { n \<leftarrow> get_node h a; Some (put_node h a (Some (n\<lparr>nnext := v\<rparr>))) }"

definition set_prev :: "heap \<Rightarrow> addr \<Rightarrow> addr \<Rightarrow> heap option" where
  "set_prev h a v = do { n \<leftarrow> get_node h a; Some (put_node h a (Some (n\<lparr>nprev := v\<rparr>))) }"

definition set_data :: "heap \<Rightarrow> addr \<Rightarrow> addr \<Rightarrow> heap option" where
  "set_data h a v = do { n \<leftarrow> get_node h a; Some (put_node h a (Some (n\<lparr>ndata := v\<rparr>))) }"

definition free_node :: "heap \<Rightarrow> addr \<Rightarrow> heap option" where
  "free_node h a = do { _ \<leftarrow> get_node h a; Some (put_node h a None) }"

text \<open>\<open>node->data->pid\<close>\<close>

definition node_pid :: "heap \<Rightarrow> addr \<Rightarrow> int option" where
  "node_pid h a = do { n \<leftarrow> get_node h a; b \<leftarrow> get_item h (ndata n); Some (pid b) }"

subsection \<open>The operations\<close>

definition enqueue :: "qstate \<Rightarrow> addr \<Rightarrow> qstate option" where
  "enqueue hq value =
     (let (h0, q0) = hq; newNode = brk h0;
          h = put_node (h0\<lparr>brk := Suc newNode\<rparr>) newNode
                (Some \<lparr>ndata = value, nnext = 0, nprev = 0\<rparr>)
      in do {
        b \<leftarrow> get_item h value;
        let q = q0\<lparr>qsize := qsize q0 + 1, queueLoad := queueLoad q0 + burstLength b\<rparr>;
        if qhead q = 0 then Some (h, q\<lparr>qhead := newNode, qtail := newNode\<rparr>)
        else do {
          hpid \<leftarrow> node_pid h (qhead q);
          if hpid = -1 then do {
            h1 \<leftarrow> set_next h newNode (qtail q);
            h2 \<leftarrow> set_prev h1 (qtail q) newNode;
            Some (h2, q\<lparr>qhead := newNode\<rparr>)
          } else do {
            tpid \<leftarrow> node_pid h (qtail q);
            if tpid = -1 then do {
              t \<leftarrow> get_node h (qtail q);
              h1 \<leftarrow> set_next h (nprev t) newNode;
              t1 \<leftarrow> get_node h1 (qtail q);
              h2 \<leftarrow> set_prev h1 newNode (nprev t1);
              h3 \<leftarrow> set_next h2 newNode (qtail q);
              h4 \<leftarrow> set_prev h3 (qtail q) newNode;
              Some (h4, q)
            } else do {
              h1 \<leftarrow> set_next h (qtail q) newNode;
              h2 \<leftarrow> set_prev h1 newNode (qtail q);
              Some (h2, q\<lparr>qtail := newNode\<rparr>)
            }
          }
        }
      })"

text \<open>
  The test \<open>!list->head->data->pid == -1\<close> compares the negation, which is 0 or 1, with -1.
\<close>

definition c_not :: "int \<Rightarrow> int" where
  "c_not x = (if x = 0 then 1 else 0)"

definition dequeue :: "qstate \<Rightarrow> (addr \<times> qstate) option" where
  "dequeue hq =
     (let (h, q) = hq in
      if qhead q = 0 then Some (0, h, q)
      else do {
        hpid \<leftarrow> node_pid h (qhead q);
        if c_not hpid = -1 then Some (0, h, q)
        else do {
          let cur = qhead q;
          n \<leftarrow> get_node h cur;
          let res = ndata n;
          let q1 = q\<lparr>qhead := nnext n\<rparr>;
          (h1, q2) \<leftarrow> (if qhead q1 \<noteq> 0 then do { h' \<leftarrow> set_prev h (qhead q1) 0; Some (h', q1) }
                       else Some (h, q1\<lparr>qtail := 0\<rparr>));
          h2 \<leftarrow> set_next h1 cur 0;
          h3 \<leftarrow> set_prev h2 cur 0;
          h4 \<leftarrow> free_node h3 cur;
          b \<leftarrow> get_item h4 res;
          Some (res, h4, q2\<lparr>qsize := qsize q2 - 1, queueLoad := queueLoad q2 - burstLength b\<rparr>)
        }
      })"

partial_function (option) find_pid :: "heap \<Rightarrow> addr \<Rightarrow> int \<Rightarrow> addr option" where
  "find_pid h cur p =
     (if cur = 0 then Some 0
      else do {
        cp \<leftarrow> node_pid h cur;
        if cp \<noteq> p then do { n \<leftarrow> get_node h cur; find_pid h (nnext n) p } else Some cur
      })"

definition dequeue_at :: "qstate \<Rightarrow> int \<Rightarrow> (addr \<times> qstate) option" where
  "dequeue_at hq p =
     (let (h, q) = hq in
      if qhead q = 0 then Some (0, h, q)
      else do {
        cur \<leftarrow> find_pid h (qhead q) p;
        if cur = 0 then Some (0, h, q)
        else if cur = qhead q then dequeue (h, q)
        else do {
          n \<leftarrow> get_node h cur;
          h1 \<leftarrow> set_next h (nprev n) (nnext n);
          (h2, q1) \<leftarrow> (if nnext n \<noteq> 0 then do { h' \<leftarrow> set_prev h1 (nnext n) (nprev n); Some (h', q) }
                       else Some (h1, q\<lparr>qtail := nprev n\<rparr>));
          h3 \<leftarrow> set_next h2 cur 0;
          h4 \<leftarrow> set_prev h3 cur 0;
          m \<leftarrow> get_node h4 cur;
          b \<leftarrow> get_item h4 (ndata m);
          h5 \<leftarrow> free_node h4 cur;
          Some (ndata m, h5, q1\<lparr>qsize := qsize q1 - 1, queueLoad := queueLoad q1 - burstLength b\<rparr>)
        }
      })"

partial_function (option) sort_inner :: "heap \<Rightarrow> addr \<Rightarrow> addr \<Rightarrow> heap option" where
  "sort_inner h i j =
     (if j = 0 then Some h
      else do {
        ni \<leftarrow> get_node h i;
        nj \<leftarrow> get_node h j;
        bi \<leftarrow> get_item h (ndata ni);
        bj \<leftarrow> get_item h (ndata nj);
        h1 \<leftarrow> (if pid bi > pid bj
               then do { h' \<leftarrow> set_data h i (ndata nj); set_data h' j (ndata ni) }
               else Some h);
        nj' \<leftarrow> get_node h1 j;
        sort_inner h1 i (nnext nj')
      })"

partial_function (option) sort_outer :: "heap \<Rightarrow> addr \<Rightarrow> heap option" where
  "sort_outer h i =
     do {
       n \<leftarrow> get_node h i;
       if nnext n = 0 then Some h
       else do {
         h1 \<leftarrow> sort_inner h i (nnext n);
         n' \<leftarrow> get_node h1 i;
         sort_outer h1 (nnext n')
       }
     }"

definition sort_queue :: "qstate \<Rightarrow> heap option" where
  "sort_queue hq = (let (h, q) = hq in if qhead q = 0 then Some h else sort_outer h (qhead q))"

subsection \<open>The list a queue represents\<close>

text \<open>
  A list of cells (node address, item address), linked in both directions.
\<close>

type_synonym cell = "addr \<times> addr"

definition first_or :: "addr \<Rightarrow> cell list \<Rightarrow> addr" where
  "first_or nxt cs = (case cs of [] \<Rightarrow> nxt | c # _ \<Rightarrow> fst c)"

definition last_or :: "addr \<Rightarrow> cell list \<Rightarrow> addr" where
  "last_or prv cs = (if cs = [] then prv else fst (last cs))"

fun dll_seg :: "heap \<Rightarrow> addr \<Rightarrow> cell list \<Rightarrow> addr \<Rightarrow> bool" where
  "dll_seg h prv [] nxt = True"
| "dll_seg h prv ((a, d) # cs) nxt =
     (a \<noteq> 0 \<and> nodes h a = Some \<lparr>ndata = d, nnext = first_or nxt cs, nprev = prv\<rparr> \<and>
      dll_seg h a cs nxt)"

definition heap_ok :: "heap \<Rightarrow> bool" where
  "heap_ok h \<longleftrightarrow> brk h \<noteq> 0 \<and> (\<forall>a. brk h \<le> a \<longrightarrow> nodes h a = None)"

definition items_ok :: "heap \<Rightarrow> cell list \<Rightarrow> bool" where
  "items_ok h cs \<longleftrightarrow> (\<forall>c\<in>set cs. get_item h (snd c) \<noteq> None)"

definition queue_rep :: "qstate \<Rightarrow> cell list \<Rightarrow> bool" where
  "queue_rep hq cs \<longleftrightarrow>
     dll_seg (fst hq) 0 cs 0 \<and> distinct (map fst cs) \<and> heap_ok (fst hq) \<and> items_ok (fst hq) cs \<and>
     qhead (snd hq) = first_or 0 cs \<and> qtail (snd hq) = last_or 0 cs \<and>
     qsize (snd hq) = int (length cs)"

definition burst :: "heap \<Rightarrow> addr \<Rightarrow> BurstItem" where
  "burst h d = the (get_item h d)"

lemma first_or_simps [simp]: "first_or n [] = n" "first_or n (c # cs) = fst c"
  by (simp_all add: first_or_def)

lemma first_or_append: "first_or n (cs @ ds) = first_or (first_or n ds) cs"
  by (simp add: first_or_def split: list.splits)

lemma last_or_simps [simp]: "last_or p [] = p" "last_or p (cs @ [c]) = fst c"
  "last_or p [c] = fst c"
  by (simp_all add: last_or_def)

lemma last_or_append: "last_or p (cs @ ds) = last_or (last_or p cs) ds"
  by (simp add: last_or_def)

lemma last_or_Cons: "last_or p (c # cs) = last_or (fst c) cs"
  by (simp add: last_or_def)

lemma dll_seg_append:
  "dll_seg h prv (cs @ ds) nxt
     \<longleftrightarrow> dll_seg h prv cs (first_or nxt ds) \<and> dll_seg h (last_or prv cs) ds nxt"
proof (induction cs arbitrary: prv)
  case (Cons c cs)
  then show ?case by (cases c) (auto simp: first_or_append last_or_Cons)
qed simp

lemma dll_seg_frame:
  assumes "\<And>a. a \<in> fst ` set cs \<Longrightarrow> nodes h' a = nodes h a"
  shows "dll_seg h' prv cs nxt = dll_seg h prv cs nxt"
  using assms by (induction cs arbitrary: prv) auto

lemma dll_seg_nodes:
  "dll_seg h prv cs nxt \<Longrightarrow> c \<in> set cs \<Longrightarrow> fst c \<noteq> 0 \<and> nodes h (fst c) \<noteq> None"
proof (induction cs arbitrary: prv)
  case (Cons x cs)
  then show ?case by (cases x) fastforce
qed simp

lemma dll_seg_data:
  "dll_seg h prv cs nxt \<Longrightarrow> c \<in> set cs \<Longrightarrow>
     fst c \<noteq> 0 \<and> (\<exists>n. nodes h (fst c) = Some n \<and> ndata n = snd c)"
proof (induction cs arbitrary: prv)
  case (Cons x cs)
  then show ?case by (cases x) fastforce
qed simp

lemma dll_seg_fresh:
  "dll_seg h prv cs nxt \<Longrightarrow> heap_ok h \<Longrightarrow> brk h \<notin> fst ` set cs"
  using dll_seg_nodes [of h prv cs nxt] by (force simp: heap_ok_def)

lemma nodes_put_node [simp]: "nodes (put_node h a n) = (nodes h)(a := n)"
  "items (put_node h a n) = items h" "brk (put_node h a n) = brk h"
  by (simp_all add: put_node_def)

lemma get_item_put_node [simp]: "get_item (put_node h a n) = get_item h"
  by (simp add: get_item_def fun_eq_iff)

lemma get_item_brk [simp]: "get_item (h\<lparr>brk := b\<rparr>) = get_item h"
  by (simp add: get_item_def fun_eq_iff)

text \<open>Splitting a nonempty list at its last cell, and at a cell in the middle.\<close>

lemma dll_seg_last:
  "dll_seg h prv (cs @ [(t, d)]) nxt \<longleftrightarrow>
     dll_seg h prv cs t \<and> t \<noteq> 0 \<and>
     nodes h t = Some \<lparr>ndata = d, nnext = nxt, nprev = last_or prv cs\<rparr>"
  by (simp add: dll_seg_append)

text \<open>A write to a node outside a segment leaves the segment as it is.\<close>

lemma dll_seg_put [simp]:
  "a \<notin> fst ` set cs \<Longrightarrow> dll_seg (put_node h a n) prv cs nxt = dll_seg h prv cs nxt"
  by (rule dll_seg_frame) auto

lemma dll_seg_brk [simp]: "dll_seg (h\<lparr>brk := b\<rparr>) prv cs nxt = dll_seg h prv cs nxt"
  by (rule dll_seg_frame) simp

text \<open>Redirecting the last \<open>next\<close> of a segment, and the first \<open>prev\<close>.\<close>

lemma dll_seg_relink_last:
  assumes "dll_seg h prv (cs @ [(t, d)]) nxt" and "distinct (map fst (cs @ [(t, d)]))"
  shows "dll_seg (put_node h t (Some \<lparr>ndata = d, nnext = nxt', nprev = last_or prv cs\<rparr>)) prv
           (cs @ [(t, d)]) nxt'"
  using assms by (simp add: dll_seg_last)

lemma dll_seg_relink_first:
  assumes "dll_seg h prv ((a, d) # cs) nxt" and "distinct (map fst ((a, d) # cs))"
  shows "dll_seg (put_node h a (Some \<lparr>ndata = d, nnext = first_or nxt cs, nprev = prv'\<rparr>)) prv'
           ((a, d) # cs) nxt"
  using assms by simp

subsection \<open>The operations on the represented list\<close>

definition is_marker :: "heap \<Rightarrow> cell \<Rightarrow> bool" where
  "is_marker h c \<longleftrightarrow> pid (burst h (snd c)) = -1"

text \<open>At most the last cell is a marker, as long as one marker is put in, after the jobs.\<close>

definition marks_last :: "heap \<Rightarrow> cell list \<Rightarrow> bool" where
  "marks_last h cs \<longleftrightarrow> (\<forall>c\<in>set (butlast cs). \<not> is_marker h c)"

definition ins_cell :: "heap \<Rightarrow> cell \<Rightarrow> cell list \<Rightarrow> cell list" where
  "ins_cell h c cs =
     (if cs \<noteq> [] \<and> is_marker h (last cs) then butlast cs @ [c, last cs] else cs @ [c])"

lemma queue_repD:
  assumes "queue_rep (h, q) cs"
  shows "dll_seg h 0 cs 0" and "distinct (map fst cs)" and "heap_ok h" and "items_ok h cs"
    and "qhead q = first_or 0 cs" and "qtail q = last_or 0 cs" and "qsize q = int (length cs)"
  using assms by (simp_all add: queue_rep_def)

lemma node_pid_cell:
  assumes "queue_rep (h, q) cs" and "c \<in> set cs"
  shows "node_pid h (fst c) = Some (pid (burst h (snd c)))"
  using dll_seg_data [OF queue_repD(1) [OF assms(1)] assms(2)] queue_repD(4) [OF assms(1)] assms(2)
  by (auto simp: node_pid_def get_node_def items_ok_def burst_def)

lemma head_is_cell: "cs \<noteq> [] \<Longrightarrow> \<exists>c\<in>set cs. first_or n cs = fst c \<and> c = hd cs"
  by (cases cs) auto

lemma heap_ok_put:
  "heap_ok h \<Longrightarrow> a < brk h \<Longrightarrow> heap_ok (put_node h a n)"
  by (simp add: heap_ok_def)

lemma heap_ok_new: "heap_ok h \<Longrightarrow> heap_ok (put_node (h\<lparr>brk := Suc (brk h)\<rparr>) (brk h) n)"
  by (simp add: heap_ok_def)

lemma below_brk:
  "dll_seg h prv cs nxt \<Longrightarrow> heap_ok h \<Longrightarrow> c \<in> set cs \<Longrightarrow> fst c < brk h"
  using dll_seg_nodes [of h prv cs nxt c] by (meson heap_ok_def not_le)

text \<open>The state after the allocation and the two counters, before any linking.\<close>

definition with_new :: "heap \<Rightarrow> addr \<Rightarrow> heap" where
  "with_new h v = put_node (h\<lparr>brk := Suc (brk h)\<rparr>) (brk h) (Some \<lparr>ndata = v, nnext = 0, nprev = 0\<rparr>)"

definition counted :: "heap \<Rightarrow> Queue \<Rightarrow> addr \<Rightarrow> Queue" where
  "counted h q v = q\<lparr>qsize := qsize q + 1, queueLoad := queueLoad q + burstLength (burst h v)\<rparr>"

lemma enqueue_unfold:
  assumes "get_item h v \<noteq> None"
  shows "enqueue (h, q) v =
    (let n = brk h; g = with_new h v; q' = counted h q v in
     if qhead q = 0 then Some (g, q'\<lparr>qhead := n, qtail := n\<rparr>)
     else do {
       hpid \<leftarrow> node_pid g (qhead q);
       if hpid = -1 then do {
         h1 \<leftarrow> set_next g n (qtail q);
         h2 \<leftarrow> set_prev h1 (qtail q) n;
         Some (h2, q'\<lparr>qhead := n\<rparr>)
       } else do {
         tpid \<leftarrow> node_pid g (qtail q);
         if tpid = -1 then do {
           t \<leftarrow> get_node g (qtail q);
           h1 \<leftarrow> set_next g (nprev t) n;
           t1 \<leftarrow> get_node h1 (qtail q);
           h2 \<leftarrow> set_prev h1 n (nprev t1);
           h3 \<leftarrow> set_next h2 n (qtail q);
           h4 \<leftarrow> set_prev h3 (qtail q) n;
           Some (h4, q')
         } else do {
           h1 \<leftarrow> set_next g (qtail q) n;
           h2 \<leftarrow> set_prev h1 n (qtail q);
           Some (h2, q'\<lparr>qtail := n\<rparr>)
         }
       }
     })"
  using assms
  by (auto simp: enqueue_def with_new_def counted_def burst_def Let_def cong: if_cong)

lemma with_new_simps [simp]:
  "nodes (with_new h v) = (nodes h)(brk h := Some \<lparr>ndata = v, nnext = 0, nprev = 0\<rparr>)"
  "items (with_new h v) = items h" "brk (with_new h v) = Suc (brk h)"
  "get_item (with_new h v) = get_item h"
  by (simp_all add: with_new_def)

lemma node_pid_with_new:
  "heap_ok h \<Longrightarrow> a \<noteq> brk h \<Longrightarrow> node_pid (with_new h v) a = node_pid h a"
  by (simp add: node_pid_def get_node_def)

lemma counted_simps [simp]:
  "qhead (counted h q v) = qhead q" "qtail (counted h q v) = qtail q"
  "qsize (counted h q v) = qsize q + 1"
  "queueLoad (counted h q v) = queueLoad q + burstLength (burst h v)"
  by (simp_all add: counted_def)

definition enqueued :: "qstate \<Rightarrow> addr \<Rightarrow> cell list \<Rightarrow> qstate \<Rightarrow> bool" where
  "enqueued hq v cs hq' \<longleftrightarrow>
     queue_rep hq' (ins_cell (fst hq) (brk (fst hq), v) cs) \<and> items (fst hq') = items (fst hq) \<and>
     queueLoad (snd hq') = queueLoad (snd hq) + burstLength (burst (fst hq) v)"

lemma items_ok_same: "items h' = items h \<Longrightarrow> items_ok h' cs = items_ok h cs"
  by (simp add: items_ok_def get_item_def)

lemma items_ok_simps [simp]:
  "items_ok h (cs @ ds) \<longleftrightarrow> items_ok h cs \<and> items_ok h ds"
  "items_ok h (c # cs) \<longleftrightarrow> get_item h (snd c) \<noteq> None \<and> items_ok h cs"
  "items_ok h []"
  by (auto simp: items_ok_def)

lemma enqueue_empty:
  assumes "queue_rep (h, q) []" and "get_item h v \<noteq> None"
  shows "\<exists>hq'. enqueue (h, q) v = Some hq' \<and> enqueued (h, q) v [] hq'"
proof -
  note rep = queue_repD [OF assms(1)]
  have "brk h \<noteq> 0" using rep(3) by (simp add: heap_ok_def)
  moreover have "heap_ok (with_new h v)" using rep(3) by (simp add: heap_ok_def)
  ultimately show ?thesis
    using rep assms(2)
    by (simp add: enqueue_unfold Let_def enqueued_def ins_cell_def queue_rep_def items_ok_def)
qed

lemma enqueue_before_single:
  assumes rep: "queue_rep (h, q) [(t, d)]" and m: "is_marker h (t, d)" and v: "get_item h v \<noteq> None"
  shows "\<exists>hq'. enqueue (h, q) v = Some hq' \<and> enqueued (h, q) v [(t, d)] hq'"
proof -
  note rep' = queue_repD [OF rep]
  have t: "t < brk h" using below_brk [OF rep'(1,3), of "(t, d)"] by simp
  have b: "brk h \<noteq> 0" "t \<noteq> 0" "nodes h t = Some \<lparr>ndata = d, nnext = 0, nprev = 0\<rparr>"
    using rep'(1,3) by (simp_all add: heap_ok_def)
  have "node_pid (with_new h v) t = Some (-1)"
    using node_pid_cell [OF rep, of "(t, d)"] m t rep'(3) by (simp add: node_pid_with_new is_marker_def)
  then show ?thesis
    using rep' b t v m
    by (simp add: enqueue_unfold Let_def enqueued_def ins_cell_def queue_rep_def set_next_def
        set_prev_def get_node_def heap_ok_def last_or_def)
qed

lemma dll_seg_with_new [simp]:
  "brk h \<notin> fst ` set cs \<Longrightarrow> dll_seg (with_new h v) prv cs nxt = dll_seg h prv cs nxt"
  by (rule dll_seg_frame) force

lemma items_ok_put [simp]: "items_ok (put_node h a n) cs = items_ok h cs"
  "items_ok (with_new h v) cs = items_ok h cs"
  by (simp_all add: items_ok_def)

lemma first_or_ne: "first_or n (pre @ [c]) = first_or (fst c) pre"
  by (cases pre) auto

lemma first_or_nonzero:
  "dll_seg h prv cs nxt \<Longrightarrow> cs \<noteq> [] \<Longrightarrow> first_or n cs \<noteq> 0"
  by (cases cs) auto

lemma node_pid_head:
  assumes "queue_rep (h, q) cs" and "cs \<noteq> []"
  shows "node_pid (with_new h v) (first_or 0 cs) = Some (pid (burst h (snd (hd cs))))"
proof -
  note rep = queue_repD [OF assms(1)]
  have hd: "hd cs \<in> set cs" "first_or 0 cs = fst (hd cs)" using assms(2) by (cases cs; simp)+
  then have "fst (hd cs) < brk h" using below_brk [OF rep(1,3)] by blast
  then show ?thesis
    using node_pid_cell [OF assms(1) hd(1)] hd(2) rep(3) by (simp add: node_pid_with_new)
qed

lemma node_pid_last:
  assumes "queue_rep (h, q) cs" and "cs \<noteq> []"
  shows "node_pid (with_new h v) (last_or 0 cs) = Some (pid (burst h (snd (last cs))))"
proof -
  note rep = queue_repD [OF assms(1)]
  have hd: "last cs \<in> set cs" "last_or 0 cs = fst (last cs)"
    using assms(2) by (simp_all add: last_or_def)
  then have "fst (last cs) < brk h" using below_brk [OF rep(1,3)] by blast
  then show ?thesis
    using node_pid_cell [OF assms(1) hd(1)] hd(2) rep(3) by (simp add: node_pid_with_new)
qed

lemma enqueue_at_end:
  assumes rep: "queue_rep (h, q) (pre @ [(t, d)])" and m: "\<not> is_marker h (t, d)"
    and hd: "\<not> is_marker h (hd (pre @ [(t, d)]))" and v: "get_item h v \<noteq> None"
  shows "\<exists>hq'. enqueue (h, q) v = Some hq' \<and> enqueued (h, q) v (pre @ [(t, d)]) hq'"
proof -
  note rep' = queue_repD [OF rep]
  have t: "t < brk h" "t \<noteq> 0" "nodes h t = Some \<lparr>ndata = d, nnext = 0, nprev = last_or 0 pre\<rparr>"
    "dll_seg h 0 pre t"
    using below_brk [OF rep'(1,3), of "(t, d)"] rep'(1) by (simp_all add: dll_seg_last)
  have b: "brk h \<noteq> 0" "brk h \<notin> fst ` set pre" "t \<notin> fst ` set pre"
    using dll_seg_fresh [OF t(4) rep'(3)] rep'(2,3) by (simp_all add: heap_ok_def)
  have seg: "dll_seg g 0 pre t" if "\<And>a. a \<notin> {brk h, t} \<Longrightarrow> nodes g a = nodes h a" for g
    using t(4) b dll_seg_frame [of pre g h 0 t] that by (metis insertE singletonD)
  show ?thesis
    using rep' t(1-3) b v m hd node_pid_head [OF rep] node_pid_last [OF rep]
      first_or_nonzero [OF rep'(1)]
    by (simp add: enqueue_unfold Let_def enqueued_def ins_cell_def queue_rep_def set_next_def
        set_prev_def get_node_def heap_ok_def is_marker_def first_or_append
        last_or_append last_or_Cons dll_seg_append seg cong: if_cong)
qed

lemma enqueue_before_marker:
  assumes rep: "queue_rep (h, q) (pre @ [(p, e), (t, d)])" and m: "is_marker h (t, d)"
    and hd: "\<not> is_marker h (hd (pre @ [(p, e), (t, d)]))" and v: "get_item h v \<noteq> None"
  shows "\<exists>hq'. enqueue (h, q) v = Some hq' \<and> enqueued (h, q) v (pre @ [(p, e), (t, d)]) hq'"
proof -
  note rep' = queue_repD [OF rep]
  have t: "t < brk h" "t \<noteq> 0" "nodes h t = Some \<lparr>ndata = d, nnext = 0, nprev = p\<rparr>"
    "p < brk h" "p \<noteq> 0" "nodes h p = Some \<lparr>ndata = e, nnext = t, nprev = last_or 0 pre\<rparr>"
    "dll_seg h 0 pre p"
    using below_brk [OF rep'(1,3), of "(t, d)"] below_brk [OF rep'(1,3), of "(p, e)"] rep'(1)
    by (simp_all add: dll_seg_append)
  have b: "brk h \<noteq> 0" "brk h \<notin> fst ` set pre" "t \<notin> fst ` set pre" "p \<notin> fst ` set pre" "t \<noteq> p"
    using dll_seg_fresh [OF t(7) rep'(3)] rep'(2,3) by (auto simp: heap_ok_def)
  have seg: "dll_seg g 0 pre p" if "\<And>a. a \<notin> {brk h, t, p} \<Longrightarrow> nodes g a = nodes h a" for g
    using t(7) b dll_seg_frame [of pre g h 0 p] that by (metis insertE singletonD)
  show ?thesis
    using rep' t(1-6) b v m hd node_pid_head [OF rep] node_pid_last [OF rep]
      first_or_nonzero [OF rep'(1)]
    by (simp add: enqueue_unfold Let_def enqueued_def ins_cell_def queue_rep_def set_next_def
        set_prev_def get_node_def heap_ok_def is_marker_def first_or_append
        last_or_append last_or_Cons dll_seg_append seg butlast_append cong: if_cong)
qed

lemma marks_last_hd:
  "marks_last h cs \<Longrightarrow> 2 \<le> length cs \<Longrightarrow> \<not> is_marker h (hd cs)"
  by (cases cs; cases "tl cs") (auto simp: marks_last_def)

text \<open>
  \<open>enqueue\<close> appends, but keeps a marker at the end: for every well-formed queue it finishes
  without touching a bad pointer.
\<close>

lemma enqueue_rep:
  assumes "queue_rep (h, q) cs" and "marks_last h cs" and "get_item h v \<noteq> None"
  shows "\<exists>hq'. enqueue (h, q) v = Some hq' \<and> enqueued (h, q) v cs hq'"
proof (cases cs rule: rev_cases)
  case Nil
  then show ?thesis using enqueue_empty assms by simp
next
  case (snoc pre c)
  obtain t d where c: "c = (t, d)" by (cases c)
  show ?thesis
  proof (cases "is_marker h c")
    case nomark: False
    have "\<not> is_marker h (hd cs)"
      using nomark snoc marks_last_hd [OF assms(2)] by (cases pre) auto
    then show ?thesis using enqueue_at_end assms nomark snoc c by simp
  next
    case mark: True
    show ?thesis
    proof (cases pre rule: rev_cases)
      case Nil
      then show ?thesis using enqueue_before_single assms mark snoc c by simp
    next
      case (snoc pre' p)
      then have "\<not> is_marker h (hd cs)"
        using marks_last_hd [OF assms(2)] \<open>cs = pre @ [c]\<close> by simp
      then show ?thesis
        using enqueue_before_marker [of h q pre' "fst p" "snd p"] assms mark snoc c \<open>cs = pre @ [c]\<close>
        by simp
    qed
  qed
qed

subsection \<open>Taking out\<close>

definition dequeued :: "qstate \<Rightarrow> cell \<Rightarrow> cell list \<Rightarrow> qstate \<Rightarrow> bool" where
  "dequeued hq c cs hq' \<longleftrightarrow>
     queue_rep hq' cs \<and> items (fst hq') = items (fst hq) \<and>
     queueLoad (snd hq') = queueLoad (snd hq) - burstLength (burst (fst hq) (snd c))"

lemma c_not_mark [simp]: "c_not x \<noteq> -1"
  by (simp add: c_not_def)

lemma dequeue_empty: "queue_rep (h, q) [] \<Longrightarrow> dequeue (h, q) = Some (0, h, q)"
  by (simp add: queue_rep_def dequeue_def)

lemma dequeue_rep:
  assumes rep: "queue_rep (h, q) (c # cs)"
  shows "\<exists>hq'. dequeue (h, q) = Some (snd c, hq') \<and> dequeued (h, q) c cs hq'"
proof -
  obtain a d where c: "c = (a, d)" by (cases c)
  note rep' = queue_repD [OF rep [unfolded c]]
  obtain b where b: "get_item h d = Some b" using rep'(4) by auto
  have a: "a < brk h" "a \<noteq> 0" "nodes h a = Some \<lparr>ndata = d, nnext = first_or 0 cs, nprev = 0\<rparr>"
    using below_brk [OF rep'(1,3), of "(a, d)"] rep'(1) by simp_all
  have hd: "node_pid h a = Some (pid b)" using a b by (simp add: node_pid_def get_node_def)
  show ?thesis
  proof (cases cs)
    case Nil
    then show ?thesis
      using rep' a b hd c
      by (simp add: dequeue_def Let_def get_node_def set_next_def set_prev_def free_node_def
          dequeued_def queue_rep_def heap_ok_def burst_def last_or_def cong: if_cong)
  next
    case (Cons c2 ds)
    obtain a2 d2 where c2: "c2 = (a2, d2)" by (cases c2)
    have a2: "a2 < brk h" "a2 \<noteq> 0" "a \<noteq> a2" "a \<notin> fst ` set ds" "a2 \<notin> fst ` set ds"
      "nodes h a2 = Some \<lparr>ndata = d2, nnext = first_or 0 ds, nprev = a\<rparr>" "dll_seg h a2 ds 0"
      using below_brk [OF rep'(1,3), of "(a2, d2)"] rep'(1,2) Cons c2 by auto
    have seg: "dll_seg g a2 ds 0" if "\<And>x. x \<notin> {a, a2} \<Longrightarrow> nodes g x = nodes h x" for g
      using a2(4,5,7) dll_seg_frame [of ds g h a2 0] that by (metis insertE singletonD)
    show ?thesis
      using rep' a a2(1-6) b hd c Cons c2
      by (simp add: dequeue_def Let_def get_node_def set_next_def set_prev_def free_node_def
          dequeued_def queue_rep_def heap_ok_def burst_def last_or_Cons seg cong: if_cong)
  qed
qed

definition cell_pid :: "heap \<Rightarrow> cell \<Rightarrow> int" where
  "cell_pid h c = pid (burst h (snd c))"

lemma find_pid_eq:
  assumes "dll_seg h prv cs 0" and "items_ok h cs"
  shows "find_pid h (first_or 0 cs) p
    = Some (case find (\<lambda>c. cell_pid h c = p) cs of None \<Rightarrow> 0 | Some c \<Rightarrow> fst c)"
  using assms
proof (induction cs arbitrary: prv)
  case Nil
  then show ?case by (simp add: find_pid.simps)
next
  case (Cons c cs)
  obtain a d where c: "c = (a, d)" by (cases c)
  obtain b where b: "get_item h d = Some b" using Cons.prems c by auto
  have a: "a \<noteq> 0" "nodes h a = Some \<lparr>ndata = d, nnext = first_or 0 cs, nprev = prv\<rparr>"
    using Cons.prems c by auto
  have "node_pid h a = Some (pid b)" using a b by (simp add: node_pid_def get_node_def)
  then show ?case
    using Cons.IH [of a] Cons.prems a b c
    by (subst find_pid.simps) (simp add: get_node_def cell_pid_def burst_def)
qed

lemma dequeue_at_none:
  assumes "queue_rep (h, q) cs" and "\<forall>c\<in>set cs. cell_pid h c \<noteq> p"
  shows "dequeue_at (h, q) p = Some (0, h, q)"
proof -
  note rep = queue_repD [OF assms(1)]
  have "find (\<lambda>c. cell_pid h c = p) cs = None" using assms(2) by (auto simp: find_None_iff)
  then show ?thesis using find_pid_eq [OF rep(1,4), of p] rep(5) by (simp add: dequeue_at_def)
qed

lemma find_first: "P c \<Longrightarrow> \<forall>x\<in>set xs. \<not> P x \<Longrightarrow> find P (xs @ c # ys) = Some c"
  by (induction xs) auto

lemma dequeue_at_hd:
  assumes "queue_rep (h, q) (c # cs)" and "cell_pid h c = p"
  shows "dequeue_at (h, q) p = dequeue (h, q)"
proof -
  note rep = queue_repD [OF assms(1)]
  have "find_pid h (qhead q) p = Some (qhead q)" "qhead q \<noteq> 0"
    using find_pid_eq [OF rep(1,4), of p] rep(5) assms(2) first_or_nonzero [OF rep(1)] by simp_all
  then show ?thesis by (simp add: dequeue_at_def)
qed

lemma dequeue_at_middle:
  assumes rep: "queue_rep (h, q) (xs @ (l, e) # c # ys)" and p: "cell_pid h c = p"
    and other: "\<forall>x\<in>set (xs @ [(l, e)]). cell_pid h x \<noteq> p"
  shows "\<exists>hq'. dequeue_at (h, q) p = Some (snd c, hq') \<and> dequeued (h, q) c (xs @ (l, e) # ys) hq'"
proof -
  obtain a d where c: "c = (a, d)" by (cases c)
  note rep' = queue_repD [OF rep [unfolded c]]
  obtain b where b: "get_item h d = Some b" using rep'(4) by auto
  have "find (\<lambda>x. cell_pid h x = p) ((xs @ [(l, e)]) @ c # ys) = Some c"
    by (rule find_first) (use p other in auto)
  then have find: "find_pid h (qhead q) p = Some a"
    using find_pid_eq [OF rep'(1,4), of p] rep'(5) c by simp
  have a: "a < brk h" "a \<noteq> 0" "nodes h a = Some \<lparr>ndata = d, nnext = first_or 0 ys, nprev = l\<rparr>"
    "l < brk h" "l \<noteq> 0" "nodes h l = Some \<lparr>ndata = e, nnext = a, nprev = last_or 0 xs\<rparr>"
    "dll_seg h 0 xs l" "dll_seg h a ys 0"
    using below_brk [OF rep'(1,3), of "(a, d)"] below_brk [OF rep'(1,3), of "(l, e)"] rep'(1)
    by (simp_all add: dll_seg_append)
  have d: "a \<notin> fst ` set xs" "l \<notin> fst ` set xs" "a \<noteq> l" "l \<notin> fst ` set ys" "a \<notin> fst ` set ys"
    "fst ` set xs \<inter> fst ` set ys = {}"
    using rep'(2) by auto
  have hd: "qhead q \<noteq> 0" "qhead q \<noteq> a" "qhead q = first_or l xs"
    using first_or_nonzero [OF rep'(1)] rep'(5) d(1,3) by (cases xs; force simp: first_or_append)+
  show ?thesis
  proof (cases ys)
    case Nil
    have seg: "dll_seg g 0 xs l" if "\<And>x. x \<notin> {a, l} \<Longrightarrow> nodes g x = nodes h x" for g
      using a(7) d dll_seg_frame [of xs g h 0 l] that by (metis insertE singletonD)
    show ?thesis
      using Nil rep' a d b hd c find
      by (simp add: dequeue_at_def Let_def get_node_def set_next_def set_prev_def free_node_def
          dequeued_def queue_rep_def heap_ok_def burst_def last_or_append last_or_Cons
          first_or_append dll_seg_append seg cong: if_cong)
  next
    case (Cons c2 zs)
    obtain a2 d2 where c2: "c2 = (a2, d2)" by (cases c2)
    have a2: "a2 < brk h" "a2 \<noteq> 0" "a \<noteq> a2" "l \<noteq> a2" "a2 \<notin> fst ` set zs" "a2 \<notin> fst ` set xs"
      "nodes h a2 = Some \<lparr>ndata = d2, nnext = first_or 0 zs, nprev = a\<rparr>" "dll_seg h a2 zs 0"
      "l \<notin> fst ` set zs" "a \<notin> fst ` set zs"
      using below_brk [OF rep'(1,3), of "(a2, d2)"] rep'(2) d a Cons c2 by auto
    have seg: "dll_seg g 0 xs l" "dll_seg g a2 zs 0"
      if "\<And>x. x \<notin> {a, l, a2} \<Longrightarrow> nodes g x = nodes h x" for g
      using a(7) a2(3-6,8-10) d dll_seg_frame [of xs g h 0 l] dll_seg_frame [of zs g h a2 0] that
      by (metis insertE singletonD)+
    show ?thesis
      using Cons c2 rep' a(1-6) a2(1-7) d b hd c find
      by (simp add: dequeue_at_def Let_def get_node_def set_next_def set_prev_def free_node_def
          dequeued_def queue_rep_def heap_ok_def burst_def last_or_append last_or_Cons
          first_or_append dll_seg_append seg cong: if_cong)
  qed
qed

text \<open>\<open>dequeue_at\<close> removes the first item with the given process id.\<close>

lemma dequeue_at_rep:
  assumes "queue_rep (h, q) (xs @ c # ys)" and "cell_pid h c = p"
    and "\<forall>x\<in>set xs. cell_pid h x \<noteq> p"
  shows "\<exists>hq'. dequeue_at (h, q) p = Some (snd c, hq') \<and> dequeued (h, q) c (xs @ ys) hq'"
proof (cases xs rule: rev_cases)
  case Nil
  then show ?thesis using dequeue_rep [of h q c ys] dequeue_at_hd [of h q c ys p] assms by simp
next
  case (snoc zs l)
  then show ?thesis
    using dequeue_at_middle [of h q zs "fst l" "snd l" c ys p] assms by simp
qed

subsection \<open>Sorting\<close>

text \<open>
  On the item addresses, in list order, \<open>sort_queue\<close> is the shared exchange sort: an exchange
  swaps the two \<open>data\<close> pointers, the nodes stay where they are.
\<close>

definition later_pid :: "heap \<Rightarrow> addr \<Rightarrow> addr \<Rightarrow> bool" where
  "later_pid h d e \<longleftrightarrow> pid (burst h d) > pid (burst h e)"

definition swap_items :: "addr \<Rightarrow> addr \<Rightarrow> addr \<times> addr" where
  "swap_items d e = (e, d)"

interpretation pid_order: exchange "\<lambda>d. d" "later_pid h" swap_items
  "\<lambda>d e. pid (burst h d) \<le> pid (burst h e)" for h
  by unfold_locales (auto simp: later_pid_def swap_items_def)

lemma pid_sort_mset: "mset (exch_sort (later_pid h) swap_items ds) = mset ds"
  using pid_order.sort_mset [of h ds] by simp

abbreviation put_items :: "cell list \<Rightarrow> addr list \<Rightarrow> cell list" where
  "put_items cs ds \<equiv> zip (map fst cs) ds"

lemma first_or_put_items: "length ds = length cs \<Longrightarrow> first_or n (put_items cs ds) = first_or n cs"
  by (cases cs; cases ds) auto

lemma sort_inner_rep:
  assumes "dll_seg h p cs 0" and "a \<notin> fst ` set cs" and "distinct (map fst cs)"
    and "a \<noteq> 0" and "nodes h a = Some \<lparr>ndata = d, nnext = n, nprev = r\<rparr>"
    and "items_ok h cs" and "get_item h d \<noteq> None"
    and "exch_pass (later_pid h) swap_items d (map snd cs) = (m, ds)"
  shows "\<exists>h'. sort_inner h a (first_or 0 cs) = Some h' \<and>
     nodes h' a = Some \<lparr>ndata = m, nnext = n, nprev = r\<rparr> \<and> dll_seg h' p (put_items cs ds) 0 \<and>
     items h' = items h \<and> brk h' = brk h \<and> (\<forall>x. x \<notin> insert a (fst ` set cs) \<longrightarrow> nodes h' x = nodes h x)"
  using assms
proof (induction cs arbitrary: h p d m ds)
  case Nil
  then show ?case by (simp add: sort_inner.simps)
next
  case (Cons c cs)
  obtain j e where c: "c = (j, e)" by (cases c)
  obtain bd be where b: "get_item h d = Some bd" "get_item h e = Some be"
    using Cons.prems c by auto
  have j: "j \<noteq> 0" "j \<noteq> a" "nodes h j = Some \<lparr>ndata = e, nnext = first_or 0 cs, nprev = p\<rparr>"
    "dll_seg h j cs 0" "j \<notin> fst ` set cs" "a \<notin> fst ` set cs"
    using Cons.prems c by auto
  define gt where "gt = later_pid h d e"
  define h1 where "h1 = (if gt then put_node (put_node h a (Some \<lparr>ndata = e, nnext = n, nprev = r\<rparr>)) j
      (Some \<lparr>ndata = d, nnext = first_or 0 cs, nprev = p\<rparr>) else h)"
  define d1 e1 where "d1 = (if gt then e else d)" and "e1 = (if gt then d else e)"
  have unfold: "sort_inner h a (first_or 0 (c # cs)) = sort_inner h1 a (first_or 0 cs)"
    using Cons.prems(4,5) j b c
    by (subst sort_inner.simps)
      (simp add: get_node_def set_data_def h1_def gt_def later_pid_def burst_def)
  have same: "items h1 = items h" "brk h1 = brk h" "get_item h1 = get_item h"
    "later_pid h1 = later_pid h"
    by (simp_all add: h1_def later_pid_def burst_def fun_eq_iff)
  obtain zs where pass: "exch_pass (later_pid h1) swap_items d1 (map snd cs) = (m, zs)" "ds = e1 # zs"
  proof -
    have "exch_pass (later_pid h) swap_items d (e # map snd cs) = (m, ds)"
      using Cons.prems(8) c by simp
    then show thesis
      using that unfolding same(4) exch_pass.simps gt_def [symmetric] swap_items_def [of d e] Let_def
      by (cases gt) (auto simp: d1_def e1_def split: prod.splits)
  qed
  have seg: "dll_seg h1 j cs 0"
    using j(4,5,6) by (simp add: h1_def)
  have na: "nodes h1 a = Some \<lparr>ndata = d1, nnext = n, nprev = r\<rparr>"
    and nj: "nodes h1 j = Some \<lparr>ndata = e1, nnext = first_or 0 cs, nprev = p\<rparr>"
    and other: "x \<notin> {a, j} \<Longrightarrow> nodes h1 x = nodes h x" for x
    using Cons.prems(5) j by (auto simp: h1_def d1_def e1_def)
  have ok: "items_ok h1 cs" "get_item h1 d1 \<noteq> None"
    using Cons.prems(6,7) c same by (auto simp: items_ok_same [OF same(1)] d1_def)
  obtain h' where h': "sort_inner h1 a (first_or 0 cs) = Some h'"
    "nodes h' a = Some \<lparr>ndata = m, nnext = n, nprev = r\<rparr>" "dll_seg h' j (put_items cs zs) 0"
    "items h' = items h1" "brk h' = brk h1" "\<forall>x. x \<notin> insert a (fst ` set cs) \<longrightarrow> nodes h' x = nodes h1 x"
    using Cons.IH [OF seg j(6) _ Cons.prems(4) na ok pass(1)] Cons.prems(3) by auto
  have len: "length zs = length cs"
    using length_exch_pass [of "later_pid h1" swap_items d1 "map snd cs"] pass(1) by simp
  have "nodes h' j = nodes h1 j" using h'(6) j(2,5) by simp
  then have "dll_seg h' p (put_items (c # cs) ds) 0"
    using h'(3) nj j(1) c pass(2) first_or_put_items [OF len] by simp
  moreover have "\<forall>x. x \<notin> insert a (fst ` set (c # cs)) \<longrightarrow> nodes h' x = nodes h x"
    using h'(6) other c by simp
  ultimately show ?case using h'(1,2,4,5) same unfold by auto
qed

lemma sort_outer_rep:
  assumes "dll_seg h p cs 0" and "cs \<noteq> []" and "distinct (map fst cs)" and "items_ok h cs"
  shows "\<exists>h'. sort_outer h (first_or 0 cs) = Some h' \<and>
     dll_seg h' p (put_items cs (exch_sort (later_pid h) swap_items (map snd cs))) 0 \<and>
     items h' = items h \<and> brk h' = brk h \<and> (\<forall>x. x \<notin> fst ` set cs \<longrightarrow> nodes h' x = nodes h x)"
  using assms
proof (induction cs arbitrary: h p rule: measure_induct_rule [where f = length])
  case (less cs)
  obtain a d cs' where cs: "cs = (a, d) # cs'" using less.prems(2) by (cases cs) auto
  have a: "a \<noteq> 0" "nodes h a = Some \<lparr>ndata = d, nnext = first_or 0 cs', nprev = p\<rparr>"
    "dll_seg h a cs' 0" "a \<notin> fst ` set cs'"
    using less.prems cs by auto
  show ?case
  proof (cases "cs' = []")
    case True
    then show ?thesis using a cs less.prems by (subst sort_outer.simps) (simp add: get_node_def)
  next
    case ne: False
    obtain m ds where pass: "exch_pass (later_pid h) swap_items d (map snd cs') = (m, ds)"
      by (cases "exch_pass (later_pid h) swap_items d (map snd cs')")
    have len: "length ds = length cs'"
      using length_exch_pass [of "later_pid h" swap_items d "map snd cs'"] pass by simp
    obtain h1 where h1: "sort_inner h a (first_or 0 cs') = Some h1"
      "nodes h1 a = Some \<lparr>ndata = m, nnext = first_or 0 cs', nprev = p\<rparr>"
      "dll_seg h1 a (put_items cs' ds) 0" "items h1 = items h" "brk h1 = brk h"
      "\<forall>x. x \<notin> insert a (fst ` set cs') \<longrightarrow> nodes h1 x = nodes h x"
      using sort_inner_rep [OF a(3,4) _ a(1,2) _ _ pass] less.prems cs by auto
    have later: "later_pid h1 = later_pid h"
      using h1(4) by (simp add: later_pid_def burst_def get_item_def fun_eq_iff)
    have dst: "distinct (map fst (put_items cs' ds))" "put_items cs' ds \<noteq> []"
      "map fst (put_items cs' ds) = map fst cs'" "map snd (put_items cs' ds) = ds"
      using less.prems(3) cs len ne by auto
    have ok: "items_ok h1 (put_items cs' ds)"
    proof -
      have "add_mset m (mset ds) = add_mset d (mset (map snd cs'))"
        using pid_order.pass_mset [of h d "map snd cs'"] pass by simp
      then have "set ds \<subseteq> set (d # map snd cs')"
        by (metis insert_subset list.simps(15) mset.simps(2) set_mset_mset subset_refl)
      moreover have "\<forall>x\<in>set (d # map snd cs'). get_item h x \<noteq> None"
        using less.prems(4) cs by (simp add: items_ok_def)
      ultimately have "\<forall>x\<in>set ds. get_item h1 x \<noteq> None"
        using h1(4) unfolding get_item_def by (simp only:) blast
      then show ?thesis unfolding items_ok_def by (auto dest!: set_zip_rightD)
    qed
    obtain h2 where h2: "sort_outer h1 (first_or 0 (put_items cs' ds)) = Some h2"
      "dll_seg h2 a (put_items (put_items cs' ds) (exch_sort (later_pid h1) swap_items ds)) 0"
      "items h2 = items h1" "brk h2 = brk h1"
      "\<forall>x. x \<notin> fst ` set (put_items cs' ds) \<longrightarrow> nodes h2 x = nodes h1 x"
      using less.IH [OF _ h1(3) dst(2,1) ok] cs len dst by auto
    have fs: "fst ` set (put_items cs' ds) = fst ` set cs'"
      using arg_cong [OF dst(3), of set] by (simp only: set_map)
    have f: "first_or 0 cs' \<noteq> 0" by (rule first_or_nonzero [OF a(3) ne])
    have step: "sort_outer h (first_or 0 cs) = sort_outer h1 (first_or 0 cs')"
      using a h1(1,2) f cs by (subst sort_outer.simps) (simp add: get_node_def)
    have "nodes h2 a = nodes h1 a" using h2(5) fs a(4) by simp
    then have "dll_seg h2 p (put_items cs (exch_sort (later_pid h) swap_items (map snd cs))) 0"
      using h2(2) h1(2) a(1) cs pass later dst(3) len
      by (simp add: first_or_put_items)
    then show ?thesis
      using step h2 h1 fs first_or_put_items [OF len] cs by auto
  qed
qed

end
