(* ===== verification/BurstQueue.thy ===== *)
theory BurstQueue
  imports ReadyQueue
begin

text \<open>
  The contract of the ready queue. \<open>RQueue\<close> is a queue as a list of burst items with its two
  counters, with one operation per function of \<open>readyqueue.c\<close>; the heap model of theory
  \<open>ReadyQueue\<close> refines it (\<open>refines\<close>). The locale \<open>burst_queue\<close> states what the scheduler
  relies on, and is interpreted on both.
\<close>

record RQueue =
  rq :: "BurstItem list"
  rsize :: int
  rload :: int

definition mark :: "BurstItem \<Rightarrow> bool" where
  "mark b \<longleftrightarrow> pid b = -1"

definition ins_burst :: "BurstItem \<Rightarrow> BurstItem list \<Rightarrow> BurstItem list" where
  "ins_burst b bs = (if bs \<noteq> [] \<and> mark (last bs) then butlast bs @ [b, last bs] else bs @ [b])"

definition one_mark :: "BurstItem list \<Rightarrow> bool" where
  "one_mark bs \<longleftrightarrow> (\<forall>b\<in>set (butlast bs). \<not> mark b)"

definition rq_enqueue :: "RQueue \<Rightarrow> BurstItem \<Rightarrow> RQueue" where
  "rq_enqueue q b = q\<lparr>rq := ins_burst b (rq q), rsize := rsize q + 1, rload := rload q + burstLength b\<rparr>"

definition rq_dequeue :: "RQueue \<Rightarrow> (BurstItem \<times> RQueue) option" where
  "rq_dequeue q =
     (case rq q of [] \<Rightarrow> None
      | b # bs \<Rightarrow> Some (b, q\<lparr>rq := bs, rsize := rsize q - 1, rload := rload q - burstLength b\<rparr>))"

fun take_pid :: "int \<Rightarrow> BurstItem list \<Rightarrow> (BurstItem \<times> BurstItem list) option" where
  "take_pid p [] = None"
| "take_pid p (b # bs) =
     (if pid b = p then Some (b, bs)
      else (case take_pid p bs of None \<Rightarrow> None | Some (x, ys) \<Rightarrow> Some (x, b # ys)))"

definition rq_dequeue_at :: "RQueue \<Rightarrow> int \<Rightarrow> (BurstItem \<times> RQueue) option" where
  "rq_dequeue_at q p =
     (case take_pid p (rq q) of None \<Rightarrow> None
      | Some (b, bs) \<Rightarrow>
          Some (b, q\<lparr>rq := bs, rsize := rsize q - 1, rload := rload q - burstLength b\<rparr>))"

definition pid_after :: "BurstItem \<Rightarrow> BurstItem \<Rightarrow> bool" where
  "pid_after a b \<longleftrightarrow> pid a > pid b"

definition swap_bursts :: "BurstItem \<Rightarrow> BurstItem \<Rightarrow> BurstItem \<times> BurstItem" where
  "swap_bursts a b = (b, a)"

definition rq_sort :: "RQueue \<Rightarrow> RQueue" where
  "rq_sort q = q\<lparr>rq := exch_sort pid_after swap_bursts (rq q)\<rparr>"

interpretation burst_order: exchange "\<lambda>b. b" pid_after swap_bursts "\<lambda>a b. pid a \<le> pid b"
  by unfold_locales (auto simp: pid_after_def swap_bursts_def)

subsection \<open>Refinement\<close>

definition bursts :: "heap \<Rightarrow> cell list \<Rightarrow> BurstItem list" where
  "bursts h cs = map (\<lambda>c. burst h (snd c)) cs"

definition refines :: "qstate \<Rightarrow> RQueue \<Rightarrow> bool" where
  "refines hq Q \<longleftrightarrow> (\<exists>cs. queue_rep hq cs \<and> rq Q = bursts (fst hq) cs) \<and>
     rsize Q = qsize (snd hq) \<and> rload Q = queueLoad (snd hq)"

lemma bursts_simps [simp]:
  "bursts h [] = []" "bursts h (c # cs) = burst h (snd c) # bursts h cs"
  "bursts h (cs @ ds) = bursts h cs @ bursts h ds" "length (bursts h cs) = length cs"
  by (simp_all add: bursts_def)

lemma bursts_same: "items h' = items h \<Longrightarrow> bursts h' cs = bursts h cs"
  by (simp add: bursts_def burst_def get_item_def)

lemma burst_same: "items h' = items h \<Longrightarrow> burst h' d = burst h d"
  by (simp add: burst_def get_item_def)

lemma mark_iff: "is_marker h c = mark (burst h (snd c))"
  by (simp add: is_marker_def mark_def)

lemma bursts_butlast: "butlast (bursts h cs) = bursts h (butlast cs)"
  by (simp add: bursts_def map_butlast)

lemma marks_last_iff: "marks_last h cs = one_mark (bursts h cs)"
  by (simp add: marks_last_def one_mark_def bursts_butlast mark_iff) (simp add: bursts_def)

lemma bursts_ins: "bursts h (ins_cell h c cs) = ins_burst (burst h (snd c)) (bursts h cs)"
  by (cases cs rule: rev_cases) (simp_all add: ins_cell_def ins_burst_def mark_iff butlast_append)

lemma get_item_burst: "get_item h v = Some b \<Longrightarrow> burst h v = b"
  by (simp add: burst_def)

lemma get_item_some: "get_item h d \<noteq> None \<Longrightarrow> get_item h d = Some (burst h d)"
  by (cases "get_item h d") (auto simp: burst_def)

lemma rep_item:
  "queue_rep (h, q) (us @ c # vs) \<Longrightarrow> get_item h (snd c) = Some (burst h (snd c))"
  using queue_repD(4) [of h q "us @ c # vs"] by (intro get_item_some) simp

lemma enqueue_refines_aux:
  assumes "refines (h, q) Q" and "one_mark (rq Q)" and "get_item h v = Some b"
  shows "\<exists>hq'. enqueue (h, q) v = Some hq' \<and> refines hq' (rq_enqueue Q b) \<and>
           items (fst hq') = items h"
proof -
  obtain cs where cs: "queue_rep (h, q) cs" "rq Q = bursts h cs"
    and cnt: "rsize Q = qsize q" "rload Q = queueLoad q"
    using assms(1) by (auto simp: refines_def)
  have "marks_last h cs" using assms(2) cs(2) by (simp add: marks_last_iff)
  then obtain h' q' where h': "enqueue (h, q) v = Some (h', q')" "enqueued (h, q) v cs (h', q')"
    using enqueue_rep [OF cs(1), of v] assms(3) by auto
  have rep: "queue_rep (h', q') (ins_cell h (brk h, v) cs)" "items h' = items h"
    "queueLoad q' = queueLoad q + burstLength b"
    using h'(2) assms(3) by (simp_all add: enqueued_def get_item_burst)
  moreover have "rq (rq_enqueue Q b) = bursts h' (ins_cell h (brk h, v) cs)"
    using cs(2) assms(3) by (simp add: rq_enqueue_def bursts_same [OF rep(2)] bursts_ins get_item_burst)
  moreover have "qsize q' = qsize q + 1"
    using queue_repD(7) [OF rep(1)] queue_repD(7) [OF cs(1)]
    by (cases cs rule: rev_cases) (auto simp: ins_cell_def)
  ultimately show ?thesis using h'(1) cnt by (auto simp: refines_def rq_enqueue_def)
qed

lemma dequeued_refines:
  assumes "dequeued (h, q) c cs' (h', q')" and "length cs = Suc (length cs')"
    and "queue_rep (h, q) cs" and "rsize Q = qsize q" and "rload Q = queueLoad q"
  shows "refines (h', q') (Q\<lparr>rq := bursts h cs', rsize := rsize Q - 1,
           rload := rload Q - burstLength (burst h (snd c))\<rparr>)"
proof -
  have rep: "queue_rep (h', q') cs'" and same: "items h' = items h"
    and load: "queueLoad q' = queueLoad q - burstLength (burst h (snd c))"
    using assms(1) by (simp_all add: dequeued_def)
  have "rsize Q - 1 = qsize q'"
    using assms(2,4) queue_repD(7) [OF assms(3)] queue_repD(7) [OF rep] by simp
  moreover have "\<exists>cs. queue_rep (h', q') cs \<and> bursts h cs' = bursts h' cs"
    by (rule exI [of _ cs']) (simp add: rep bursts_same [OF same])
  ultimately show ?thesis unfolding refines_def using load assms(5) by simp
qed

lemma dequeue_refines_aux:
  assumes "refines (h, q) Q"
  shows "case rq_dequeue Q of
      None \<Rightarrow> dequeue (h, q) = Some (0, h, q)
    | Some (b, Q') \<Rightarrow> \<exists>v hq'. dequeue (h, q) = Some (v, hq') \<and> refines hq' Q' \<and>
        get_item h v = Some b \<and> items (fst hq') = items h"
proof -
  obtain cs where cs: "queue_rep (h, q) cs" "rq Q = bursts h cs"
    and cnt: "rsize Q = qsize q" "rload Q = queueLoad q"
    using assms(1) by (auto simp: refines_def)
  show ?thesis
  proof (cases cs)
    case Nil
    then show ?thesis using dequeue_empty cs by (simp add: rq_dequeue_def)
  next
    case (Cons c ds)
    obtain h' q' where h': "dequeue (h, q) = Some (snd c, h', q')" "dequeued (h, q) c ds (h', q')"
      using dequeue_rep [OF cs(1) [unfolded Cons]] by auto
    have "get_item h (snd c) = Some (burst h (snd c))"
      using queue_repD(4) [OF cs(1)] Cons by (auto simp: burst_def)
    then show ?thesis
      using h' dequeued_refines [OF h'(2) _ cs(1) cnt] Cons cs(2)
      by (simp add: rq_dequeue_def dequeued_def)
  qed
qed

lemma take_pid_Some:
  assumes "take_pid p bs = Some (b, bs')"
  shows "\<exists>xs ys. bs = xs @ b # ys \<and> bs' = xs @ ys \<and> pid b = p \<and> (\<forall>x\<in>set xs. pid x \<noteq> p)"
  using assms
proof (induction bs arbitrary: bs')
  case (Cons x bs)
  show ?case
  proof (cases "pid x = p")
    case True
    then show ?thesis using Cons.prems by (intro exI [of _ "[]"] exI [of _ bs']) simp
  next
    case False
    then obtain zs where zs: "bs' = x # zs" "take_pid p bs = Some (b, zs)"
      using Cons.prems by (auto split: option.splits)
    obtain us ys where "bs = us @ b # ys" "zs = us @ ys" "pid b = p" "\<forall>x\<in>set us. pid x \<noteq> p"
      using Cons.IH [OF zs(2)] by blast
    then show ?thesis using False zs(1) by (intro exI [of _ "x # us"] exI [of _ ys]) simp
  qed
qed simp

lemma take_pid_None: "take_pid p bs = None \<longleftrightarrow> (\<forall>b\<in>set bs. pid b \<noteq> p)"
  by (induction bs) (auto split: option.splits)

lemma bursts_split:
  "bursts h cs = xs @ b # ys \<Longrightarrow>
     \<exists>us c vs. cs = us @ c # vs \<and> bursts h us = xs \<and> burst h (snd c) = b \<and> bursts h vs = ys"
proof -
  assume "bursts h cs = xs @ b # ys"
  then obtain us ds where us: "cs = us @ ds" "bursts h us = xs" "bursts h ds = b # ys"
    by (auto simp: bursts_def map_eq_append_conv)
  then obtain c vs where "ds = c # vs" by (cases ds) auto
  then show ?thesis using us by (intro exI [of _ us] exI [of _ c] exI [of _ vs]) simp
qed

lemma dequeue_at_refines_aux:
  assumes "refines (h, q) Q"
  shows "case rq_dequeue_at Q p of
      None \<Rightarrow> dequeue_at (h, q) p = Some (0, h, q)
    | Some (b, Q') \<Rightarrow> \<exists>v hq'. dequeue_at (h, q) p = Some (v, hq') \<and> refines hq' Q' \<and>
        get_item h v = Some b \<and> items (fst hq') = items h"
proof -
  obtain cs where cs: "queue_rep (h, q) cs" "rq Q = bursts h cs"
    and cnt: "rsize Q = qsize q" "rload Q = queueLoad q"
    using assms(1) by (auto simp: refines_def)
  show ?thesis
  proof (cases "take_pid p (rq Q)")
    case None
    then have "\<forall>c\<in>set cs. cell_pid h c \<noteq> p"
      using cs(2) by (auto simp: take_pid_None bursts_def cell_pid_def)
    then show ?thesis using None dequeue_at_none [OF cs(1)] by (simp add: rq_dequeue_at_def)
  next
    case (Some r)
    obtain b bs where r: "r = (b, bs)" by (cases r)
    have "take_pid p (rq Q) = Some (b, bs)" using Some r by simp
    from take_pid_Some [OF this]
    obtain xs ys where split: "rq Q = xs @ b # ys" "bs = xs @ ys" "pid b = p" "\<forall>x\<in>set xs. pid x \<noteq> p"
      by blast
    have "bursts h cs = xs @ b # ys" using split(1) cs(2) by simp
    from bursts_split [OF this]
    obtain us c vs where us: "cs = us @ c # vs" "bursts h us = xs" "burst h (snd c) = b" "bursts h vs = ys"
      by blast
    have "cell_pid h c = p" using split(3) us(3) by (simp add: cell_pid_def)
    moreover have "\<forall>x\<in>set us. cell_pid h x \<noteq> p"
      using split(4) unfolding us(2) [symmetric] by (simp add: cell_pid_def bursts_def)
    ultimately obtain h' q' where h': "dequeue_at (h, q) p = Some (snd c, h', q')"
      "dequeued (h, q) c (us @ vs) (h', q')"
      using dequeue_at_rep [OF cs(1) [unfolded us(1)]] by auto
    have "get_item h (snd c) = Some b"
      using rep_item [OF cs(1) [unfolded us(1)]] us(3) by simp
    then show ?thesis
      using Some r h' dequeued_refines [OF h'(2) _ cs(1) cnt] us split
      by (simp add: rq_dequeue_at_def dequeued_def)
  qed
qed

lemma sort_refines_aux:
  assumes "refines (h, q) Q"
  shows "\<exists>h'. sort_queue (h, q) = Some h' \<and> refines (h', q) (rq_sort Q) \<and> items h' = items h"
proof -
  obtain cs where cs: "queue_rep (h, q) cs" "rq Q = bursts h cs"
    and cnt: "rsize Q = qsize q" "rload Q = queueLoad q"
    using assms(1) by (auto simp: refines_def)
  note rep = queue_repD [OF cs(1)]
  show ?thesis
  proof (cases "cs = []")
    case True
    have "refines (h, q) (rq_sort Q)"
      unfolding refines_def using cs cnt True by (intro conjI exI [of _ "[]"]) (simp_all add: rq_sort_def)
    then show ?thesis using rep True by (simp add: sort_queue_def)
  next
    case False
    define ds where "ds = exch_sort (later_pid h) swap_items (map snd cs)"
    obtain h' where h': "sort_outer h (first_or 0 cs) = Some h'" "dll_seg h' 0 (put_items cs ds) 0"
      "items h' = items h" "brk h' = brk h" "\<forall>x. x \<notin> fst ` set cs \<longrightarrow> nodes h' x = nodes h x"
      using sort_outer_rep [OF rep(1) False rep(2,4)] ds_def by blast
    have len: "length ds = length cs" by (simp add: ds_def)
    have fsts: "map fst (put_items cs ds) = map fst cs" and snds: "map snd (put_items cs ds) = ds"
      using len by simp_all
    have sets: "set ds = snd ` set cs"
      using arg_cong [OF pid_sort_mset [of h "map snd cs"], of set_mset] by (simp add: ds_def)
    have "last_or 0 (put_items cs ds) = last_or 0 cs"
    proof -
      have "last (map fst (put_items cs ds)) = last (map fst cs)" using fsts by simp
      moreover have "put_items cs ds \<noteq> []" using False len by (cases ds) auto
      ultimately show ?thesis using False last_map [of "put_items cs ds" fst] last_map [of cs fst]
        unfolding last_or_def by metis
    qed
    moreover have "heap_ok h'"
      unfolding heap_ok_def
    proof (intro conjI allI impI)
      show "brk h' \<noteq> 0" using rep(3) h'(4) by (simp add: heap_ok_def)
      fix a assume a: "brk h' \<le> a"
      have "a \<notin> fst ` set cs" using below_brk [OF rep(1,3)] a h'(4) by fastforce
      then have "nodes h' a = nodes h a" using h'(5) by blast
      then show "nodes h' a = None" using rep(3) a h'(4) by (simp add: heap_ok_def)
    qed
    moreover have "items_ok h' (put_items cs ds)"
    proof -
      have "\<forall>x\<in>set ds. get_item h x \<noteq> None"
        using rep(4) unfolding sets by (simp add: items_ok_def)
      moreover have "get_item h' = get_item h" using h'(3) by (simp add: get_item_def fun_eq_iff)
      moreover have "snd c \<in> set ds" if "c \<in> set (put_items cs ds)" for c
        using that set_zip_rightD [of "fst c" "snd c" "map fst cs" ds] by simp
      ultimately show ?thesis unfolding items_ok_def by simp
    qed
    ultimately have "queue_rep (h', q) (put_items cs ds)"
      using h'(2) rep(2,5-7) fsts len first_or_put_items [OF len, of 0] by (simp add: queue_rep_def)
    moreover have "exch_sort pid_after swap_bursts (bursts h cs) = bursts h' (put_items cs ds)"
    proof -
      have "exch_sort pid_after swap_bursts (map (burst h) (map snd cs)) = map (burst h) ds"
        unfolding ds_def
        by (rule exch_sort_map) (simp_all add: pid_after_def later_pid_def swap_bursts_def swap_items_def)
      also have "\<dots> = map (burst h) (map snd (put_items cs ds))" unfolding snds ..
      finally show ?thesis by (simp add: bursts_def burst_same [OF h'(3)] comp_def)
    qed
    ultimately show ?thesis
      using h'(1,3) rep(5) first_or_nonzero [OF rep(1) False, of 0] cs(2) cnt
      by (auto simp: sort_queue_def refines_def rq_sort_def)
  qed
qed

subsection \<open>What the scheduler relies on\<close>

fun feed :: "('q \<Rightarrow> 'v \<Rightarrow> 'q option) \<Rightarrow> 'q \<Rightarrow> 'v list \<Rightarrow> 'q option" where
  "feed enq q [] = Some q"
| "feed enq q (v # vs) = (case enq q v of None \<Rightarrow> None | Some q' \<Rightarrow> feed enq q' vs)"

fun drain :: "('q \<Rightarrow> ('v \<times> 'q) option) \<Rightarrow> nat \<Rightarrow> 'q \<Rightarrow> ('v list \<times> 'q) option" where
  "drain deq 0 q = Some ([], q)"
| "drain deq (Suc n) q =
     (case deq q of None \<Rightarrow> None
      | Some (v, q') \<Rightarrow> (case drain deq n q' of None \<Rightarrow> None | Some (vs, q'') \<Rightarrow> Some (v # vs, q'')))"

lemma feed_append:
  "feed enq q (vs @ ws) = (case feed enq q vs of None \<Rightarrow> None | Some q' \<Rightarrow> feed enq q' ws)"
  by (induction vs arbitrary: q) (auto split: option.splits)

locale burst_queue =
  fixes rep :: "'q \<Rightarrow> BurstItem list \<Rightarrow> bool"
    and enq :: "'q \<Rightarrow> 'v \<Rightarrow> 'q option"
    and deq :: "'q \<Rightarrow> ('v \<times> 'q) option"
    and val :: "'q \<Rightarrow> 'v \<Rightarrow> BurstItem option"
  assumes enq: "rep q bs \<Longrightarrow> one_mark bs \<Longrightarrow> val q v = Some b \<Longrightarrow>
      \<exists>q'. enq q v = Some q' \<and> rep q' (ins_burst b bs) \<and> val q' = val q"
    and deq: "rep q (b # bs) \<Longrightarrow>
      \<exists>v q'. deq q = Some (v, q') \<and> val q v = Some b \<and> rep q' bs \<and> val q' = val q"
begin

definition items_of :: "'q \<Rightarrow> 'v list \<Rightarrow> BurstItem list \<Rightarrow> bool" where
  "items_of q vs bs \<longleftrightarrow> map (val q) vs = map Some bs"

lemma feed_jobs:
  assumes "rep q (bs @ ms)" and "items_of q vs xs" and "\<forall>b\<in>set bs. \<not> mark b"
    and "\<forall>b\<in>set xs. \<not> mark b" and "ms = [] \<or> (\<exists>m. ms = [m] \<and> mark m)"
  shows "\<exists>q'. feed enq q vs = Some q' \<and> rep q' (bs @ xs @ ms) \<and> val q' = val q"
  using assms
proof (induction vs arbitrary: q bs xs)
  case (Cons v vs)
  then obtain x ys where x: "xs = x # ys" "val q v = Some x" "items_of q vs ys"
    by (auto simp: items_of_def map_eq_Cons_conv Cons_eq_map_conv)
  have "one_mark (bs @ ms)" using Cons.prems(3,5) by (auto simp: one_mark_def butlast_append dest: in_set_butlastD)
  moreover have "ins_burst x (bs @ ms) = (bs @ [x]) @ ms"
    using Cons.prems(3,5) by (cases bs rule: rev_cases) (auto simp: ins_burst_def butlast_append)
  ultimately obtain q' where q': "enq q v = Some q'" "rep q' ((bs @ [x]) @ ms)" "val q' = val q"
    using enq [OF Cons.prems(1) _ x(2)] by auto
  have "items_of q' vs ys" using x(3) q'(3) by (simp add: items_of_def)
  have "\<exists>q''. feed enq q' vs = Some q'' \<and> rep q'' ((bs @ [x]) @ ys @ ms) \<and> val q'' = val q'"
    by (rule Cons.IH [OF q'(2) \<open>items_of q' vs ys\<close>]) (use Cons.prems x(1) in auto)
  then show ?case using q' x(1) by auto
qed (simp add: items_of_def)

lemma drain_all:
  assumes "rep q bs"
  shows "\<exists>vs q'. drain deq (length bs) q = Some (vs, q') \<and> items_of q vs bs \<and> rep q' []"
  using assms
proof (induction bs arbitrary: q)
  case (Cons b bs)
  obtain v q' where q': "deq q = Some (v, q')" "val q v = Some b" "rep q' bs" "val q' = val q"
    using deq [OF Cons.prems] by blast
  obtain vs q'' where "drain deq (length bs) q' = Some (vs, q'')" "items_of q' vs bs" "rep q'' []"
    using Cons.IH [OF q'(3)] by blast
  then show ?case using q' by (auto simp: items_of_def)
qed (simp add: items_of_def)

text \<open>First in, first out, with the marker last whenever it was put in.\<close>

lemma fifo_marker_last:
  assumes "rep q []" and "items_of q vs xs" and "items_of q ws ys" and "val q k = Some m"
    and "\<forall>b\<in>set (xs @ ys). \<not> mark b" and "mark m"
  shows "\<exists>q' us q''. feed enq q (vs @ [k] @ ws) = Some q' \<and>
     drain deq (length (xs @ ys @ [m])) q' = Some (us, q'') \<and> items_of q us (xs @ ys @ [m]) \<and> rep q'' []"
proof -
  obtain q1 where q1: "feed enq q vs = Some q1" "rep q1 xs" "val q1 = val q"
    using feed_jobs [of q "[]" "[]" vs xs] assms(1,2,5) by auto
  have "one_mark xs" "ins_burst m xs = xs @ [m]"
    using assms(5) by (auto simp: one_mark_def ins_burst_def dest: in_set_butlastD)
  then obtain q2 where q2: "enq q1 k = Some q2" "rep q2 (xs @ [m])" "val q2 = val q"
    using enq [OF q1(2), of k m] assms(4) q1(3) by auto
  have "items_of q2 ws ys" using assms(3) q2(3) by (simp add: items_of_def)
  then obtain q3 where q3: "feed enq q2 ws = Some q3" "rep q3 (xs @ ys @ [m])" "val q3 = val q"
    using feed_jobs [OF q2(2), of ws ys] assms(5,6) q2(3) by auto
  obtain us q4 where q4: "drain deq (length (xs @ ys @ [m])) q3 = Some (us, q4)"
    "items_of q3 us (xs @ ys @ [m])" "rep q4 []"
    using drain_all [OF q3(2)] by blast
  have "feed enq q (vs @ [k] @ ws) = Some q3" by (simp add: feed_append q1 q2 q3)
  moreover have "items_of q us (xs @ ys @ [m])" using q4(2) q3(3) by (simp add: items_of_def)
  ultimately show ?thesis using q4(1,3) by blast
qed

end

definition heap_rep :: "qstate \<Rightarrow> BurstItem list \<Rightarrow> bool" where
  "heap_rep hq bs \<longleftrightarrow> (\<exists>cs. queue_rep hq cs \<and> bs = bursts (fst hq) cs)"

lemma heap_rep_refines:
  "heap_rep hq bs \<longleftrightarrow> refines hq \<lparr>rq = bs, rsize = qsize (snd hq), rload = queueLoad (snd hq)\<rparr>"
  by (simp add: heap_rep_def refines_def)

lemma refines_heap_rep: "refines hq Q \<Longrightarrow> heap_rep hq (rq Q)"
  by (auto simp: heap_rep_def refines_def)

interpretation heap_queue: burst_queue heap_rep enqueue dequeue "\<lambda>hq v. get_item (fst hq) v"
proof
  fix hq bs v b
  assume rep: "heap_rep hq bs" and mk: "one_mark bs" and v: "get_item (fst hq) v = Some b"
  obtain h q where hq: "hq = (h, q)" by (cases hq)
  let ?Q = "\<lparr>rq = bs, rsize = qsize q, rload = queueLoad q\<rparr>"
  have "refines (h, q) ?Q" using rep by (simp add: heap_rep_refines hq)
  moreover have "one_mark (rq ?Q)" using mk by simp
  ultimately obtain hq' where hq': "enqueue (h, q) v = Some hq'" "items (fst hq') = items h"
    "refines hq' (rq_enqueue ?Q b)"
    using enqueue_refines_aux [of h q ?Q v b] v hq by auto
  have "heap_rep hq' (ins_burst b bs)"
    using refines_heap_rep [OF hq'(3)] by (simp add: rq_enqueue_def)
  then show "\<exists>q'. enqueue hq v = Some q' \<and> heap_rep q' (ins_burst b bs) \<and>
      (\<lambda>v. get_item (fst q') v) = (\<lambda>v. get_item (fst hq) v)"
    using hq'(1,2) hq by (auto simp: get_item_def)
next
  fix hq b bs
  assume rep: "heap_rep hq (b # bs)"
  obtain h q where hq: "hq = (h, q)" by (cases hq)
  let ?Q = "\<lparr>rq = b # bs, rsize = qsize q, rload = queueLoad q\<rparr>"
  have "refines (h, q) ?Q" using rep by (simp add: heap_rep_refines hq)
  from dequeue_refines_aux [OF this]
  obtain v hq' Q' where "dequeue hq = Some (v, hq')" "get_item h v = Some b"
    "items (fst hq') = items h" "refines hq' Q'" "rq Q' = bs"
    by (auto simp: rq_dequeue_def hq)
  then show "\<exists>v q'. dequeue hq = Some (v, q') \<and> get_item (fst hq) v = Some b \<and> heap_rep q' bs \<and>
      (\<lambda>v. get_item (fst q') v) = (\<lambda>v. get_item (fst hq) v)"
    using refines_heap_rep [of hq' Q'] hq by (auto simp: get_item_def)
qed

interpretation list_queue: burst_queue "\<lambda>Q bs. rq Q = bs" "\<lambda>Q b. Some (rq_enqueue Q b)" rq_dequeue "\<lambda>_ b. Some b"
  by unfold_locales (auto simp: rq_enqueue_def rq_dequeue_def)

end
