(* ===== verification/QueueProperties.thy ===== *)
theory QueueProperties
  imports BurstQueue
begin

text \<open>
  The properties of the ready queue of \<open>readyqueue.c\<close>, with a concrete heap to apply them to.
\<close>

definition job :: "int \<Rightarrow> int \<Rightarrow> BurstItem" where
  "job p len = \<lparr>pid = p, burstLength = len, arrivalTime = 0, remainingTime = len, finishTime = -1,
     turnaroundTime = -1, processorId = 0\<rparr>"

definition marker_item :: BurstItem where
  "marker_item = \<lparr>pid = -1, burstLength = 0, arrivalTime = 0, remainingTime = 0, finishTime = 0,
     turnaroundTime = 0, processorId = 0\<rparr>"

text \<open>Items at 1 to 4, no node yet.\<close>

definition empty_example :: qstate where
  "empty_example = (\<lparr>nodes = (\<lambda>_. None), items = (\<lambda>_. None)(1 := Some (job 3 10), 2 := Some (job 1 20),
     3 := Some (job 2 5), 4 := Some marker_item), brk = 10\<rparr>,
     \<lparr>qhead = 0, qtail = 0, qsize = 0, queueLoad = 0\<rparr>)"

lemma empty_example_rep: "queue_rep empty_example []"
  by (simp add: empty_example_def queue_rep_def heap_ok_def)

lemma empty_example_refines: "refines empty_example \<lparr>rq = [], rsize = 0, rload = 0\<rparr>"
  unfolding refines_def using empty_example_rep
  by (intro conjI exI [of _ "[]"]) (simp_all add: empty_example_def)

lemma empty_example_items:
  "get_item (fst empty_example) 1 = Some (job 3 10)" "get_item (fst empty_example) 2 = Some (job 1 20)"
  "get_item (fst empty_example) 3 = Some (job 2 5)" "get_item (fst empty_example) 4 = Some marker_item"
  by (simp_all add: empty_example_def get_item_def)

text \<open>The queue after the items 1, 4 (the marker) and 2 have been put in.\<close>

definition queue_example :: qstate where
  "queue_example = the (feed enqueue empty_example [1, 4, 2])"

lemma refines_eta: "refines hq Q \<Longrightarrow> refines (fst hq, snd hq) Q"
  by simp

lemma queue_example_refines:
  "refines queue_example \<lparr>rq = [job 3 10, job 1 20, marker_item], rsize = 3, rload = 30\<rparr> \<and>
   items (fst queue_example) = items (fst empty_example)"
proof -
  let ?Q0 = "\<lparr>rq = [], rsize = 0, rload = 0\<rparr>" and ?Q1 = "\<lparr>rq = [job 3 10], rsize = 1, rload = 10\<rparr>"
  let ?Q2 = "\<lparr>rq = [job 3 10, marker_item], rsize = 2, rload = 10\<rparr>"
  let ?h0 = "fst empty_example"
  obtain q1 where q1: "enqueue empty_example 1 = Some q1" "refines q1 (rq_enqueue ?Q0 (job 3 10))"
    "items (fst q1) = items ?h0"
    using enqueue_refines_aux [OF refines_eta [OF empty_example_refines] _ empty_example_items(1)]
    by (auto simp: one_mark_def)
  have "rq_enqueue ?Q0 (job 3 10) = ?Q1" by code_simp
  then have r1: "refines (fst q1, snd q1) ?Q1" using q1(2) by simp
  have i1: "get_item (fst q1) = get_item ?h0" using q1(3) by (simp add: get_item_def fun_eq_iff)
  obtain q2 where q2: "enqueue q1 4 = Some q2" "refines q2 (rq_enqueue ?Q1 marker_item)"
    "items (fst q2) = items ?h0"
    using enqueue_refines_aux [OF r1, of 4 marker_item] empty_example_items(4) i1 q1(3)
    by (auto simp: one_mark_def)
  have "rq_enqueue ?Q1 marker_item = ?Q2" by code_simp
  then have r2: "refines (fst q2, snd q2) ?Q2" using q2(2) by simp
  have i2: "get_item (fst q2) = get_item ?h0" using q2(3) by (simp add: get_item_def fun_eq_iff)
  have "one_mark (rq ?Q2)" by code_simp
  then obtain q3 where q3: "enqueue q2 2 = Some q3" "refines q3 (rq_enqueue ?Q2 (job 1 20))"
    "items (fst q3) = items ?h0"
    using enqueue_refines_aux [OF r2, of 2 "job 1 20"] empty_example_items(2) i2 q2(3) by auto
  have "rq_enqueue ?Q2 (job 1 20) = \<lparr>rq = [job 3 10, job 1 20, marker_item], rsize = 3, rload = 30\<rparr>"
    by code_simp
  then show ?thesis
    using q1(1) q2(1) q3 by (simp add: queue_example_def)
qed

text \<open>C15: \<open>enqueue\<close> on a well-formed heap queue never follows a bad pointer, keeps the double
  links, the size and the load right, and appends the item, but before a marker at the end.\<close>

theorem enqueue_refines:
  assumes "refines hq Q" and "one_mark (rq Q)" and "get_item (fst hq) v = Some b"
  shows "\<exists>hq'. enqueue hq v = Some hq' \<and> items (fst hq') = items (fst hq) \<and>
    refines hq' \<lparr>rq = (if rq Q \<noteq> [] \<and> pid (last (rq Q)) = -1 then butlast (rq Q) @ [b, last (rq Q)]
                      else rq Q @ [b]),
                 rsize = rsize Q + 1, rload = rload Q + burstLength b\<rparr>"
proof -
  have "rq_enqueue Q b = \<lparr>rq = (if rq Q \<noteq> [] \<and> pid (last (rq Q)) = -1 then butlast (rq Q) @ [b, last (rq Q)]
                      else rq Q @ [b]),
                 rsize = rsize Q + 1, rload = rload Q + burstLength b\<rparr>"
    by (simp add: rq_enqueue_def ins_burst_def mark_def)
  then show ?thesis using enqueue_refines_aux [OF refines_eta [OF assms(1)] assms(2,3)] by auto
qed

theorem enqueue_refines_witness:
  "\<exists>hq'. enqueue queue_example 3 = Some hq' \<and>
     refines hq' \<lparr>rq = [job 3 10, job 1 20, job 2 5, marker_item], rsize = 4, rload = 35\<rparr>"
proof -
  have "one_mark (rq \<lparr>rq = [job 3 10, job 1 20, marker_item], rsize = 3, rload = 30\<rparr>)" by code_simp
  moreover have "get_item (fst queue_example) 3 = Some (job 2 5)"
    using conjunct2 [OF queue_example_refines] empty_example_items(3) by (simp add: get_item_def)
  ultimately show ?thesis
    using enqueue_refines [OF conjunct1 [OF queue_example_refines], of 3 "job 2 5"]
    by (auto simp: marker_item_def job_def)
qed

text \<open>C16: \<open>dequeue_at\<close> unlinks the first item with the given process id, whatever its position,
  and leaves the rest of the queue as it was; without such an item it returns \<open>NULL\<close> and
  changes nothing.\<close>

theorem dequeue_at_refines:
  assumes "refines hq Q"
  shows "(\<exists>xs b ys v hq'. rq Q = xs @ b # ys \<and> pid b = p \<and> (\<forall>x\<in>set xs. pid x \<noteq> p) \<and>
            dequeue_at hq p = Some (v, hq') \<and> get_item (fst hq) v = Some b \<and>
            refines hq' \<lparr>rq = xs @ ys, rsize = rsize Q - 1, rload = rload Q - burstLength b\<rparr>)
         \<or> (\<forall>b\<in>set (rq Q). pid b \<noteq> p) \<and> dequeue_at hq p = Some (0, hq)"
proof (cases "take_pid p (rq Q)")
  case None
  have "rq_dequeue_at Q p = None" using None by (simp add: rq_dequeue_at_def)
  then have "dequeue_at hq p = Some (0, hq)"
    using dequeue_at_refines_aux [OF refines_eta [OF assms], of p] by simp
  then show ?thesis using None by (simp add: take_pid_None)
next
  case (Some r)
  obtain b bs where r: "take_pid p (rq Q) = Some (b, bs)" using Some by (cases r) simp
  obtain xs ys where split: "rq Q = xs @ b # ys" "bs = xs @ ys" "pid b = p" "\<forall>x\<in>set xs. pid x \<noteq> p"
    using take_pid_Some [OF r] by blast
  have "rq_dequeue_at Q p = Some (b, \<lparr>rq = xs @ ys, rsize = rsize Q - 1, rload = rload Q - burstLength b\<rparr>)"
    using r split(2) by (simp add: rq_dequeue_at_def)
  then obtain v hq' where "dequeue_at hq p = Some (v, hq')" "get_item (fst hq) v = Some b"
    "refines hq' \<lparr>rq = xs @ ys, rsize = rsize Q - 1, rload = rload Q - burstLength b\<rparr>"
    using dequeue_at_refines_aux [OF refines_eta [OF assms], of p] by auto
  then show ?thesis using split by blast
qed

theorem dequeue_at_refines_witness:
  "\<exists>v hq'. dequeue_at queue_example 1 = Some (v, hq') \<and>
     get_item (fst queue_example) v = Some (job 1 20) \<and>
     refines hq' \<lparr>rq = [job 3 10, marker_item], rsize = 2, rload = 10\<rparr>"
proof -
  let ?bs = "[job 3 10, job 1 20, marker_item]"
  have split: "xs = [job 3 10] \<and> b = job 1 20 \<and> ys = [marker_item]"
    if "?bs = xs @ b # ys" and "pid b = 1" for xs b ys
  proof -
    have "pid (job 3 10) \<noteq> 1" "pid marker_item \<noteq> 1" by (simp_all add: job_def marker_item_def)
    then show ?thesis using that by (auto simp: Cons_eq_append_conv append_eq_Cons_conv)
  qed
  have "pid (job 1 20) = 1" "burstLength (job 1 20) = 20" by (simp_all add: job_def)
  then obtain xs b ys v hq' where r: "?bs = xs @ b # ys" "pid b = 1"
    "dequeue_at queue_example 1 = Some (v, hq')" "get_item (fst queue_example) v = Some b"
    "refines hq' \<lparr>rq = xs @ ys, rsize = 3 - 1, rload = 30 - burstLength b\<rparr>"
    using dequeue_at_refines [OF conjunct1 [OF queue_example_refines], of 1] by fastforce
  have "refines hq' \<lparr>rq = [job 3 10, marker_item], rsize = 2, rload = 10\<rparr>"
    using r(5) split [OF r(1,2)] by (simp add: job_def)
  then show ?thesis using r(3,4) split [OF r(1,2)] by blast
qed

text \<open>C17: \<open>sort\<close> ends on every well-formed queue, follows no bad pointer, and leaves the same
  items ordered by process id.\<close>

theorem sort_sorts:
  assumes "refines hq Q"
  shows "\<exists>h' bs. sort_queue hq = Some h' \<and> refines (h', snd hq) (Q\<lparr>rq := bs\<rparr>) \<and>
           sorted (map pid bs) \<and> mset bs = mset (rq Q) \<and> items h' = items (fst hq)"
proof -
  obtain h' where h': "sort_queue hq = Some h'" "refines (h', snd hq) (rq_sort Q)" "items h' = items (fst hq)"
    using sort_refines_aux [OF refines_eta [OF assms]] by auto
  have "sorted (map pid (rq (rq_sort Q)))"
    using burst_order.sort_sorted [of "rq Q"] by (simp add: rq_sort_def sorted_map)
  moreover have "mset (rq (rq_sort Q)) = mset (rq Q)"
    using burst_order.sort_mset [of "rq Q"] by (simp add: rq_sort_def)
  moreover have "rq_sort Q = Q\<lparr>rq := rq (rq_sort Q)\<rparr>" by (simp add: rq_sort_def)
  ultimately show ?thesis using h' by metis
qed

theorem sort_sorts_witness:
  "\<exists>h' bs. sort_queue queue_example = Some h' \<and> sorted (map pid bs) \<and>
     mset bs = {#job 3 10, job 1 20, marker_item#} \<and>
     refines (h', snd queue_example) \<lparr>rq = bs, rsize = 3, rload = 30\<rparr>"
  using sort_sorts [OF conjunct1 [OF queue_example_refines]] by fastforce

text \<open>C18: a queue serves first in, first out: with jobs put in before and after the stop marker,
  the processor takes out all jobs in the order they came and the marker after them.\<close>

theorem queue_fifo_marker_last:
  assumes "heap_rep hq []" and "map (get_item (fst hq)) vs = map Some xs"
    and "map (get_item (fst hq)) ws = map Some ys" and "get_item (fst hq) k = Some m"
    and "\<forall>b\<in>set (xs @ ys). pid b \<noteq> -1" and "pid m = -1"
  shows "\<exists>hq' us hq''. feed enqueue hq (vs @ [k] @ ws) = Some hq' \<and>
     drain dequeue (length (xs @ ys @ [m])) hq' = Some (us, hq'') \<and>
     map (get_item (fst hq)) us = map Some (xs @ ys @ [m]) \<and> heap_rep hq'' []"
  using heap_queue.fifo_marker_last [OF assms(1), of vs xs ws ys k m] assms(2-)
  by (simp add: heap_queue.items_of_def mark_def)

theorem queue_fifo_marker_last_witness:
  "\<exists>hq' us hq''. feed enqueue empty_example [1, 2, 4, 3] = Some hq' \<and>
     drain dequeue 4 hq' = Some (us, hq'') \<and>
     map (get_item (fst empty_example)) us = map Some [job 3 10, job 1 20, job 2 5, marker_item]"
proof -
  have "heap_rep empty_example []" using refines_heap_rep [OF empty_example_refines] by simp
  moreover have "map (get_item (fst empty_example)) [1, 2] = map Some [job 3 10, job 1 20]"
    and "map (get_item (fst empty_example)) [3] = map Some [job 2 5]"
    using empty_example_items by (simp_all only: list.map)
  moreover have "\<forall>b\<in>set ([job 3 10, job 1 20] @ [job 2 5]). pid b \<noteq> -1" "pid marker_item = -1"
    by (simp_all add: job_def marker_item_def)
  ultimately obtain hq' us hq'' where
    "feed enqueue empty_example ([1, 2] @ [4] @ [3]) = Some hq'"
    "drain dequeue (length ([job 3 10, job 1 20] @ [job 2 5] @ [marker_item])) hq' = Some (us, hq'')"
    "map (get_item (fst empty_example)) us = map Some ([job 3 10, job 1 20] @ [job 2 5] @ [marker_item])"
    using queue_fifo_marker_last [of empty_example "[1, 2]" "[job 3 10, job 1 20]" "[3]" "[job 2 5]" 4 marker_item]
      empty_example_items(4) by blast
  moreover have "[1, 2] @ [4] @ [3] = [1, 2, 4, 3 :: addr]"
    and "[job 3 10, job 1 20] @ [job 2 5] @ [marker_item] = [job 3 10, job 1 20, job 2 5, marker_item]"
    and "length [job 3 10, job 1 20, job 2 5, marker_item] = 4"
    by simp_all
  ultimately show ?thesis by (simp only:) blast
qed

end
