(* ===== verification/Sched.thy ===== *)
theory Sched
  imports BurstQueue CString
begin

text \<open>
  The scheduler simulator, \<open>p2/22002379-22003430/sched.c\<close>: the processor threads (\<open>cpu\<close>), the
  thread that feeds the queues (\<open>parse_and_enqueue\<close>, \<open>sched_random\<close>) and \<open>schedule\<close>.

  \<^item> The queues are those of theory \<open>BurstQueue\<close>, which the heap model of \<open>readyqueue.c\<close>
    refines; a burst is owned by one queue or one thread at a time, so a record stands for the
    pointer.
  \<^item> The clock counts microseconds since the epoch; \<open>get_time_diff\<close> is the millisecond
    reading the code computes from it. \<open>usleep\<close> becomes the earliest time the thread goes on.
  \<^item> \<open>sched_act\<close> is one atomic action of one thread (what runs with the queue's mutex held, or
    between two sleeps), or the passing of time. A run is any sequence of them.
  \<^item> \<open>junk_load\<close> and \<open>junk_cpu\<close> stand for memory the code reads without having written it: the
    load of a new queue, and the processor of a burst that \<open>sched_random\<close> puts in a single
    queue. The finished queue, which \<open>main\<close> does not initialise either, starts empty here.
\<close>

datatype SchedulingAlgorithm = ALG_FCFS | ALG_SJF | ALG_RR
datatype SchedulingApproach = SAP_MULTI | SAP_SINGLE
datatype OutputMode = CLEAN | INFO | RICH | OFILE
datatype QueueSelection = QS_NA | QS_RM | QS_LM
datatype ScheduleSource = SOURCE_FILE | SOURCE_RANDOM

record SchedProps =
  N :: int
  Q :: int
  T :: int
  T1 :: int
  T2 :: int
  L :: int
  L1 :: int
  L2 :: int
  PC :: int
  outmode :: int
  sap :: SchedulingApproach
  qs :: QueueSelection
  alg :: SchedulingAlgorithm
  infile :: string
  outfile :: string
  source :: ScheduleSource
  start :: int
  junk_load :: "nat \<Rightarrow> int"
  junk_cpu :: int

abbreviation ncpus :: "SchedProps \<Rightarrow> nat" where "ncpus props \<equiv> nat (N props)"

definition queuesSize :: "SchedProps \<Rightarrow> nat" where
  "queuesSize props = (if sap props = SAP_SINGLE then 1 else ncpus props)"

subsection \<open>Time\<close>

definition tv_sec :: "int \<Rightarrow> int" where "tv_sec t = t div 1000000"
definition tv_usec :: "int \<Rightarrow> int" where "tv_usec t = t mod 1000000"

text \<open>Integer division of C rounds towards zero.\<close>

definition c_div :: "int \<Rightarrow> int \<Rightarrow> int" where
  "c_div a b = (if a < 0 then - ((- a) div b) else a div b)"

definition get_current_time :: "int \<Rightarrow> int" where
  "get_current_time cur = tv_sec cur * 1000 + c_div (tv_usec cur) 1000"

definition get_time_diff :: "int \<Rightarrow> int \<Rightarrow> int" where
  "get_time_diff st cur = (tv_sec cur - tv_sec st) * 1000 + c_div (tv_usec cur - tv_usec st) 1000"

subsection \<open>The input\<close>

text \<open>What the feeding thread does, in order; \<open>CRASH\<close> is \<open>atoi(NULL)\<close>, undefined behaviour.\<close>

datatype event = PL int | IAT int | UNKNOWN | CRASH

fun read_events :: "string list \<Rightarrow> event list" where
  "read_events [] = []"
| "read_events (w # ws) =
     (if strcmp w ''PL'' = 0 then
        (case ws of [] \<Rightarrow> [CRASH] | n # us \<Rightarrow> PL (atoi n) # read_events us)
      else if strcmp w ''IAT'' = 0 then
        (case ws of [] \<Rightarrow> [CRASH] | n # us \<Rightarrow> IAT (atoi n) # read_events us)
      else UNKNOWN # read_events ws)"

definition parse_text :: "string \<Rightarrow> event list" where
  "parse_text buf = read_events (strtok_all buf)"

text \<open>
  \<open>sched_random\<close> alternates bursts and pauses; \<open>rnd i\<close> is what \<open>generateRandom\<close> returns for
  the i-th of them.
\<close>

definition random_events :: "(nat \<Rightarrow> int) \<Rightarrow> int \<Rightarrow> event list" where
  "random_events rnd pc = map (\<lambda>i. if i mod 2 = 0 then PL (rnd i) else IAT (rnd i)) [0..<nat (2 * pc - 1)]"

subsection \<open>The state of a run\<close>

text \<open>
  A processor looks at its queue, or sleeps with a burst until a time, to put the burst back
  afterwards or to finish it, or has left its loop.
\<close>

datatype cpu_state = Polling | Executing BurstItem int bool | Exited

record sched_sys =
  queues :: "RQueue list"
  finishedQueue :: RQueue
  cpus :: "cpu_state list"
  events :: "event list"
  to_mark :: "nat list"     \<comment> \<open>queues that have yet to receive their marker, in order\<close>
  feeder_wake :: int
  nextPid :: int
  queueIdx :: nat
  clock :: int

definition empty_queue :: "int \<Rightarrow> RQueue" where
  "empty_queue load = \<lparr>rq = [], rsize = 0, rload = load\<rparr>"

text \<open>
  The state in which \<open>schedule\<close> has created the queues and threads. \<open>opened\<close> says whether the
  input file could be opened: if not, \<open>parse_and_enqueue\<close> returns at once.
\<close>

definition sched_boot :: "SchedProps \<Rightarrow> event list \<Rightarrow> bool \<Rightarrow> sched_sys" where
  "sched_boot props es opened =
     \<lparr>queues = map (\<lambda>k. empty_queue (junk_load props k)) [0..<queuesSize props],
      finishedQueue = empty_queue 0,
      cpus = replicate (ncpus props) Polling,
      events = (if opened then es else []),
      to_mark = (if opened then [0..<queuesSize props] else []),
      feeder_wake = start props, nextPid = 1, queueIdx = 0, clock = start props\<rparr>"

subsection \<open>Feeding the queues\<close>

definition new_burst :: "SchedProps \<Rightarrow> sched_sys \<Rightarrow> int \<Rightarrow> BurstItem" where
  "new_burst props \<sigma> len =
     \<lparr>pid = nextPid \<sigma>, burstLength = len, arrivalTime = get_time_diff (start props) (clock \<sigma>),
      remainingTime = len, finishTime = -1, turnaroundTime = -1, processorId = junk_cpu props\<rparr>"

definition stop_item :: BurstItem where
  "stop_item = \<lparr>pid = -1, burstLength = 0, arrivalTime = 0, remainingTime = 0, finishTime = 0,
     turnaroundTime = 0, processorId = 0\<rparr>"

text \<open>The loop that looks for the least loaded queue, of \<open>parse_and_enqueue\<close>.\<close>

definition least_loaded :: "RQueue list \<Rightarrow> nat \<Rightarrow> nat" where
  "least_loaded ques n =
     fst (fold (\<lambda>i (idx, ld). if rload (ques ! i) < ld then (i, rload (ques ! i)) else (idx, ld))
            [0..<n] (0, rload (ques ! 0)))"

text \<open>Its copy in \<open>sched_random\<close>, which compares the number of items with a load.\<close>

definition least_loaded_random :: "RQueue list \<Rightarrow> nat \<Rightarrow> nat" where
  "least_loaded_random ques n =
     fst (fold (\<lambda>i (idx, ld). if rsize (ques ! i) < ld then (i, rload (ques ! i)) else (idx, ld))
            [1..<n] (0, rload (ques ! 0)))"

definition enqueue_at :: "nat \<Rightarrow> BurstItem \<Rightarrow> RQueue list \<Rightarrow> RQueue list" where
  "enqueue_at i b ques = ques[i := rq_enqueue (ques ! i) b]"

text \<open>The queue that gets the next burst, and whether the burst's processor is set.\<close>

definition choose_queue :: "SchedProps \<Rightarrow> sched_sys \<Rightarrow> nat" where
  "choose_queue props \<sigma> =
     (case qs props of
        QS_RM \<Rightarrow> queueIdx \<sigma>
      | QS_LM \<Rightarrow> (case source props of
            SOURCE_FILE \<Rightarrow> least_loaded (queues \<sigma>) (queuesSize props)
          | SOURCE_RANDOM \<Rightarrow> least_loaded_random (queues \<sigma>) (queuesSize props))
      | QS_NA \<Rightarrow> 0)"

definition sets_processor :: "SchedProps \<Rightarrow> bool" where
  "sets_processor props \<longleftrightarrow> \<not> (qs props = QS_NA \<and> source props = SOURCE_RANDOM)"

definition feed_burst :: "SchedProps \<Rightarrow> sched_sys \<Rightarrow> int \<Rightarrow> sched_sys" where
  "feed_burst props \<sigma> len =
     (let bi = new_burst props \<sigma> len; i = choose_queue props \<sigma>;
          bi' = (if sets_processor props then bi\<lparr>processorId := int i\<rparr> else bi)
      in \<sigma>\<lparr>queues := enqueue_at i bi' (queues \<sigma>), nextPid := nextPid \<sigma> + 1,
            queueIdx := (if qs props = QS_RM then (queueIdx \<sigma> + 1) mod queuesSize props
                         else queueIdx \<sigma>)\<rparr>)"

fun feeder_step :: "SchedProps \<Rightarrow> sched_sys \<Rightarrow> sched_sys option" where
  "feeder_step props \<sigma> =
     (if clock \<sigma> < feeder_wake \<sigma> then None
      else case events \<sigma> of
        PL len # es \<Rightarrow> Some (feed_burst props (\<sigma>\<lparr>events := es\<rparr>) len)
      | IAT ms # es \<Rightarrow> Some (\<sigma>\<lparr>events := es, feeder_wake := clock \<sigma> + ms * 1000\<rparr>)
      | UNKNOWN # es \<Rightarrow> Some (\<sigma>\<lparr>events := es\<rparr>)
      | CRASH # es \<Rightarrow> None
      | [] \<Rightarrow> (case to_mark \<sigma> of
            [] \<Rightarrow> None
          | i # is \<Rightarrow> Some (\<sigma>\<lparr>queues := enqueue_at i stop_item (queues \<sigma>), to_mark := is\<rparr>)))"

subsection \<open>The processors\<close>

definition cpu_queue :: "SchedProps \<Rightarrow> nat \<Rightarrow> nat" where
  "cpu_queue props i = (if sap props = SAP_SINGLE then 0 else i)"

definition head_is_marker :: "RQueue \<Rightarrow> bool" where
  "head_is_marker q = (case rq q of [] \<Rightarrow> False | b # _ \<Rightarrow> pid b = -1)"

text \<open>
  What a processor takes from the queue, the burst after the updates made before the sleep, the
  time it sleeps, and whether it puts the burst back. The result is None where the code would
  dereference a \<open>NULL\<close> burst.
\<close>

definition fcfs_turn :: "int \<Rightarrow> RQueue \<Rightarrow> (RQueue \<times> BurstItem \<times> int \<times> bool) option" where
  "fcfs_turn cpuIdx q =
     (case rq_dequeue q of None \<Rightarrow> None
      | Some (b, q') \<Rightarrow> Some (q', b\<lparr>remainingTime := 0, processorId := cpuIdx\<rparr>, burstLength b, False))"

fun sjf_scan :: "BurstItem \<Rightarrow> BurstItem list \<Rightarrow> BurstItem" where
  "sjf_scan shortest [] = shortest"
| "sjf_scan shortest (cur # rest) =
     sjf_scan (if pid cur \<noteq> -1 \<and> remainingTime cur < remainingTime shortest then cur else shortest) rest"

definition sjf_turn :: "int \<Rightarrow> RQueue \<Rightarrow> (RQueue \<times> BurstItem \<times> int \<times> bool) option" where
  "sjf_turn cpuIdx q =
     (case rq q of [] \<Rightarrow> None
      | h # _ \<Rightarrow>
          (case rq_dequeue_at q (pid (sjf_scan h (rq q))) of None \<Rightarrow> None
           | Some (b, q') \<Rightarrow>
               Some (q', b\<lparr>remainingTime := 0, processorId := cpuIdx\<rparr>, remainingTime b, False)))"

definition rr_turn :: "int \<Rightarrow> RQueue \<Rightarrow> (RQueue \<times> BurstItem \<times> int \<times> bool) option" where
  "rr_turn quantum q =
     (case rq_dequeue q of None \<Rightarrow> None
      | Some (b, q') \<Rightarrow>
          if remainingTime b > quantum
          then Some (q', b\<lparr>remainingTime := remainingTime b - quantum\<rparr>, quantum, True)
          else Some (q', b\<lparr>remainingTime := 0\<rparr>, remainingTime b, False))"

definition cpu_turn :: "SchedProps \<Rightarrow> nat \<Rightarrow> RQueue \<Rightarrow> (RQueue \<times> BurstItem \<times> int \<times> bool) option" where
  "cpu_turn props i q =
     (case alg props of
        ALG_FCFS \<Rightarrow> fcfs_turn (int i) q
      | ALG_SJF \<Rightarrow> sjf_turn (int i) q
      | ALG_RR \<Rightarrow> rr_turn (Q props) q)"

definition finish_burst :: "SchedProps \<Rightarrow> nat \<Rightarrow> int \<Rightarrow> BurstItem \<Rightarrow> BurstItem" where
  "finish_burst props i now b =
     (let b1 = b\<lparr>finishTime := get_time_diff (start props) now\<rparr>;
          b2 = b1\<lparr>turnaroundTime := finishTime b1 - arrivalTime b1\<rparr>
      in if alg props = ALG_RR then b2\<lparr>processorId := int i\<rparr> else b2)"

definition cpu_step :: "SchedProps \<Rightarrow> sched_sys \<Rightarrow> nat \<Rightarrow> sched_sys option" where
  "cpu_step props \<sigma> i =
     (let k = cpu_queue props i; q = queues \<sigma> ! k in
      case cpus \<sigma> ! i of
        Polling \<Rightarrow>
          if head_is_marker q then Some (\<sigma>\<lparr>cpus := (cpus \<sigma>)[i := Exited]\<rparr>)
          else if rsize q > 0 then
            (case cpu_turn props i q of None \<Rightarrow> None
             | Some (q', b, t, again) \<Rightarrow>
                 Some (\<sigma>\<lparr>queues := (queues \<sigma>)[k := q'],
                         cpus := (cpus \<sigma>)[i := Executing b (clock \<sigma> + t * 1000) again]\<rparr>))
          else None
      | Executing b until again \<Rightarrow>
          if clock \<sigma> < until then None
          else if again
          then Some (\<sigma>\<lparr>queues := enqueue_at k b (queues \<sigma>), cpus := (cpus \<sigma>)[i := Polling]\<rparr>)
          else Some (\<sigma>\<lparr>finishedQueue := rq_enqueue (finishedQueue \<sigma>) (finish_burst props i (clock \<sigma>) b),
                       cpus := (cpus \<sigma>)[i := Polling]\<rparr>)
      | Exited \<Rightarrow> None)"

subsection \<open>Runs\<close>

datatype action = Tick nat | Feed | Cpu nat

definition sched_act :: "SchedProps \<Rightarrow> sched_sys \<Rightarrow> action \<Rightarrow> sched_sys option" where
  "sched_act props \<sigma> a =
     (case a of
        Tick d \<Rightarrow> Some (\<sigma>\<lparr>clock := clock \<sigma> + int d\<rparr>)
      | Feed \<Rightarrow> feeder_step props \<sigma>
      | Cpu i \<Rightarrow> if i < ncpus props then cpu_step props \<sigma> i else None)"

fun sched_run :: "SchedProps \<Rightarrow> sched_sys \<Rightarrow> action list \<Rightarrow> sched_sys option" where
  "sched_run props \<sigma> [] = Some \<sigma>"
| "sched_run props \<sigma> (a # as) =
     (case sched_act props \<sigma> a of None \<Rightarrow> None | Some \<sigma>' \<Rightarrow> sched_run props \<sigma>' as)"

inductive sched_reachable :: "SchedProps \<Rightarrow> event list \<Rightarrow> bool \<Rightarrow> sched_sys \<Rightarrow> bool"
  for props es opened
where
  boot: "sched_reachable props es opened (sched_boot props es opened)"
| act: "sched_reachable props es opened \<sigma> \<Longrightarrow> sched_act props \<sigma> a = Some \<sigma>' \<Longrightarrow>
    sched_reachable props es opened \<sigma>'"

lemma sched_run_reachable:
  "sched_run props \<sigma> as = Some \<sigma>' \<Longrightarrow> sched_reachable props es opened \<sigma> \<Longrightarrow>
     sched_reachable props es opened \<sigma>'"
  by (induction props \<sigma> as rule: sched_run.induct) (auto split: option.splits intro: act)

subsection \<open>The report\<close>

text \<open>
  After the threads have been joined: the table rows (pid, cpu, burst length, arrival, finish,
  waiting time, turnaround) and the average, which divides by the number of finished bursts.
\<close>

definition joined :: "sched_sys \<Rightarrow> bool" where
  "joined \<sigma> = list_all (\<lambda>c. c = Exited) (cpus \<sigma>)"

definition report_rows :: "RQueue \<Rightarrow> (int \<times> int \<times> int \<times> int \<times> int \<times> int \<times> int) list" where
  "report_rows fin =
     map (\<lambda>b. (pid b, processorId b, burstLength b, arrivalTime b, finishTime b,
               turnaroundTime b - burstLength b, turnaroundTime b)) (rq (rq_sort fin))"

definition report_average :: "RQueue \<Rightarrow> int option" where
  "report_average fin =
     (if rsize fin = 0 then None
      else Some (c_div (fold (\<lambda>b sum. sum + turnaroundTime b) (rq (rq_sort fin)) 0) (rsize fin)))"

end
