(* ===== verification/SchedInvariants.thy ===== *)
theory SchedInvariants
  imports Sched
begin

text \<open>
  The invariant of a run of the scheduler: no burst is lost or duplicated, every queue is its
  jobs followed by its marker once that has been put in, its counters are right, and every
  burst has been slept for as long as the part of it that is done.
\<close>

subsection \<open>Where the bursts are\<close>

definition bkey :: "BurstItem \<Rightarrow> int \<times> int" where
  "bkey b = (pid b, burstLength b)"

fun numbered :: "int \<Rightarrow> event list \<Rightarrow> (int \<times> int) list" where
  "numbered k [] = []"
| "numbered k (PL len # es) = (k, len) # numbered (k + 1) es"
| "numbered k (_ # es) = numbered k es"

definition queue_bag :: "RQueue \<Rightarrow> BurstItem multiset" where
  "queue_bag q = mset (filter (\<lambda>b. \<not> mark b) (rq q))"

definition cpu_bag :: "cpu_state \<Rightarrow> BurstItem multiset" where
  "cpu_bag c = (case c of Executing b _ _ \<Rightarrow> {#b#} | _ \<Rightarrow> {#})"

definition bag :: "sched_sys \<Rightarrow> BurstItem multiset" where
  "bag \<sigma> = sum_list (map queue_bag (queues \<sigma>)) + sum_list (map cpu_bag (cpus \<sigma>))
     + mset (rq (finishedQueue \<sigma>))"

lemma sum_list_upd:
  fixes f :: "'a \<Rightarrow> 'b :: comm_monoid_add"
  assumes "i < length xs"
  shows "sum_list (map f (xs[i := y])) + f (xs ! i) = sum_list (map f xs) + f y"
  using assms
proof (induction xs arbitrary: i)
  case (Cons x xs)
  then show ?case by (cases i) (auto simp: ac_simps)
qed simp

lemma sum_list_upd_same:
  fixes f :: "'a \<Rightarrow> 'b multiset"
  assumes "i < length xs" and "f y = f (xs ! i)"
  shows "sum_list (map f (xs[i := y])) = sum_list (map f xs)"
  using sum_list_upd [OF assms(1), of f y] assms(2) by simp

lemma sum_list_upd_add:
  fixes f :: "'a \<Rightarrow> 'b multiset"
  assumes "i < length xs" and "f y = f (xs ! i) + z"
  shows "sum_list (map f (xs[i := y])) = sum_list (map f xs) + z"
  using sum_list_upd [OF assms(1), of f y] assms(2) by (simp add: ac_simps)

lemma sum_list_upd_del:
  fixes f :: "'a \<Rightarrow> 'b multiset"
  assumes "i < length xs" and "f (xs ! i) = f y + z"
  shows "sum_list (map f (xs[i := y])) + z = sum_list (map f xs)"
  using sum_list_upd [OF assms(1), of f y] assms(2) by (simp add: ac_simps)

lemma image_mset_swap: "A + {#b#} = B + {#c#} \<Longrightarrow> f c = f b \<Longrightarrow> image_mset f A = image_mset f B"
  by (metis add_mset_add_single add_right_cancel image_mset_add_mset)

subsection \<open>Time spent\<close>

text \<open>
  Until \<open>t\<close> at least the part of \<open>b\<close> that is done has passed since the burst's arrival was
  read from the clock.
\<close>

definition served :: "int \<Rightarrow> int \<Rightarrow> BurstItem \<Rightarrow> bool" where
  "served st t b \<longleftrightarrow> 0 \<le> remainingTime b \<and> remainingTime b \<le> burstLength b \<and>
     (\<exists>t0. arrivalTime b = get_time_diff st t0 \<and> t0 + 1000 * (burstLength b - remainingTime b) \<le> t)"

definition finished_ok :: "int \<Rightarrow> int \<Rightarrow> BurstItem \<Rightarrow> bool" where
  "finished_ok st t b \<longleftrightarrow> remainingTime b = 0 \<and> turnaroundTime b = finishTime b - arrivalTime b \<and>
     (\<exists>t0 t1. arrivalTime b = get_time_diff st t0 \<and> finishTime b = get_time_diff st t1 \<and>
        t0 + 1000 * burstLength b \<le> t1 \<and> t1 \<le> t)"

fun cpu_ok :: "int \<Rightarrow> cpu_state \<Rightarrow> bool" where
  "cpu_ok st (Executing b until again) = (\<not> mark b \<and> served st until b \<and> (again \<or> remainingTime b = 0))"
| "cpu_ok st _ = True"

lemma served_mono: "served st t b \<Longrightarrow> t \<le> t' \<Longrightarrow> served st t' b"
  unfolding served_def by (meson order_trans)

lemma finished_mono: "finished_ok st t b \<Longrightarrow> t \<le> t' \<Longrightarrow> finished_ok st t' b"
  unfolding finished_ok_def by (meson order_trans)

subsection \<open>The queues\<close>

definition marker_of :: "bool \<Rightarrow> sched_sys \<Rightarrow> nat \<Rightarrow> BurstItem list" where
  "marker_of opened \<sigma> k = (if opened \<and> k \<notin> set (to_mark \<sigma>) then [stop_item] else [])"

definition queue_ok :: "SchedProps \<Rightarrow> int \<Rightarrow> BurstItem list \<Rightarrow> RQueue \<Rightarrow> bool" where
  "queue_ok props t ms q \<longleftrightarrow>
     (\<exists>js. rq q = js @ ms \<and> (\<forall>b\<in>set js. \<not> mark b \<and> served (start props) t b)) \<and>
     rsize q = int (length (rq q))"

definition sched_inv :: "SchedProps \<Rightarrow> event list \<Rightarrow> bool \<Rightarrow> sched_sys \<Rightarrow> bool" where
  "sched_inv props es opened \<sigma> \<longleftrightarrow>
     length (queues \<sigma>) = queuesSize props \<and> length (cpus \<sigma>) = ncpus props \<and>
     (\<forall>k<queuesSize props. queue_ok props (clock \<sigma>) (marker_of opened \<sigma> k) (queues \<sigma> ! k)) \<and>
     (\<exists>m. to_mark \<sigma> = [m..<queuesSize props]) \<and>
     (opened \<and> events \<sigma> \<noteq> [] \<longrightarrow> to_mark \<sigma> = [0..<queuesSize props]) \<and>
     image_mset bkey (bag \<sigma>) + mset (numbered (nextPid \<sigma>) (events \<sigma>)) =
       mset (numbered 1 (if opened then es else [])) \<and>
     1 \<le> nextPid \<sigma> \<and> queueIdx \<sigma> < queuesSize props \<and>
     (\<forall>c\<in>set (cpus \<sigma>). cpu_ok (start props) c) \<and>
     (\<forall>b\<in>set (rq (finishedQueue \<sigma>)). \<not> mark b \<and> finished_ok (start props) (clock \<sigma>) b) \<and>
     rsize (finishedQueue \<sigma>) = int (length (rq (finishedQueue \<sigma>))) \<and>
     (opened \<or> events \<sigma> = [] \<and> to_mark \<sigma> = []) \<and>
     (\<forall>len. PL len \<in> set (events \<sigma>) \<longrightarrow> 0 \<le> len)"

definition run_config :: "SchedProps \<Rightarrow> event list \<Rightarrow> bool" where
  "run_config props es \<longleftrightarrow> 1 \<le> N props \<and> (alg props = ALG_RR \<longrightarrow> 1 \<le> Q props) \<and>
     (\<forall>len. PL len \<in> set es \<longrightarrow> 0 \<le> len)"

lemma queuesSize_pos: "1 \<le> N props \<Longrightarrow> 0 < queuesSize props"
  by (simp add: queuesSize_def)

lemma numbered_nomark: "x \<in> set (numbered k es) \<Longrightarrow> k \<le> fst x"
  by (induction k es rule: numbered.induct) auto

lemma boot_inv:
  assumes "run_config props es"
  shows "sched_inv props es opened (sched_boot props es opened)"
proof -
  have "sum_list (map queue_bag (map (\<lambda>k. empty_queue (l k)) ks)) = {#}" for ks l
    by (induction ks) (simp_all add: queue_bag_def empty_queue_def)
  moreover have "sum_list (map cpu_bag (replicate n Polling)) = {#}" for n
    by (induction n) (simp_all add: cpu_bag_def)
  ultimately have "bag (sched_boot props es opened) = {#}"
    by (simp add: bag_def sched_boot_def empty_queue_def)
  moreover have "\<exists>m. [] = [m..<queuesSize props]" by (rule exI [of _ "queuesSize props"]) simp
  ultimately show ?thesis
    using assms queuesSize_pos [of props]
    by (auto simp: sched_inv_def sched_boot_def run_config_def queue_ok_def marker_of_def
        empty_queue_def)
qed

subsection \<open>Inserting\<close>

lemma stop_item_mark [simp]: "mark stop_item" "burstLength stop_item = 0"
  by (simp_all add: mark_def stop_item_def)

lemma ins_burst_jobs:
  assumes "\<forall>b\<in>set js. \<not> mark b" and "ms = [] \<or> ms = [stop_item]"
  shows "ins_burst b (js @ ms) = js @ b # ms"
  using assms by (cases js rule: rev_cases) (auto simp: ins_burst_def butlast_append)

lemma queue_ok_enqueue_job:
  assumes "queue_ok props t ms q" and "ms = [] \<or> ms = [stop_item]" and "\<not> mark b"
    and "served (start props) t b"
  shows "queue_ok props t ms (rq_enqueue q b)"
    and "queue_bag (rq_enqueue q b) = queue_bag q + {#b#}"
proof -
  obtain js where js: "rq q = js @ ms" "\<forall>b\<in>set js. \<not> mark b \<and> served (start props) t b"
    using assms(1) by (auto simp: queue_ok_def)
  have ins: "ins_burst b (rq q) = js @ b # ms"
    using ins_burst_jobs [of js ms b] js assms(2) by auto
  have "\<exists>js'. js @ b # ms = js' @ ms \<and> (\<forall>b\<in>set js'. \<not> mark b \<and> served (start props) t b)"
    by (rule exI [of _ "js @ [b]"]) (use js assms in auto)
  then show "queue_ok props t ms (rq_enqueue q b)"
    using assms(1) ins js(1) by (simp add: queue_ok_def rq_enqueue_def)
  show "queue_bag (rq_enqueue q b) = queue_bag q + {#b#}"
    using ins js assms(3) by (simp add: queue_bag_def rq_enqueue_def)
qed

lemma queue_ok_enqueue_stop:
  assumes "queue_ok props t [] q"
  shows "queue_ok props t [stop_item] (rq_enqueue q stop_item)"
    and "queue_bag (rq_enqueue q stop_item) = queue_bag q"
proof -
  have "ins_burst stop_item (rq q) = rq q @ [stop_item]"
    using assms ins_burst_jobs [of "rq q" "[]" stop_item] by (auto simp: queue_ok_def)
  then show "queue_ok props t [stop_item] (rq_enqueue q stop_item)"
    and "queue_bag (rq_enqueue q stop_item) = queue_bag q"
    using assms by (auto simp: queue_ok_def rq_enqueue_def queue_bag_def)
qed

lemma queue_ok_mono: "queue_ok props t ms q \<Longrightarrow> t \<le> t' \<Longrightarrow> queue_ok props t' ms q"
  unfolding queue_ok_def using served_mono by blast

subsection \<open>Taking a turn\<close>

lemma queue_ok_remove:
  assumes "queue_ok props t ms q" and "rq q = xs @ b # ys" and "\<not> mark b" and "\<forall>m\<in>set ms. mark m"
    and "q' = q\<lparr>rq := xs @ ys, rsize := rsize q - 1, rload := rload q - burstLength b\<rparr>"
  shows "queue_ok props t ms q'" and "queue_bag q = queue_bag q' + {#b#}"
    and "served (start props) t b"
proof -
  obtain js where js: "rq q = js @ ms" "\<forall>b\<in>set js. \<not> mark b \<and> served (start props) t b"
    using assms(1) by (auto simp: queue_ok_def)
  have "b \<notin> set ms" using assms(3,4) by auto
  have "\<exists>zs. js = xs @ b # zs \<and> ys = zs @ ms"
  proof -
    from js(1) assms(2) have "js @ ms = xs @ b # ys" by simp
    then consider us where "xs = js @ us" "ms = us @ b # ys" | us where "js = xs @ us" "us @ ms = b # ys"
      by (auto simp: append_eq_append_conv2)
    then show ?thesis
    proof cases
      case 1
      then show ?thesis using \<open>b \<notin> set ms\<close> by simp
    next
      case 2
      then show ?thesis using \<open>b \<notin> set ms\<close> by (cases us) auto
    qed
  qed
  then obtain zs where zs: "js = xs @ b # zs" "ys = zs @ ms" by blast
  have "\<exists>js'. xs @ ys = js' @ ms \<and> (\<forall>b\<in>set js'. \<not> mark b \<and> served (start props) t b)"
    by (rule exI [of _ "xs @ zs"]) (use js zs in auto)
  then show "queue_ok props t ms q'"
    using assms(1,2,5) by (simp add: queue_ok_def)
  show "queue_bag q = queue_bag q' + {#b#}"
    using assms(2,3,5) by (simp add: queue_bag_def)
  show "served (start props) t b" using js(2) zs(1) by simp
qed

lemma sjf_scan_in: "sjf_scan h bs \<in> insert h (set bs)"
  by (induction h bs rule: sjf_scan.induct) (auto split: if_splits)

lemma sjf_scan_job: "\<not> mark h \<Longrightarrow> \<not> mark (sjf_scan h bs)"
  by (induction h bs rule: sjf_scan.induct) (auto simp: mark_def)

definition turn_ok :: "SchedProps \<Rightarrow> int \<Rightarrow> BurstItem list \<Rightarrow> RQueue \<Rightarrow>
    RQueue \<times> BurstItem \<times> int \<times> bool \<Rightarrow> bool" where
  "turn_ok props t ms q r =
     (case r of (q', b', d, again) \<Rightarrow>
        \<exists>b. queue_ok props t ms q' \<and> queue_bag q = queue_bag q' + {#b#} \<and> b \<in> set (rq q) \<and> \<not> mark b \<and>
          bkey b' = bkey b \<and> served (start props) (t + d * 1000) b' \<and> (again \<or> remainingTime b' = 0) \<and>
          (again \<longrightarrow> alg props = ALG_RR \<and> remainingTime b' < remainingTime b))"

lemma bkey_mark: "bkey b' = bkey b \<Longrightarrow> mark b' = mark b"
  by (simp add: bkey_def mark_def)

lemma served_done:
  assumes "served st t b" and "arrivalTime b' = arrivalTime b" and "burstLength b' = burstLength b"
    and "0 \<le> remainingTime b'" and "remainingTime b' \<le> burstLength b"
    and "remainingTime b - remainingTime b' \<le> d"
  shows "served st (t + d * 1000) b'"
proof -
  obtain t0 where t0: "arrivalTime b = get_time_diff st t0"
    "t0 + 1000 * (burstLength b - remainingTime b) \<le> t"
    using assms(1) by (auto simp: served_def)
  have "1000 * (burstLength b' - remainingTime b') \<le> 1000 * (burstLength b - remainingTime b) + d * 1000"
    using assms(3,6) by simp
  then have "t0 + 1000 * (burstLength b' - remainingTime b') \<le> t + d * 1000" using t0(2) by linarith
  then show ?thesis unfolding served_def using assms(2-5) t0(1) by metis
qed

lemma cpu_turn_ok:
  assumes "queue_ok props t ms q" and "ms = [] \<or> ms = [stop_item]" and "\<not> head_is_marker q"
    and "0 < rsize q" and "alg props = ALG_RR \<longrightarrow> 1 \<le> Q props"
  shows "\<exists>r. cpu_turn props i q = Some r \<and> turn_ok props t ms q r"
proof -
  have "rq q \<noteq> []" using assms(1,4) by (auto simp: queue_ok_def)
  then obtain h rest where h: "rq q = h # rest" by (cases "rq q") auto
  then have hm: "\<not> mark h" using assms(3) by (simp add: head_is_marker_def mark_def)
  have ms: "\<forall>m\<in>set ms. mark m" using assms(2) by auto
  define q1 where "q1 = q\<lparr>rq := rest, rsize := rsize q - 1, rload := rload q - burstLength h\<rparr>"
  have deq: "rq_dequeue q = Some (h, q1)" using h by (simp add: rq_dequeue_def q1_def)
  have h': "rq q = [] @ h # rest" and q1: "q1 = q\<lparr>rq := [] @ rest, rsize := rsize q - 1, rload := rload q - burstLength h\<rparr>"
    using h by (simp_all add: q1_def)
  note rem = queue_ok_remove [OF assms(1) h' hm ms q1]
  have hs: "0 \<le> remainingTime h" "remainingTime h \<le> burstLength h" using rem(3) by (simp_all add: served_def)
  show ?thesis
  proof (cases "alg props")
    case ALG_FCFS
    have "served (start props) (t + burstLength h * 1000) (h\<lparr>remainingTime := 0, processorId := int i\<rparr>)"
      by (rule served_done [OF rem(3)]) (use hs in auto)
    then show ?thesis
      using ALG_FCFS deq rem(1,2) hm h
      by (auto simp: cpu_turn_def fcfs_turn_def turn_ok_def bkey_def intro!: exI [of _ h])
  next
    case ALG_RR
    show ?thesis
    proof (cases "remainingTime h > Q props")
      case True
      have "served (start props) (t + Q props * 1000) (h\<lparr>remainingTime := remainingTime h - Q props\<rparr>)"
        by (rule served_done [OF rem(3)]) (use hs True ALG_RR assms(5) in auto)
      then show ?thesis
        using ALG_RR deq rem(1,2) True assms(5) hm h
        by (auto simp: cpu_turn_def rr_turn_def turn_ok_def bkey_def intro!: exI [of _ h])
    next
      case False
      have "served (start props) (t + remainingTime h * 1000) (h\<lparr>remainingTime := 0\<rparr>)"
        by (rule served_done [OF rem(3)]) (use hs in auto)
      then show ?thesis
        using ALG_RR deq rem(1,2) False hm h
        by (auto simp: cpu_turn_def rr_turn_def turn_ok_def bkey_def intro!: exI [of _ h])
    qed
  next
    case ALG_SJF
    define s where "s = sjf_scan h (rq q)"
    have s: "s \<in> set (rq q)" "\<not> mark s"
      using sjf_scan_in [of h "rq q"] sjf_scan_job [OF hm, of "rq q"] h by (auto simp: s_def)
    have "take_pid (pid s) (rq q) \<noteq> None" using s(1) by (auto simp: take_pid_None)
    then obtain b bs where b: "take_pid (pid s) (rq q) = Some (b, bs)"
      by (cases "take_pid (pid s) (rq q)") auto
    obtain xs ys where split: "rq q = xs @ b # ys" "bs = xs @ ys" "pid b = pid s"
      using take_pid_Some [OF b] by blast
    have bm: "\<not> mark b" using s(2) split(3) by (simp add: mark_def)
    define q2 where "q2 = q\<lparr>rq := xs @ ys, rsize := rsize q - 1, rload := rload q - burstLength b\<rparr>"
    have deq2: "rq_dequeue_at q (pid s) = Some (b, q2)"
      using b split(2) by (simp add: rq_dequeue_at_def q2_def)
    note rem2 = queue_ok_remove [OF assms(1) split(1) bm ms q2_def]
    have "served (start props) (t + remainingTime b * 1000) (b\<lparr>remainingTime := 0, processorId := int i\<rparr>)"
      by (rule served_done [OF rem2(3)]) (use rem2(3) in \<open>auto simp: served_def\<close>)
    moreover have "cpu_turn props i q
        = Some (q2, b\<lparr>remainingTime := 0, processorId := int i\<rparr>, remainingTime b, False)"
      using ALG_SJF deq2 h by (simp add: cpu_turn_def sjf_turn_def s_def)
    moreover have "b \<in> set (rq q)" using split(1) by simp
    ultimately show ?thesis using rem2(1,2) bm unfolding turn_ok_def by (auto simp: bkey_def)
  qed
qed

subsection \<open>Every action preserves the invariant\<close>

lemma scan_fold_in:
  "fst (fold (\<lambda>i (idx, ld). if f i < ld then (i, g i) else (idx, ld)) xs (k, l)) \<in> insert k (set xs)"
  by (induction xs arbitrary: k l) (auto simp: insert_commute)

lemma least_loaded_lt: "0 < n \<Longrightarrow> least_loaded ques n < n"
  using scan_fold_in [of "\<lambda>i. rload (ques ! i)" "\<lambda>i. rload (ques ! i)" "[0..<n]" 0 "rload (ques ! 0)"]
  by (auto simp: least_loaded_def)

lemma least_loaded_random_lt: "0 < n \<Longrightarrow> least_loaded_random ques n < n"
  using scan_fold_in [of "\<lambda>i. rsize (ques ! i)" "\<lambda>i. rload (ques ! i)" "[1..<n]" 0 "rload (ques ! 0)"]
  by (auto simp: least_loaded_random_def)

lemma choose_queue_lt:
  "queueIdx \<sigma> < queuesSize props \<Longrightarrow> choose_queue props \<sigma> < queuesSize props"
  by (auto simp: choose_queue_def least_loaded_lt least_loaded_random_lt
      split: QueueSelection.splits ScheduleSource.splits)

lemma sched_invD:
  assumes "sched_inv props es opened \<sigma>"
  shows "length (queues \<sigma>) = queuesSize props" and "length (cpus \<sigma>) = ncpus props"
    and "k < queuesSize props \<Longrightarrow> queue_ok props (clock \<sigma>) (marker_of opened \<sigma> k) (queues \<sigma> ! k)"
    and "\<exists>m. to_mark \<sigma> = [m..<queuesSize props]"
    and "opened \<Longrightarrow> events \<sigma> \<noteq> [] \<Longrightarrow> to_mark \<sigma> = [0..<queuesSize props]"
    and "image_mset bkey (bag \<sigma>) + mset (numbered (nextPid \<sigma>) (events \<sigma>)) =
       mset (numbered 1 (if opened then es else []))"
    and "1 \<le> nextPid \<sigma>" and "queueIdx \<sigma> < queuesSize props"
    and "c \<in> set (cpus \<sigma>) \<Longrightarrow> cpu_ok (start props) c"
    and "b \<in> set (rq (finishedQueue \<sigma>)) \<Longrightarrow> \<not> mark b \<and> finished_ok (start props) (clock \<sigma>) b"
    and "rsize (finishedQueue \<sigma>) = int (length (rq (finishedQueue \<sigma>)))"
    and "opened \<or> events \<sigma> = [] \<and> to_mark \<sigma> = []"
    and "PL len \<in> set (events \<sigma>) \<Longrightarrow> 0 \<le> len"
  using assms unfolding sched_inv_def by blast+

lemma marker_of_cases: "marker_of opened \<sigma> k = [] \<or> marker_of opened \<sigma> k = [stop_item]"
  by (simp add: marker_of_def)

lemma tick_inv:
  assumes "sched_inv props es opened \<sigma>"
  shows "sched_inv props es opened (\<sigma>\<lparr>clock := clock \<sigma> + int d\<rparr>)"
proof -
  have "queue_ok props (clock \<sigma> + int d) (marker_of opened \<sigma> k) (queues \<sigma> ! k)"
    if "k < queuesSize props" for k
    by (rule queue_ok_mono [OF sched_invD(3) [OF assms that]]) simp
  moreover have "\<not> mark b \<and> finished_ok (start props) (clock \<sigma> + int d) b"
    if "b \<in> set (rq (finishedQueue \<sigma>))" for b
    using sched_invD(10) [OF assms that] finished_mono [of "start props" "clock \<sigma>" b "clock \<sigma> + int d"] by simp
  moreover have "bag (\<sigma>\<lparr>clock := clock \<sigma> + int d\<rparr>) = bag \<sigma>" by (simp add: bag_def)
  ultimately show ?thesis
    using assms unfolding sched_inv_def marker_of_def by simp
qed

lemma feed_burst_inv:
  assumes inv: "sched_inv props es opened \<sigma>" and ev: "events \<sigma> = PL len # es'"
  shows "sched_inv props es opened (feed_burst props (\<sigma>\<lparr>events := es'\<rparr>) len)"
proof -
  let ?\<sigma>' = "feed_burst props (\<sigma>\<lparr>events := es'\<rparr>) len"
  note I = sched_invD [OF inv]
  define i where "i = choose_queue props (\<sigma>\<lparr>events := es'\<rparr>)"
  define b where "b = (let bi = new_burst props (\<sigma>\<lparr>events := es'\<rparr>) len
    in if sets_processor props then bi\<lparr>processorId := int i\<rparr> else bi)"
  have op: "opened" using I(12) ev by auto
  have tm: "to_mark \<sigma> = [0..<queuesSize props]" using I(5) op ev by simp
  have i: "i < queuesSize props"
    unfolding i_def by (rule choose_queue_lt) (use I(8) in simp)
  have mk: "marker_of opened \<sigma> k = []" if "k < queuesSize props" for k
    using tm that by (simp add: marker_of_def)
  have len: "0 \<le> len" using I(13) [of len] ev by simp
  have bk: "bkey b = (nextPid \<sigma>, len)" by (simp add: b_def Let_def new_burst_def bkey_def)
  have nm: "\<not> mark b" using I(7) by (simp add: b_def Let_def new_burst_def mark_def)
  have sv: "served (start props) (clock \<sigma>) b"
    using len by (auto simp: b_def Let_def new_burst_def served_def)
  have flds: "queues ?\<sigma>' = (queues \<sigma>)[i := rq_enqueue (queues \<sigma> ! i) b]" "events ?\<sigma>' = es'"
    "to_mark ?\<sigma>' = to_mark \<sigma>" "cpus ?\<sigma>' = cpus \<sigma>" "finishedQueue ?\<sigma>' = finishedQueue \<sigma>"
    "clock ?\<sigma>' = clock \<sigma>" "nextPid ?\<sigma>' = nextPid \<sigma> + 1" "queueIdx ?\<sigma>' < queuesSize props"
    using I(8) i by (auto simp: feed_burst_def Let_def i_def b_def enqueue_at_def)
  have q: "queue_ok props (clock \<sigma>) [] (queues \<sigma> ! k)" if "k < queuesSize props" for k
    using I(3) [OF that] mk [OF that] by simp
  note enq = queue_ok_enqueue_job [OF q [OF i] disjI1 [OF refl] nm sv]
  have "bag ?\<sigma>' = bag \<sigma> + {#b#}"
    using sum_list_upd_add [of i "queues \<sigma>" queue_bag "rq_enqueue (queues \<sigma> ! i) b" "{#b#}"] i I(1) enq(2)
    by (simp add: bag_def flds ac_simps)
  then have "image_mset bkey (bag ?\<sigma>') + mset (numbered (nextPid ?\<sigma>') (events ?\<sigma>')) =
      mset (numbered 1 (if opened then es else []))"
    using I(6) bk ev by (simp add: flds)
  moreover have "queue_ok props (clock ?\<sigma>') (marker_of opened ?\<sigma>' k) (queues ?\<sigma>' ! k)"
    if "k < queuesSize props" for k
    using q [OF that] enq(1) mk [OF that] that i I(1)
    by (cases "k = i") (simp_all add: flds marker_of_def)
  ultimately show ?thesis
    using inv ev tm flds(8) unfolding sched_inv_def flds(1-7) by simp
qed

lemma feeder_inv:
  assumes inv: "sched_inv props es opened \<sigma>" and step: "feeder_step props \<sigma> = Some \<sigma>'"
  shows "sched_inv props es opened \<sigma>'"
proof -
  note I = sched_invD [OF inv]
  consider len es' where "events \<sigma> = PL len # es'" "\<sigma>' = feed_burst props (\<sigma>\<lparr>events := es'\<rparr>) len"
    | ms es' where "events \<sigma> = IAT ms # es'" "\<sigma>' = \<sigma>\<lparr>events := es', feeder_wake := clock \<sigma> + ms * 1000\<rparr>"
    | es' where "events \<sigma> = UNKNOWN # es'" "\<sigma>' = \<sigma>\<lparr>events := es'\<rparr>"
    | i "is" where "events \<sigma> = []" "to_mark \<sigma> = i # is"
      "\<sigma>' = \<sigma>\<lparr>queues := enqueue_at i stop_item (queues \<sigma>), to_mark := is\<rparr>"
    using step by (auto split: if_splits list.splits event.splits)
  then show ?thesis
  proof cases
    case 1
    then show ?thesis using feed_burst_inv [OF inv] by simp
  next
    case 2
    have "bag \<sigma>' = bag \<sigma>" and "marker_of opened \<sigma>' = marker_of opened \<sigma>"
      using 2 by (simp_all add: bag_def marker_of_def fun_eq_iff)
    moreover have "opened" using I(12) 2 by auto
    ultimately show ?thesis using inv 2 unfolding sched_inv_def by simp blast
  next
    case 3
    have "bag \<sigma>' = bag \<sigma>" and "marker_of opened \<sigma>' = marker_of opened \<sigma>"
      using 3 by (simp_all add: bag_def marker_of_def fun_eq_iff)
    moreover have "opened" using I(12) 3 by auto
    ultimately show ?thesis using inv 3 unfolding sched_inv_def by simp blast
  next
    case 4
    obtain m where m: "i # is = [m..<queuesSize props]" using I(4) 4(2) by auto
    then have lt: "m < queuesSize props" by (cases "m < queuesSize props") auto
    then have i: "i = m" "is = [Suc m..<queuesSize props]" using m by (simp_all add: upt_conv_Cons)
    have op: "opened" using I(12) 4(2) by auto
    have mk: "marker_of opened \<sigma> i = []" "marker_of opened \<sigma>' i = [stop_item]"
      "k \<noteq> i \<Longrightarrow> marker_of opened \<sigma>' k = marker_of opened \<sigma> k" for k
      using 4 i op by (auto simp: marker_of_def)
    have q: "queue_ok props (clock \<sigma>) [] (queues \<sigma> ! i)" using I(3) [of i] lt i mk(1) by simp
    note enq = queue_ok_enqueue_stop [OF q]
    have "bag \<sigma>' = bag \<sigma>"
      using sum_list_upd_same [of i "queues \<sigma>" queue_bag "rq_enqueue (queues \<sigma> ! i) stop_item"] lt i I(1) enq(2) 4
      by (simp add: bag_def enqueue_at_def)
    moreover have "queue_ok props (clock \<sigma>') (marker_of opened \<sigma>' k) (queues \<sigma>' ! k)"
      if "k < queuesSize props" for k
      using I(3) [OF that] enq(1) mk that 4(3) I(1)
      by (cases "k = i") (simp_all add: enqueue_at_def)
    moreover have "\<exists>m. to_mark \<sigma>' = [m..<queuesSize props]" using 4(3) i(2) by auto
    ultimately show ?thesis
      using inv 4 op unfolding sched_inv_def by (simp add: enqueue_at_def)
  qed
qed

lemma cpu_step_cases:
  assumes "cpu_step props \<sigma> i = Some \<sigma>'"
  obtains (exit) "cpus \<sigma> ! i = Polling" "head_is_marker (queues \<sigma> ! cpu_queue props i)"
      "\<sigma>' = \<sigma>\<lparr>cpus := (cpus \<sigma>)[i := Exited]\<rparr>"
    | (turn) q' b t again where "cpus \<sigma> ! i = Polling"
      "\<not> head_is_marker (queues \<sigma> ! cpu_queue props i)" "0 < rsize (queues \<sigma> ! cpu_queue props i)"
      "cpu_turn props i (queues \<sigma> ! cpu_queue props i) = Some (q', b, t, again)"
      "\<sigma>' = \<sigma>\<lparr>queues := (queues \<sigma>)[cpu_queue props i := q'],
              cpus := (cpus \<sigma>)[i := Executing b (clock \<sigma> + t * 1000) again]\<rparr>"
    | (requeue) b until where "cpus \<sigma> ! i = Executing b until True" "until \<le> clock \<sigma>"
      "\<sigma>' = \<sigma>\<lparr>queues := enqueue_at (cpu_queue props i) b (queues \<sigma>), cpus := (cpus \<sigma>)[i := Polling]\<rparr>"
    | (finish) b until where "cpus \<sigma> ! i = Executing b until False" "until \<le> clock \<sigma>"
      "\<sigma>' = \<sigma>\<lparr>finishedQueue := rq_enqueue (finishedQueue \<sigma>) (finish_burst props i (clock \<sigma>) b),
              cpus := (cpus \<sigma>)[i := Polling]\<rparr>"
  using assms
  by (cases "cpus \<sigma> ! i")
    (auto simp: cpu_step_def Let_def not_less split: if_splits option.splits prod.splits)

lemma cpu_queue_lt: "i < ncpus props \<Longrightarrow> cpu_queue props i < queuesSize props"
  by (auto simp: cpu_queue_def queuesSize_def)

lemma set_cpus_upd:
  "\<forall>c\<in>set cs. P c \<Longrightarrow> P y \<Longrightarrow> \<forall>c\<in>set (cs[i := y]). P c"
  using set_update_subset_insert [of cs i y] by blast

lemma queue_ok_upd:
  assumes "\<And>k. k < n \<Longrightarrow> queue_ok props t (ms k) (ques ! k)" and "queue_ok props t (ms i) q'"
    and "length ques = n" and "k < n"
  shows "queue_ok props t (ms k) (ques[i := q'] ! k)"
  using assms by (cases "k = i") simp_all

lemma cpu_inv:
  assumes inv: "sched_inv props es opened \<sigma>" and cfg: "run_config props es" and i: "i < ncpus props"
    and step: "cpu_step props \<sigma> i = Some \<sigma>'"
  shows "sched_inv props es opened \<sigma>'"
  using step
proof (cases rule: cpu_step_cases)
  case exit
  note I = sched_invD [OF inv]
  have "bag \<sigma>' = bag \<sigma>"
    using sum_list_upd_same [of i "cpus \<sigma>" cpu_bag Exited] exit I(2) i by (simp add: bag_def cpu_bag_def)
  moreover have "marker_of opened \<sigma>' = marker_of opened \<sigma>"
    using exit by (simp add: marker_of_def fun_eq_iff)
  moreover have "\<forall>c\<in>set ((cpus \<sigma>)[i := Exited]). cpu_ok (start props) c"
    by (rule set_cpus_upd) (use I(9) in auto)
  ultimately show ?thesis using inv exit unfolding sched_inv_def by simp
next
  case (turn q' b' t again)
  note I = sched_invD [OF inv]
  let ?k = "cpu_queue props i"
  have k: "?k < queuesSize props" by (rule cpu_queue_lt [OF i])
  obtain r where "cpu_turn props i (queues \<sigma> ! ?k) = Some r"
    "turn_ok props (clock \<sigma>) (marker_of opened \<sigma> ?k) (queues \<sigma> ! ?k) r"
    using cpu_turn_ok [OF I(3) [OF k] marker_of_cases turn(2,3), of i] cfg by (auto simp: run_config_def)
  then obtain b where b: "queue_ok props (clock \<sigma>) (marker_of opened \<sigma> ?k) q'"
    "queue_bag (queues \<sigma> ! ?k) = queue_bag q' + {#b#}" "\<not> mark b" "bkey b' = bkey b"
    "served (start props) (clock \<sigma> + t * 1000) b'" "again \<or> remainingTime b' = 0"
    using turn(4) by (auto simp: turn_ok_def)
  have same: "marker_of opened \<sigma>' = marker_of opened \<sigma>"
    using turn(5) by (simp add: marker_of_def fun_eq_iff)
  have "sum_list (map queue_bag ((queues \<sigma>)[?k := q'])) + {#b#} = sum_list (map queue_bag (queues \<sigma>))"
    by (rule sum_list_upd_del) (use k I(1) b(2) in auto)
  moreover have "sum_list (map cpu_bag ((cpus \<sigma>)[i := Executing b' (clock \<sigma> + t * 1000) again]))
      = sum_list (map cpu_bag (cpus \<sigma>)) + {#b'#}"
    by (rule sum_list_upd_add) (use i I(2) turn(1) in \<open>auto simp: cpu_bag_def\<close>)
  ultimately have "bag \<sigma>' + {#b#} = bag \<sigma> + {#b'#}"
    using turn(5) by (simp add: bag_def ac_simps)
  then have "image_mset bkey (bag \<sigma>') = image_mset bkey (bag \<sigma>)"
    using b(4) by (rule image_mset_swap)
  moreover have "\<forall>c\<in>set ((cpus \<sigma>)[i := Executing b' (clock \<sigma> + t * 1000) again]). cpu_ok (start props) c"
    by (rule set_cpus_upd) (use I(9) b(3-6) bkey_mark [OF b(4)] in auto)
  moreover have "queue_ok props (clock \<sigma>) (marker_of opened \<sigma> j) ((queues \<sigma>)[?k := q'] ! j)"
    if "j < queuesSize props" for j
    using queue_ok_upd [of "queuesSize props" props "clock \<sigma>" "marker_of opened \<sigma>" "queues \<sigma>" ?k q' j,
        OF I(3) b(1) I(1) that] .
  ultimately show ?thesis using inv turn(5) same unfolding sched_inv_def by simp
next
  case (requeue b until)
  note I = sched_invD [OF inv]
  let ?k = "cpu_queue props i"
  have k: "?k < queuesSize props" by (rule cpu_queue_lt [OF i])
  have "cpu_ok (start props) (Executing b until True)"
    using I(9) [OF nth_mem [of i "cpus \<sigma>"]] requeue(1) i I(2) by simp
  then have b: "\<not> mark b" "served (start props) (clock \<sigma>) b"
    using served_mono [OF _ requeue(2)] by simp_all
  note enq = queue_ok_enqueue_job [OF I(3) [OF k] marker_of_cases b]
  have same: "marker_of opened \<sigma>' = marker_of opened \<sigma>"
    using requeue(3) by (simp add: marker_of_def fun_eq_iff)
  have "sum_list (map queue_bag ((queues \<sigma>)[?k := rq_enqueue (queues \<sigma> ! ?k) b]))
      = sum_list (map queue_bag (queues \<sigma>)) + {#b#}"
    by (rule sum_list_upd_add) (use k I(1) enq(2) in auto)
  moreover have "sum_list (map cpu_bag ((cpus \<sigma>)[i := Polling])) + {#b#} = sum_list (map cpu_bag (cpus \<sigma>))"
    by (rule sum_list_upd_del) (use i I(2) requeue(1) in \<open>auto simp: cpu_bag_def\<close>)
  ultimately have "bag \<sigma>' = bag \<sigma>"
    using requeue(3) by (simp add: bag_def enqueue_at_def ac_simps)
  moreover have "\<forall>c\<in>set ((cpus \<sigma>)[i := Polling]). cpu_ok (start props) c"
    by (rule set_cpus_upd) (use I(9) in auto)
  moreover have "queue_ok props (clock \<sigma>) (marker_of opened \<sigma> j)
      ((queues \<sigma>)[?k := rq_enqueue (queues \<sigma> ! ?k) b] ! j)" if "j < queuesSize props" for j
    using queue_ok_upd [of "queuesSize props" props "clock \<sigma>" "marker_of opened \<sigma>" "queues \<sigma>" ?k _ j,
        OF I(3) enq(1) I(1) that] .
  ultimately show ?thesis using inv requeue(3) same unfolding sched_inv_def by (simp add: enqueue_at_def)
next
  case (finish b until)
  note I = sched_invD [OF inv]
  let ?f = "finish_burst props i (clock \<sigma>) b"
  have ok: "cpu_ok (start props) (Executing b until False)"
    using I(9) [OF nth_mem [of i "cpus \<sigma>"]] finish(1) i I(2) by simp
  then obtain t0 where t0: "\<not> mark b" "remainingTime b = 0" "arrivalTime b = get_time_diff (start props) t0"
    "t0 + 1000 * burstLength b \<le> clock \<sigma>"
    using finish(2) by (auto simp: served_def)
  have f: "bkey ?f = bkey b" "\<not> mark ?f" "arrivalTime ?f = arrivalTime b" "burstLength ?f = burstLength b"
    "remainingTime ?f = 0" "finishTime ?f = get_time_diff (start props) (clock \<sigma>)"
    "turnaroundTime ?f = finishTime ?f - arrivalTime ?f"
    using t0(1,2) by (simp_all add: finish_burst_def Let_def bkey_def mark_def)
  have fin: "finished_ok (start props) (clock \<sigma>) ?f"
    unfolding finished_ok_def f using t0(3,4) by blast
  have "ins_burst ?f (rq (finishedQueue \<sigma>)) = rq (finishedQueue \<sigma>) @ [?f]"
    using ins_burst_jobs [of "rq (finishedQueue \<sigma>)" "[]" ?f] I(10) by auto
  then have enq: "rq (rq_enqueue (finishedQueue \<sigma>) ?f) = rq (finishedQueue \<sigma>) @ [?f]"
    "rsize (rq_enqueue (finishedQueue \<sigma>) ?f) = rsize (finishedQueue \<sigma>) + 1"
    by (simp_all add: rq_enqueue_def)
  have "sum_list (map cpu_bag ((cpus \<sigma>)[i := Polling])) + {#b#} = sum_list (map cpu_bag (cpus \<sigma>))"
    by (rule sum_list_upd_del) (use i I(2) finish(1) in \<open>auto simp: cpu_bag_def\<close>)
  then have "bag \<sigma>' + {#b#} = bag \<sigma> + {#?f#}"
    using finish(3) enq(1) by (simp add: bag_def ac_simps)
  then have "image_mset bkey (bag \<sigma>') = image_mset bkey (bag \<sigma>)"
    using f(1) by (rule image_mset_swap)
  moreover have "marker_of opened \<sigma>' = marker_of opened \<sigma>"
    using finish(3) by (simp add: marker_of_def fun_eq_iff)
  moreover have "\<forall>c\<in>set ((cpus \<sigma>)[i := Polling]). cpu_ok (start props) c"
    by (rule set_cpus_upd) (use I(9) in auto)
  ultimately show ?thesis
    using inv finish(3) enq fin f(2) unfolding sched_inv_def by (simp add: ball_Un)
qed

lemma sched_act_inv:
  assumes "sched_inv props es opened \<sigma>" and "run_config props es"
    and "sched_act props \<sigma> a = Some \<sigma>'"
  shows "sched_inv props es opened \<sigma>'"
proof (cases a)
  case (Tick d)
  then have "\<sigma>' = \<sigma>\<lparr>clock := clock \<sigma> + int d\<rparr>" using assms(3) by (simp add: sched_act_def)
  then show ?thesis using tick_inv [OF assms(1)] by simp
next
  case Feed
  then have "feeder_step props \<sigma> = Some \<sigma>'" using assms(3) by (simp only: sched_act_def action.case)
  then show ?thesis by (rule feeder_inv [OF assms(1)])
next
  case (Cpu i)
  then have "i < ncpus props" "cpu_step props \<sigma> i = Some \<sigma>'"
    using assms(3) by (simp_all add: sched_act_def split: if_splits)
  then show ?thesis by (rule cpu_inv [OF assms(1,2)])
qed

theorem sched_reachable_inv:
  assumes "sched_reachable props es opened \<sigma>" and "run_config props es"
  shows "sched_inv props es opened \<sigma>"
  using assms(1)
proof (induction rule: sched_reachable.induct)
  case boot
  then show ?case by (rule boot_inv [OF assms(2)])
next
  case (act \<sigma> a \<sigma>')
  then show ?case using sched_act_inv [OF _ assms(2)] by blast
qed

end
