(* ===== verification/SchedLiveness.thy ===== *)
theory SchedLiveness
  imports SchedInvariants
begin

text \<open>
  When the processors leave, that a run never gets stuck, and that it ends: \<open>potential\<close> is a
  number that every action but the passing of time makes smaller.
\<close>

subsection \<open>When a processor leaves\<close>

definition served_by :: "SchedProps \<Rightarrow> nat \<Rightarrow> nat \<Rightarrow> bool" where
  "served_by props k i \<longleftrightarrow> i < ncpus props \<and> cpu_queue props i = k"

definition exit_inv :: "SchedProps \<Rightarrow> bool \<Rightarrow> sched_sys \<Rightarrow> bool" where
  "exit_inv props opened \<sigma> \<longleftrightarrow>
     (\<forall>k i. served_by props k i \<and> cpus \<sigma> ! i = Exited \<longrightarrow> opened \<and> k \<notin> set (to_mark \<sigma>)) \<and>
     (\<forall>k<queuesSize props. (\<forall>i. served_by props k i \<longrightarrow> cpus \<sigma> ! i = Exited) \<longrightarrow>
        rq (queues \<sigma> ! k) = [stop_item])"

lemma some_server: "k < queuesSize props \<Longrightarrow> 1 \<le> N props \<Longrightarrow> \<exists>i. served_by props k i"
  by (rule exI [of _ k]) (auto simp: served_by_def cpu_queue_def queuesSize_def split: if_splits)

lemma head_marker_only:
  assumes "queue_ok props t ms q" and "ms = [] \<or> ms = [stop_item]" and "head_is_marker q"
  shows "rq q = [stop_item]" and "ms = [stop_item]"
proof -
  obtain js where js: "rq q = js @ ms" "\<forall>b\<in>set js. \<not> mark b"
    using assms(1) by (auto simp: queue_ok_def)
  then have "js = []" using assms(3) by (cases js) (auto simp: head_is_marker_def mark_def)
  then show "rq q = [stop_item]" and "ms = [stop_item]"
    using js assms(2,3) by (auto simp: head_is_marker_def)
qed

lemma exit_inv_feeder:
  assumes inv: "sched_inv props es opened \<sigma>" and cfg: "run_config props es"
    and ex: "exit_inv props opened \<sigma>" and step: "feeder_step props \<sigma> = Some \<sigma>'"
  shows "exit_inv props opened \<sigma>'"
proof -
  note I = sched_invD [OF inv]
  have none: "cpus \<sigma> ! i \<noteq> Exited" if "served_by props k i" "k \<in> set (to_mark \<sigma>)" for k i
    using ex that unfolding exit_inv_def by blast
  consider (burst) len es' where "events \<sigma> = PL len # es'" "\<sigma>' = feed_burst props (\<sigma>\<lparr>events := es'\<rparr>) len"
    | (other) "queues \<sigma>' = queues \<sigma>" "cpus \<sigma>' = cpus \<sigma>" "to_mark \<sigma>' = to_mark \<sigma>"
    | (mark) i "is" where "events \<sigma> = []" "to_mark \<sigma> = i # is"
      "\<sigma>' = \<sigma>\<lparr>queues := enqueue_at i stop_item (queues \<sigma>), to_mark := is\<rparr>"
    using step by (auto split: if_splits list.splits event.splits)
  then show ?thesis
  proof cases
    case burst
    have "opened" using I(12) burst(1) by auto
    then have tm: "to_mark \<sigma> = [0..<queuesSize props]" using I(5) burst(1) by simp
    have same: "cpus \<sigma>' = cpus \<sigma>" "to_mark \<sigma>' = to_mark \<sigma>"
      using burst(2) by (simp_all add: feed_burst_def Let_def)
    have no: "cpus \<sigma> ! i \<noteq> Exited" if "served_by props k i" for k i
      using none [OF that] cpu_queue_lt [of i props] that tm by (auto simp: served_by_def)
    then have "\<not> (\<forall>i. served_by props k i \<longrightarrow> cpus \<sigma> ! i = Exited)" if "k < queuesSize props" for k
      using some_server [OF that] cfg unfolding run_config_def by blast
    then show ?thesis using no unfolding exit_inv_def same by blast
  next
    case other
    then show ?thesis using ex unfolding exit_inv_def by simp
  next
    case mark
    have "served_by props k i' \<Longrightarrow> cpus \<sigma> ! i' = Exited \<Longrightarrow> opened \<and> k \<notin> set is" for k i'
      using ex mark(2) unfolding exit_inv_def by auto
    moreover have "rq (queues \<sigma>' ! k) = [stop_item]"
      if k: "k < queuesSize props" and all: "\<forall>i. served_by props k i \<longrightarrow> cpus \<sigma> ! i = Exited" for k
    proof -
      obtain i' where i': "served_by props k i'" using some_server [OF k] cfg by (auto simp: run_config_def)
      then have "k \<notin> set (to_mark \<sigma>)" using all none by blast
      then have "k \<noteq> i" using mark(2) by auto
      then have "queues \<sigma>' ! k = queues \<sigma> ! k" using mark(3) by (simp add: enqueue_at_def)
      then show ?thesis using ex k all unfolding exit_inv_def by auto
    qed
    ultimately show ?thesis using mark(3) unfolding exit_inv_def by auto
  qed
qed

text \<open>An action of processor \<open>i\<close> that leaves it in its loop cannot break the invariant.\<close>

lemma exit_inv_running:
  assumes ex: "exit_inv props opened \<sigma>" and len: "length (cpus \<sigma>) = ncpus props"
    and i: "i < ncpus props" and c: "c \<noteq> Exited"
    and cs: "cpus \<sigma>' = (cpus \<sigma>)[i := c]" "to_mark \<sigma>' = to_mark \<sigma>"
    and qu: "\<And>k. k \<noteq> cpu_queue props i \<Longrightarrow> queues \<sigma>' ! k = queues \<sigma> ! k"
  shows "exit_inv props opened \<sigma>'"
proof -
  have at: "cpus \<sigma>' ! j = (if j = i then c else cpus \<sigma> ! j)" if "j < ncpus props" for j
    using cs(1) len i that by (simp add: nth_list_update)
  have "rq (queues \<sigma>' ! k) = [stop_item]"
    if k: "k < queuesSize props" and all: "\<forall>j. served_by props k j \<longrightarrow> cpus \<sigma>' ! j = Exited" for k
  proof -
    have "served_by props (cpu_queue props i) i" using i by (simp add: served_by_def)
    then have ne: "k \<noteq> cpu_queue props i" using all at [OF i] c by auto
    then have "\<forall>j. served_by props k j \<longrightarrow> cpus \<sigma> ! j = Exited"
      using all at by (auto simp: served_by_def split: if_splits)
    then show ?thesis using ex k qu [OF ne] unfolding exit_inv_def by auto
  qed
  moreover have "opened \<and> k \<notin> set (to_mark \<sigma>')" if "served_by props k j" "cpus \<sigma>' ! j = Exited" for k j
    using ex that at [of j] c cs(2) unfolding exit_inv_def by (auto simp: served_by_def split: if_splits)
  ultimately show ?thesis unfolding exit_inv_def by blast
qed

lemma exit_inv_cpu:
  assumes inv: "sched_inv props es opened \<sigma>" and ex: "exit_inv props opened \<sigma>"
    and i: "i < ncpus props" and step: "cpu_step props \<sigma> i = Some \<sigma>'"
  shows "exit_inv props opened \<sigma>'"
  using step
proof (cases rule: cpu_step_cases)
  case exit
  note I = sched_invD [OF inv]
  let ?k = "cpu_queue props i"
  have k: "?k < queuesSize props" by (rule cpu_queue_lt [OF i])
  note hd = head_marker_only [OF I(3) [OF k] marker_of_cases exit(2)]
  have placed: "opened \<and> ?k \<notin> set (to_mark \<sigma>)" using hd(2) by (auto simp: marker_of_def split: if_splits)
  have at: "cpus \<sigma>' ! j = (if j = i then Exited else cpus \<sigma> ! j)" if "j < ncpus props" for j
    using exit(3) I(2) i that by (simp add: nth_list_update)
  have "opened \<and> k \<notin> set (to_mark \<sigma>')" if "served_by props k j" "cpus \<sigma>' ! j = Exited" for k j
    using ex that at [of j] placed exit(3) unfolding exit_inv_def
    by (cases "j = i") (auto simp: served_by_def)
  moreover have "rq (queues \<sigma>' ! k) = [stop_item]"
    if "k < queuesSize props" and all: "\<forall>j. served_by props k j \<longrightarrow> cpus \<sigma>' ! j = Exited" for k
  proof (cases "k = ?k")
    case True
    then show ?thesis using hd(1) exit(3) by simp
  next
    case False
    then have "\<forall>j. served_by props k j \<longrightarrow> cpus \<sigma> ! j = Exited"
      using all at by (auto simp: served_by_def split: if_splits)
    then show ?thesis using ex that(1) exit(3) unfolding exit_inv_def by auto
  qed
  ultimately show ?thesis unfolding exit_inv_def by blast
next
  case (turn q' b t again)
  show ?thesis
    by (rule exit_inv_running [OF ex sched_invD(2) [OF inv] i, of "Executing b (clock \<sigma> + t * 1000) again"])
      (simp_all add: turn)
next
  case (requeue b until)
  show ?thesis
    by (rule exit_inv_running [OF ex sched_invD(2) [OF inv] i, of Polling])
      (simp_all add: requeue enqueue_at_def)
next
  case (finish b until)
  show ?thesis
    by (rule exit_inv_running [OF ex sched_invD(2) [OF inv] i, of Polling]) (simp_all add: finish)
qed

lemma sched_reachable_exit:
  assumes "sched_reachable props es opened \<sigma>" and "run_config props es"
  shows "exit_inv props opened \<sigma>"
  using assms(1)
proof (induction rule: sched_reachable.induct)
  case boot
  have "cpus (sched_boot props es opened) ! i = Polling" if "i < ncpus props" for i
    using that by (simp add: sched_boot_def)
  then show ?case
    using some_server [of _ props] assms(2)
    unfolding exit_inv_def run_config_def served_by_def by (metis cpu_state.distinct(3))
next
  case (act \<sigma> a \<sigma>')
  note inv = sched_reachable_inv [OF act.hyps(1) assms(2)]
  show ?case
  proof (cases a)
    case (Tick d)
    then have "\<sigma>' = \<sigma>\<lparr>clock := clock \<sigma> + int d\<rparr>" using act.hyps(2) by (simp add: sched_act_def)
    then show ?thesis using act.IH unfolding exit_inv_def by simp
  next
    case Feed
    then have "feeder_step props \<sigma> = Some \<sigma>'" using act.hyps(2) by (simp only: sched_act_def action.case)
    then show ?thesis by (rule exit_inv_feeder [OF inv assms(2) act.IH])
  next
    case (Cpu i)
    then show ?thesis
      using exit_inv_cpu [OF inv act.IH, of i] act.hyps(2) by (simp add: sched_act_def split: if_splits)
  qed
qed

subsection \<open>No run gets stuck\<close>

lemma joined_iff: "joined \<sigma> \<longleftrightarrow> (\<forall>i<length (cpus \<sigma>). cpus \<sigma> ! i = Exited)"
  by (simp add: joined_def list_all_length)

lemma feeder_ready:
  assumes "events \<sigma> \<noteq> [] \<or> to_mark \<sigma> \<noteq> []" and "CRASH \<notin> set (events \<sigma>)" and "feeder_wake \<sigma> \<le> clock \<sigma>"
  shows "\<exists>\<sigma>'. feeder_step props \<sigma> = Some \<sigma>'"
  using assms by (auto simp: neq_Nil_conv not_less split: list.splits event.splits)

lemma cpu_ready:
  assumes inv: "sched_inv props es opened \<sigma>" and cfg: "run_config props es" and i: "i < ncpus props"
    and c: "cpus \<sigma> ! i = Polling" and q: "rq (queues \<sigma> ! cpu_queue props i) \<noteq> []"
  shows "\<exists>\<sigma>'. cpu_step props \<sigma> i = Some \<sigma>'"
proof -
  let ?k = "cpu_queue props i"
  note I = sched_invD [OF inv] and k = cpu_queue_lt [OF i]
  have size: "0 < rsize (queues \<sigma> ! ?k)" using I(3) [OF k] q by (auto simp: queue_ok_def)
  show ?thesis
  proof (cases "head_is_marker (queues \<sigma> ! ?k)")
    case True
    then show ?thesis using c by (simp add: cpu_step_def Let_def)
  next
    case False
    obtain r where "cpu_turn props i (queues \<sigma> ! ?k) = Some r"
      using cpu_turn_ok [OF I(3) [OF k] marker_of_cases False size, of i] cfg by (auto simp: run_config_def)
    then show ?thesis using c False size by (cases r) (simp add: cpu_step_def Let_def)
  qed
qed

lemma crash_free_feeder:
  "feeder_step props \<sigma> = Some \<sigma>' \<Longrightarrow> set (events \<sigma>') \<subseteq> set (events \<sigma>)"
  by (auto simp: feed_burst_def Let_def split: if_splits list.splits event.splits)

lemma cpu_step_events: "cpu_step props \<sigma> i = Some \<sigma>' \<Longrightarrow> events \<sigma>' = events \<sigma>"
  by (erule cpu_step_cases) simp_all

lemma reachable_events:
  assumes "sched_reachable props es opened \<sigma>"
  shows "set (events \<sigma>) \<subseteq> set es"
  using assms
proof (induction rule: sched_reachable.induct)
  case (act \<sigma> a \<sigma>')
  have "set (events \<sigma>') \<subseteq> set (events \<sigma>)"
  proof (cases a)
    case Feed
    then show ?thesis
      using act.hyps(2) by (intro crash_free_feeder) (simp only: sched_act_def action.case)
  next
    case (Cpu i)
    then show ?thesis
      using act.hyps(2) cpu_step_events [of props \<sigma> i \<sigma>'] by (simp add: sched_act_def split: if_splits)
  qed (use act.hyps(2) in \<open>auto simp: sched_act_def\<close>)
  then show ?case using act.IH by blast
qed (auto simp: sched_boot_def)

lemma some_action_ready:
  assumes inv: "sched_inv props es True \<sigma>" and cfg: "run_config props es"
    and crash: "CRASH \<notin> set (events \<sigma>)" and nj: "\<not> joined \<sigma>"
  shows "\<exists>d a \<sigma>'. (\<forall>n. a \<noteq> Tick n) \<and> sched_run props \<sigma> [Tick d, a] = Some \<sigma>'"
proof -
  note I = sched_invD [OF inv]
  obtain i where i: "i < ncpus props" "cpus \<sigma> ! i \<noteq> Exited" using nj I(2) by (auto simp: joined_iff)
  let ?k = "cpu_queue props i"
  have k: "?k < queuesSize props" by (rule cpu_queue_lt [OF i(1)])
  let ?tick = "\<lambda>d. \<sigma>\<lparr>clock := clock \<sigma> + int d\<rparr>"
  have cpu: ?thesis if "cpu_step props (?tick d) i = Some \<sigma>'" for d \<sigma>'
    using that i(1) by (intro exI [of _ d] exI [of _ "Cpu i"] exI [of _ \<sigma>']) (simp add: sched_act_def)
  show ?thesis
  proof (cases "cpus \<sigma> ! i")
    case (Executing b until again)
    let ?d = "nat (until - clock \<sigma>)"
    have "\<not> clock \<sigma> + int ?d < until" by simp
    then have "\<exists>\<sigma>'. cpu_step props (?tick ?d) i = Some \<sigma>'"
      using Executing by (simp add: cpu_step_def Let_def)
    then show ?thesis using cpu by blast
  next
    case Polling
    show ?thesis
    proof (cases "rq (queues \<sigma> ! ?k) = []")
      case False
      then have "\<exists>\<sigma>'. cpu_step props (?tick 0) i = Some \<sigma>'"
        using cpu_ready [OF inv cfg i(1) Polling] by simp
      then show ?thesis using cpu by blast
    next
      case True
      then have "marker_of True \<sigma> ?k = []" using I(3) [OF k] by (auto simp: queue_ok_def)
      then have "to_mark \<sigma> \<noteq> []" by (auto simp: marker_of_def split: if_splits)
      let ?d = "nat (feeder_wake \<sigma> - clock \<sigma>)"
      have "\<exists>\<sigma>'. feeder_step props (?tick ?d) = Some \<sigma>'"
        by (rule feeder_ready) (use \<open>to_mark \<sigma> \<noteq> []\<close> crash in auto)
      then obtain \<sigma>' where "feeder_step props (?tick ?d) = Some \<sigma>'" by blast
      then show ?thesis
        by (intro exI [of _ ?d] exI [of _ Feed] exI [of _ \<sigma>'])
          (simp add: sched_act_def del: feeder_step.simps)
    qed
  qed (use i(2) in simp)
qed

subsection \<open>Every run ends\<close>

definition burst_work :: "BurstItem \<Rightarrow> nat" where
  "burst_work b = 2 * nat (remainingTime b) + 2"

definition queue_work :: "RQueue \<Rightarrow> nat" where
  "queue_work q = sum_mset (image_mset burst_work (queue_bag q))"

fun cpu_work :: "cpu_state \<Rightarrow> nat" where
  "cpu_work Polling = 1"
| "cpu_work (Executing b _ again) = (if again then burst_work b + 2 else 2)"
| "cpu_work Exited = 0"

fun event_work :: "event \<Rightarrow> nat" where
  "event_work (PL len) = 2 * nat len + 3"
| "event_work _ = 1"

definition potential :: "sched_sys \<Rightarrow> nat" where
  "potential \<sigma> = sum_list (map queue_work (queues \<sigma>)) + sum_list (map cpu_work (cpus \<sigma>)) +
     sum_list (map event_work (events \<sigma>)) + length (to_mark \<sigma>)"

lemma queue_work_add: "queue_bag q' = queue_bag q + {#b#} \<Longrightarrow> queue_work q' = queue_work q + burst_work b"
  by (simp add: queue_work_def)

lemma feeder_potential:
  assumes inv: "sched_inv props es opened \<sigma>" and step: "feeder_step props \<sigma> = Some \<sigma>'"
  shows "potential \<sigma>' < potential \<sigma>"
proof -
  note I = sched_invD [OF inv]
  consider (burst) len es' where "events \<sigma> = PL len # es'" "\<sigma>' = feed_burst props (\<sigma>\<lparr>events := es'\<rparr>) len"
    | (other) e es' where "events \<sigma> = e # es'" "events \<sigma>' = es'" "queues \<sigma>' = queues \<sigma>"
      "cpus \<sigma>' = cpus \<sigma>" "to_mark \<sigma>' = to_mark \<sigma>"
    | (mark) i "is" where "events \<sigma> = []" "to_mark \<sigma> = i # is"
      "\<sigma>' = \<sigma>\<lparr>queues := enqueue_at i stop_item (queues \<sigma>), to_mark := is\<rparr>"
    using step by (auto split: if_splits list.splits event.splits)
  then show ?thesis
  proof cases
    case burst
    define i where "i = choose_queue props (\<sigma>\<lparr>events := es'\<rparr>)"
    define b where "b = (let bi = new_burst props (\<sigma>\<lparr>events := es'\<rparr>) len
      in if sets_processor props then bi\<lparr>processorId := int i\<rparr> else bi)"
    have i: "i < queuesSize props" unfolding i_def by (rule choose_queue_lt) (use I(8) in simp)
    have op: "opened" using I(12) burst(1) by auto
    have "marker_of opened \<sigma> i = []" using I(5) op burst(1) i by (simp add: marker_of_def)
    then obtain js where js: "rq (queues \<sigma> ! i) = js" "\<forall>b\<in>set js. \<not> mark b"
      using I(3) [OF i] by (auto simp: queue_ok_def)
    have nm: "\<not> mark b" using I(7) by (simp add: b_def Let_def new_burst_def mark_def)
    have "queue_bag (rq_enqueue (queues \<sigma> ! i) b) = queue_bag (queues \<sigma> ! i) + {#b#}"
      using ins_burst_jobs [of js "[]" b] js nm by (simp add: queue_bag_def rq_enqueue_def)
    from queue_work_add [OF this]
    have "sum_list (map queue_work ((queues \<sigma>)[i := rq_enqueue (queues \<sigma> ! i) b]))
        = sum_list (map queue_work (queues \<sigma>)) + burst_work b"
      using sum_list_upd [of i "queues \<sigma>" queue_work "rq_enqueue (queues \<sigma> ! i) b"] i I(1) by simp
    moreover have "burst_work b = 2 * nat len + 2"
      by (simp add: b_def Let_def new_burst_def burst_work_def)
    moreover have "queues \<sigma>' = (queues \<sigma>)[i := rq_enqueue (queues \<sigma> ! i) b]" "events \<sigma>' = es'"
      "to_mark \<sigma>' = to_mark \<sigma>" "cpus \<sigma>' = cpus \<sigma>"
      using burst(2) by (simp_all add: feed_burst_def Let_def i_def b_def enqueue_at_def)
    ultimately show ?thesis using burst(1) by (simp add: potential_def)
  next
    case other
    moreover have "0 < event_work e" by (cases e) auto
    ultimately show ?thesis by (simp add: potential_def)
  next
    case mark
    obtain m where m: "i # is = [m..<queuesSize props]" using I(4) mark(2) by auto
    then have i: "i < queuesSize props" by (cases "m < queuesSize props") (auto simp: upt_conv_Cons)
    have "marker_of opened \<sigma> i = []" using mark(2) by (simp add: marker_of_def)
    then have "queue_bag (rq_enqueue (queues \<sigma> ! i) stop_item) = queue_bag (queues \<sigma> ! i)"
      using I(3) [OF i] queue_ok_enqueue_stop(2) [of props "clock \<sigma>"] by simp
    then have "queue_work (rq_enqueue (queues \<sigma> ! i) stop_item) = queue_work (queues \<sigma> ! i)"
      by (simp add: queue_work_def)
    then show ?thesis
      using sum_list_upd [of i "queues \<sigma>" queue_work "rq_enqueue (queues \<sigma> ! i) stop_item"] i I(1) mark
      by (simp add: potential_def enqueue_at_def)
  qed
qed

lemma cpu_potential:
  assumes inv: "sched_inv props es opened \<sigma>" and cfg: "run_config props es" and i: "i < ncpus props"
    and step: "cpu_step props \<sigma> i = Some \<sigma>'"
  shows "potential \<sigma>' < potential \<sigma>"
  using step
proof (cases rule: cpu_step_cases)
  case exit
  then show ?thesis
    using sum_list_upd [of i "cpus \<sigma>" cpu_work Exited] sched_invD(2) [OF inv] i by (simp add: potential_def)
next
  case (turn q' b' t again)
  note I = sched_invD [OF inv]
  let ?k = "cpu_queue props i" and ?c = "Executing b' (clock \<sigma> + t * 1000) again"
  have k: "?k < queuesSize props" by (rule cpu_queue_lt [OF i])
  obtain r where "cpu_turn props i (queues \<sigma> ! ?k) = Some r"
    "turn_ok props (clock \<sigma>) (marker_of opened \<sigma> ?k) (queues \<sigma> ! ?k) r"
    using cpu_turn_ok [OF I(3) [OF k] marker_of_cases turn(2,3), of i] cfg by (auto simp: run_config_def)
  then obtain b where b: "queue_bag (queues \<sigma> ! ?k) = queue_bag q' + {#b#}"
    "served (start props) (clock \<sigma> + t * 1000) b'" "again \<longrightarrow> remainingTime b' < remainingTime b"
    using turn(4) by (auto simp: turn_ok_def)
  have "0 \<le> remainingTime b'" using b(2) by (simp add: served_def)
  then have "again \<Longrightarrow> Suc (nat (remainingTime b')) \<le> nat (remainingTime b)" using b(3) by linarith
  then have "cpu_work ?c < burst_work b + 1" by (cases again) (simp_all add: burst_work_def)
  moreover have "sum_list (map queue_work ((queues \<sigma>)[?k := q'])) + burst_work b = sum_list (map queue_work (queues \<sigma>))"
    using sum_list_upd [of ?k "queues \<sigma>" queue_work q'] queue_work_add [OF b(1)] k I(1) by simp
  moreover have "sum_list (map cpu_work ((cpus \<sigma>)[i := ?c])) + 1 = sum_list (map cpu_work (cpus \<sigma>)) + cpu_work ?c"
    using sum_list_upd [of i "cpus \<sigma>" cpu_work ?c] i I(2) turn(1) by simp
  ultimately show ?thesis using turn(5) by (simp add: potential_def)
next
  case (requeue b until)
  note I = sched_invD [OF inv]
  let ?k = "cpu_queue props i"
  have k: "?k < queuesSize props" by (rule cpu_queue_lt [OF i])
  have "cpu_ok (start props) (Executing b until True)"
    using I(9) [OF nth_mem [of i "cpus \<sigma>"]] requeue(1) i I(2) by simp
  then have b: "\<not> mark b" "served (start props) (clock \<sigma>) b"
    using served_mono [OF _ requeue(2)] by simp_all
  note enq = queue_ok_enqueue_job(2) [OF I(3) [OF k] marker_of_cases b]
  have "sum_list (map queue_work ((queues \<sigma>)[?k := rq_enqueue (queues \<sigma> ! ?k) b]))
      = sum_list (map queue_work (queues \<sigma>)) + burst_work b"
    using sum_list_upd [of ?k "queues \<sigma>" queue_work "rq_enqueue (queues \<sigma> ! ?k) b"]
      queue_work_add [OF enq] k I(1) by simp
  moreover have "sum_list (map cpu_work ((cpus \<sigma>)[i := Polling])) + (burst_work b + 2)
      = sum_list (map cpu_work (cpus \<sigma>)) + 1"
    using sum_list_upd [of i "cpus \<sigma>" cpu_work Polling] i I(2) requeue(1) by simp
  ultimately show ?thesis using requeue(3) by (simp add: potential_def enqueue_at_def)
next
  case (finish b until)
  have "sum_list (map cpu_work ((cpus \<sigma>)[i := Polling])) + 2 = sum_list (map cpu_work (cpus \<sigma>)) + 1"
    using sum_list_upd [of i "cpus \<sigma>" cpu_work Polling] i sched_invD(2) [OF inv] finish(1) by simp
  then show ?thesis using finish(3) by (simp add: potential_def)
qed

fun is_tick :: "action \<Rightarrow> bool" where
  "is_tick (Tick _) = True"
| "is_tick _ = False"

lemma run_potential:
  assumes "sched_run props \<sigma> as = Some \<sigma>'" and "sched_inv props es opened \<sigma>" and "run_config props es"
  shows "length (filter (\<lambda>a. \<not> is_tick a) as) + potential \<sigma>' \<le> potential \<sigma>"
  using assms(1,2)
proof (induction as arbitrary: \<sigma>)
  case (Cons a as)
  then obtain \<sigma>1 where s1: "sched_act props \<sigma> a = Some \<sigma>1" "sched_run props \<sigma>1 as = Some \<sigma>'"
    by (auto split: option.splits)
  have inv1: "sched_inv props es opened \<sigma>1" by (rule sched_act_inv [OF Cons.prems(2) assms(3) s1(1)])
  have "(if is_tick a then 0 else 1) + potential \<sigma>1 \<le> potential \<sigma>"
  proof (cases a)
    case (Tick d)
    then have "potential \<sigma>1 = potential \<sigma>" using s1(1) by (auto simp: sched_act_def potential_def)
    then show ?thesis using Tick by simp
  next
    case Feed
    then have "feeder_step props \<sigma> = Some \<sigma>1" using s1(1) by (simp only: sched_act_def action.case)
    then show ?thesis using feeder_potential [OF Cons.prems(2)] Feed by (simp add: Suc_leI)
  next
    case (Cpu i)
    then have "i < ncpus props" "cpu_step props \<sigma> i = Some \<sigma>1"
      using s1(1) by (simp_all add: sched_act_def split: if_splits)
    then show ?thesis using cpu_potential [OF Cons.prems(2) assms(3)] Cpu by (simp add: Suc_leI)
  qed
  then show ?case using Cons.IH [OF s1(2) inv1] by (auto split: if_splits)
qed simp

end
