(* ===== verification/SchedPlacement.thy ===== *)
theory SchedPlacement
  imports SchedLiveness
begin

text \<open>
  Where bursts run: the shortest job is the one a processor takes under SJF, the queue loads are
  the sums of the burst lengths they hold, and with round-robin queue selection a burst stays
  with the processor its number says.
\<close>

subsection \<open>The shortest job\<close>

definition not_shorter :: "BurstItem \<Rightarrow> BurstItem \<Rightarrow> bool" where
  "not_shorter b x \<longleftrightarrow> mark x \<or> remainingTime b \<le> remainingTime x"

lemma sjf_scan_split:
  "(sjf_scan h bs = h \<and> (\<forall>x\<in>set bs. not_shorter h x)) \<or>
   (\<exists>xs ys. bs = xs @ sjf_scan h bs # ys \<and> remainingTime (sjf_scan h bs) < remainingTime h \<and>
      (\<forall>x\<in>set xs. mark x \<or> remainingTime (sjf_scan h bs) < remainingTime x) \<and>
      (\<forall>y\<in>set ys. not_shorter (sjf_scan h bs) y))"
proof (induction bs arbitrary: h)
  case (Cons c cs)
  show ?case
  proof (cases "pid c \<noteq> -1 \<and> remainingTime c < remainingTime h")
    case True
    then have eq: "sjf_scan h (c # cs) = sjf_scan c cs" by simp
    from Cons.IH [of c] show ?thesis
    proof (elim disjE conjE exE)
      assume "sjf_scan c cs = c" "\<forall>x\<in>set cs. not_shorter c x"
      then show ?thesis
        unfolding eq using True by (intro disjI2 exI [of _ "[]"] exI [of _ cs]) simp
    next
      fix xs ys
      assume "cs = xs @ sjf_scan c cs # ys" "remainingTime (sjf_scan c cs) < remainingTime c"
        "\<forall>x\<in>set xs. mark x \<or> remainingTime (sjf_scan c cs) < remainingTime x"
        "\<forall>y\<in>set ys. not_shorter (sjf_scan c cs) y"
      then show ?thesis
        unfolding eq using True by (intro disjI2 exI [of _ "c # xs"] exI [of _ ys]) auto
    qed
  next
    case False
    then have eq: "sjf_scan h (c # cs) = sjf_scan h cs" and c: "mark c \<or> remainingTime h \<le> remainingTime c"
      by (auto simp: mark_def)
    from Cons.IH [of h] show ?thesis
    proof (elim disjE conjE exE)
      assume "sjf_scan h cs = h" "\<forall>x\<in>set cs. not_shorter h x"
      then show ?thesis unfolding eq using c by (intro disjI1) (auto simp: not_shorter_def)
    next
      fix xs ys
      assume "cs = xs @ sjf_scan h cs # ys" "remainingTime (sjf_scan h cs) < remainingTime h"
        "\<forall>x\<in>set xs. mark x \<or> remainingTime (sjf_scan h cs) < remainingTime x"
        "\<forall>y\<in>set ys. not_shorter (sjf_scan h cs) y"
      then show ?thesis
        unfolding eq using c by (intro disjI2 exI [of _ "c # xs"] exI [of _ ys]) auto
    qed
  qed
qed simp

lemma sjf_first_shortest:
  assumes "bs = h # rest"
  shows "\<exists>xs ys. bs = xs @ sjf_scan h bs # ys \<and>
      (\<forall>x\<in>set xs. mark x \<or> remainingTime (sjf_scan h bs) < remainingTime x) \<and>
      (\<forall>y\<in>set ys. not_shorter (sjf_scan h bs) y)"
  using sjf_scan_split [of h bs]
proof (elim disjE conjE exE)
  assume "sjf_scan h bs = h" "\<forall>x\<in>set bs. not_shorter h x"
  then show ?thesis using assms by (intro exI [of _ "[]"] exI [of _ rest]) simp
qed blast

lemma take_pid_first:
  "pid b = p \<Longrightarrow> \<forall>x\<in>set xs. pid x \<noteq> p \<Longrightarrow> take_pid p (xs @ b # ys) = Some (b, xs @ ys)"
  by (induction xs) auto

subsection \<open>Process ids are never reused\<close>

lemma numbered_distinct: "distinct (map fst (numbered k es))"
proof (induction k es rule: numbered.induct)
  case (2 k len es)
  then show ?case using numbered_nomark [of _ "k + 1" es] by fastforce
qed auto

lemma bag_pids_distinct:
  assumes "sched_inv props es opened \<sigma>"
  shows "\<exists>ks. distinct ks \<and> image_mset pid (bag \<sigma>) \<subseteq># mset ks"
proof -
  let ?ns = "numbered 1 (if opened then es else [])"
  have "image_mset bkey (bag \<sigma>) \<subseteq># mset ?ns"
    using sched_invD(6) [OF assms] by (metis mset_subset_eq_add_left)
  then have "image_mset fst (image_mset bkey (bag \<sigma>)) \<subseteq># image_mset fst (mset ?ns)"
    by (rule image_mset_subseteq_mono)
  moreover have "image_mset fst (image_mset bkey (bag \<sigma>)) = image_mset pid (bag \<sigma>)"
    by (simp add: multiset.map_comp comp_def bkey_def)
  ultimately show ?thesis
    using numbered_distinct [of 1 "if opened then es else []"]
    by (intro exI [of _ "map fst ?ns"]) simp
qed

lemma sum_list_part:
  fixes f :: "'a \<Rightarrow> 'b multiset"
  shows "i < length xs \<Longrightarrow> f (xs ! i) \<subseteq># sum_list (map f xs)"
proof (induction xs arbitrary: i)
  case (Cons x xs)
  then show ?case by (cases i) (auto intro: subset_mset.add_increasing subset_mset.order_trans)
qed simp

lemma distinct_sub_mset:
  assumes "distinct ks" and "mset xs \<subseteq># mset ks"
  shows "distinct xs"
proof -
  have "count (mset xs) a \<le> 1" for a
  proof -
    have "count (mset ks) a \<le> 1"
      using assms(1) count_mset_0_iff [of ks a] by (auto simp: distinct_count_atmost_1)
    then show ?thesis using mset_subset_eq_count [OF assms(2), of a] by linarith
  qed
  then show ?thesis
    unfolding distinct_count_atmost_1
    by (metis count_eq_zero_iff le_neq_implies_less less_one set_mset_mset)
qed

lemma queue_pids_distinct:
  assumes inv: "sched_inv props es opened \<sigma>" and k: "k < queuesSize props"
  shows "distinct (map pid (filter (\<lambda>b. \<not> mark b) (rq (queues \<sigma> ! k))))"
proof -
  obtain ks where ks: "distinct ks" "image_mset pid (bag \<sigma>) \<subseteq># mset ks"
    using bag_pids_distinct [OF inv] by blast
  have "queue_bag (queues \<sigma> ! k) \<subseteq># sum_list (map queue_bag (queues \<sigma>))"
    by (rule sum_list_part) (use k sched_invD(1) [OF inv] in simp)
  then have "queue_bag (queues \<sigma> ! k) \<subseteq># bag \<sigma>"
    unfolding bag_def by (simp add: subset_mset.add_increasing2 add.assoc)
  then have "image_mset pid (queue_bag (queues \<sigma> ! k)) \<subseteq># mset ks"
    using ks(2) image_mset_subseteq_mono subset_mset.order_trans by blast
  then have "mset (map pid (filter (\<lambda>b. \<not> mark b) (rq (queues \<sigma> ! k)))) \<subseteq># mset ks"
    by (simp add: queue_bag_def)
  then show ?thesis by (rule distinct_sub_mset [OF ks(1)])
qed

subsection \<open>Queue loads\<close>

definition load_inv :: "SchedProps \<Rightarrow> sched_sys \<Rightarrow> bool" where
  "load_inv props \<sigma> \<longleftrightarrow> (\<forall>k<queuesSize props. rload (queues \<sigma> ! k)
     = junk_load props k + sum_list (map burstLength (rq (queues \<sigma> ! k))))"

lemma load_enqueue:
  "rload (rq_enqueue q b) - sum_list (map burstLength (rq (rq_enqueue q b)))
     = rload q - sum_list (map burstLength (rq q))"
  by (cases "rq q" rule: rev_cases) (auto simp: rq_enqueue_def ins_burst_def butlast_append)

lemma load_remove:
  "rq q = xs @ b # ys \<Longrightarrow> rload q - burstLength b - sum_list (map burstLength (xs @ ys))
     = rload q - sum_list (map burstLength (rq q))"
  by simp

text \<open>Every turn takes one item out, and changes only fields that do not identify it.\<close>

definition taken :: "SchedProps \<Rightarrow> nat \<Rightarrow> RQueue \<Rightarrow> RQueue \<Rightarrow> BurstItem \<Rightarrow> bool" where
  "taken props i q q' b' \<longleftrightarrow> (\<exists>xs b ys. rq q = xs @ b # ys \<and> bkey b' = bkey b \<and>
     q' = q\<lparr>rq := xs @ ys, rsize := rsize q - 1, rload := rload q - burstLength b\<rparr> \<and>
     (alg props \<noteq> ALG_RR \<longrightarrow> processorId b' = int i))"

lemma dequeue_split:
  "rq_dequeue q = Some (b, q') \<Longrightarrow> \<exists>ys. rq q = [] @ b # ys \<and>
     q' = q\<lparr>rq := [] @ ys, rsize := rsize q - 1, rload := rload q - burstLength b\<rparr>"
  by (auto simp: rq_dequeue_def split: list.splits)

lemma dequeue_at_split:
  "rq_dequeue_at q p = Some (b, q') \<Longrightarrow> \<exists>xs ys. rq q = xs @ b # ys \<and>
     q' = q\<lparr>rq := xs @ ys, rsize := rsize q - 1, rload := rload q - burstLength b\<rparr>"
  by (auto simp: rq_dequeue_at_def split: option.splits dest!: take_pid_Some)

lemma cpu_turn_taken:
  assumes "cpu_turn props i q = Some (q', b', t, again)"
  shows "taken props i q q' b'"
proof (cases "alg props")
  case ALG_FCFS
  then obtain b where b: "rq_dequeue q = Some (b, q')" "b' = b\<lparr>remainingTime := 0, processorId := int i\<rparr>"
    using assms by (auto simp: cpu_turn_def fcfs_turn_def split: option.splits)
  then show ?thesis using dequeue_split [OF b(1)] ALG_FCFS unfolding taken_def by (fastforce simp: bkey_def)
next
  case ALG_RR
  then obtain b where b: "rq_dequeue q = Some (b, q')" "bkey b' = bkey b"
    using assms by (auto simp: cpu_turn_def rr_turn_def bkey_def split: option.splits if_splits)
  then show ?thesis using dequeue_split [OF b(1)] ALG_RR unfolding taken_def by fastforce
next
  case ALG_SJF
  then obtain p b where b: "rq_dequeue_at q p = Some (b, q')" "b' = b\<lparr>remainingTime := 0, processorId := int i\<rparr>"
    using assms by (auto simp: cpu_turn_def sjf_turn_def split: option.splits list.splits)
  then show ?thesis using dequeue_at_split [OF b(1)] ALG_SJF unfolding taken_def by (fastforce simp: bkey_def)
qed

lemma load_upd:
  assumes "load_inv props \<sigma>" and "queues \<sigma>' = (queues \<sigma>)[i := q']"
    and "rload q' - sum_list (map burstLength (rq q')) =
         rload (queues \<sigma> ! i) - sum_list (map burstLength (rq (queues \<sigma> ! i)))"
  shows "load_inv props \<sigma>'"
  unfolding load_inv_def
proof (intro allI impI)
  fix k assume k: "k < queuesSize props"
  have "rload (queues \<sigma> ! k) = junk_load props k + sum_list (map burstLength (rq (queues \<sigma> ! k)))"
    using assms(1) k by (simp add: load_inv_def)
  then show "rload (queues \<sigma>' ! k) = junk_load props k + sum_list (map burstLength (rq (queues \<sigma>' ! k)))"
    using assms(2,3) by (cases "k = i \<and> i < length (queues \<sigma>)") (auto simp: nth_list_update list_update_beyond)
qed

lemma load_same: "load_inv props \<sigma> \<Longrightarrow> queues \<sigma>' = queues \<sigma> \<Longrightarrow> load_inv props \<sigma>'"
  by (simp add: load_inv_def)

lemma reachable_load:
  assumes "sched_reachable props es opened \<sigma>"
  shows "load_inv props \<sigma>"
  using assms
proof (induction rule: sched_reachable.induct)
  case boot
  then show ?case by (simp add: load_inv_def sched_boot_def empty_queue_def)
next
  case (act \<sigma> a \<sigma>')
  show ?case
  proof (cases a)
    case (Tick d)
    then show ?thesis using act load_same [OF act.IH] by (auto simp: sched_act_def)
  next
    case Feed
    then have "feeder_step props \<sigma> = Some \<sigma>'" using act.hyps(2) by (simp only: sched_act_def action.case)
    then consider "queues \<sigma>' = queues \<sigma>" | i b where "queues \<sigma>' = (queues \<sigma>)[i := rq_enqueue (queues \<sigma> ! i) b]"
      by (auto simp: feed_burst_def Let_def enqueue_at_def split: if_splits list.splits event.splits)
    then show ?thesis
    proof cases
      case 1
      then show ?thesis by (rule load_same [OF act.IH])
    next
      case 2
      then show ?thesis by (rule load_upd [OF act.IH _ load_enqueue])
    qed
  next
    case (Cpu i)
    then have "cpu_step props \<sigma> i = Some \<sigma>'" using act.hyps(2) by (simp add: sched_act_def split: if_splits)
    then show ?thesis
    proof (cases rule: cpu_step_cases)
      case (turn q' b' t again)
      obtain xs b ys where tk: "rq (queues \<sigma> ! cpu_queue props i) = xs @ b # ys"
        "q' = (queues \<sigma> ! cpu_queue props i)\<lparr>rq := xs @ ys,
           rsize := rsize (queues \<sigma> ! cpu_queue props i) - 1,
           rload := rload (queues \<sigma> ! cpu_queue props i) - burstLength b\<rparr>"
        using cpu_turn_taken [OF turn(4)] unfolding taken_def by blast
      show ?thesis
      proof (rule load_upd [OF act.IH])
        show "queues \<sigma>' = (queues \<sigma>)[cpu_queue props i := q']" using turn(5) by simp
        show "rload q' - sum_list (map burstLength (rq q')) = rload (queues \<sigma> ! cpu_queue props i) -
            sum_list (map burstLength (rq (queues \<sigma> ! cpu_queue props i)))"
          using load_remove [OF tk(1)] unfolding tk(2) by simp
      qed
    next
      case (requeue b until)
      show ?thesis
        by (rule load_upd [OF act.IH _ load_enqueue]) (simp add: requeue enqueue_at_def)
    qed (auto intro: load_same [OF act.IH])
  qed
qed

text \<open>The search finds the first queue with the smallest load.\<close>

lemma scan_fold_least:
  fixes f :: "nat \<Rightarrow> int"
  assumes "l = f k"
  shows "case fold (\<lambda>i (idx, ld). if f i < ld then (i, f i) else (idx, ld)) xs (k, l) of (idx, ld) \<Rightarrow>
     ld = f idx \<and> f idx \<le> l \<and> (\<forall>i\<in>set xs. f idx \<le> f i)"
  using assms
proof (induction xs arbitrary: k l)
  case (Cons x xs)
  show ?case
    using Cons.IH [of "f x" x] Cons.IH [OF Cons.prems] by (auto simp: Cons.prems split: prod.splits)
qed simp

lemma scan_fold_first:
  fixes f :: "nat \<Rightarrow> int"
  assumes "l = f k"
  shows "fst (fold (\<lambda>i (idx, ld). if f i < ld then (i, f i) else (idx, ld)) xs (k, l)) = k \<or>
    (\<exists>ys zs. xs = ys @ fst (fold (\<lambda>i (idx, ld). if f i < ld then (i, f i) else (idx, ld)) xs (k, l)) # zs \<and>
       (\<forall>i\<in>insert k (set ys). f (fst (fold (\<lambda>i (idx, ld). if f i < ld then (i, f i) else (idx, ld)) xs (k, l))) < f i))"
  using assms
proof (induction xs arbitrary: k l)
  case (Cons x xs)
  let ?F = "\<lambda>i (idx, ld). if f i < ld then (i, f i) else (idx, ld)"
  show ?case
  proof (cases "f x < l")
    case True
    then have eq: "fold ?F (x # xs) (k, l) = fold ?F xs (x, f x)" by simp
    from Cons.IH [OF refl, of x] show ?thesis
    proof (elim disjE exE conjE)
      assume "fst (fold ?F xs (x, f x)) = x"
      then show ?thesis unfolding eq using True Cons.prems
        by (intro disjI2 exI [of _ "[]"] exI [of _ xs]) simp
    next
      fix ys zs
      assume "xs = ys @ fst (fold ?F xs (x, f x)) # zs"
        "\<forall>i\<in>insert x (set ys). f (fst (fold ?F xs (x, f x))) < f i"
      then show ?thesis unfolding eq using True Cons.prems
        by (intro disjI2 exI [of _ "x # ys"] exI [of _ zs]) auto
    qed
  next
    case False
    then have eq: "fold ?F (x # xs) (k, l) = fold ?F xs (k, l)" by simp
    from Cons.IH [OF Cons.prems] show ?thesis
    proof (elim disjE exE conjE)
      fix ys zs
      assume *: "xs = ys @ fst (fold ?F xs (k, l)) # zs"
        "\<forall>i\<in>insert k (set ys). f (fst (fold ?F xs (k, l))) < f i"
      then have "f (fst (fold ?F xs (k, l))) < f x" using False Cons.prems by auto
      then show ?thesis unfolding eq using *
        by (intro disjI2 exI [of _ "x # ys"] exI [of _ zs]) auto
    qed (use False in simp)
  qed
qed simp

lemma before_in_upt:
  assumes "[0..<n] = ys @ m # zs" and "k < m"
  shows "k \<in> set ys"
proof -
  have "sorted_wrt (<) (ys @ m # zs)" using sorted_wrt_upt [of 0 n] assms(1) by simp
  then have "\<forall>z\<in>set zs. m < z" by (simp add: sorted_wrt_append)
  moreover have all: "set (ys @ m # zs) = {0..<n}" unfolding assms(1) [symmetric] by simp
  then have "m < n" by (metis atLeastLessThan_iff in_set_conv_decomp)
  then have "k \<in> set (ys @ m # zs)" using assms(2) unfolding all by simp
  ultimately show ?thesis using assms(2) by auto
qed

lemma least_loaded_correct:
  assumes "0 < n"
  shows "\<forall>k<n. rload (ques ! least_loaded ques n) \<le> rload (ques ! k)"
    and "\<forall>k<least_loaded ques n. rload (ques ! least_loaded ques n) < rload (ques ! k)"
proof -
  let ?f = "\<lambda>i. rload (ques ! i)"
  show "\<forall>k<n. ?f (least_loaded ques n) \<le> ?f k"
    using scan_fold_least [of "?f 0" ?f 0 "[0..<n]"] by (auto simp: least_loaded_def split: prod.splits)
  show "\<forall>k<least_loaded ques n. ?f (least_loaded ques n) < ?f k"
    using scan_fold_first [of "?f 0" ?f 0 "[0..<n]", OF refl]
  proof (elim disjE exE conjE)
    fix ys zs
    assume "[0..<n] = ys @ fst (fold (\<lambda>i (idx, ld). if ?f i < ld then (i, ?f i) else (idx, ld)) [0..<n] (0, ?f 0)) # zs"
      "\<forall>i\<in>insert 0 (set ys). ?f (fst (fold (\<lambda>i (idx, ld). if ?f i < ld then (i, ?f i) else (idx, ld)) [0..<n] (0, ?f 0))) < ?f i"
    then have split: "[0..<n] = ys @ least_loaded ques n # zs" and less: "\<forall>i\<in>set ys. ?f (least_loaded ques n) < ?f i"
      by (simp_all add: least_loaded_def)
    show ?thesis using less before_in_upt [OF split] by blast
  qed (simp_all add: least_loaded_def)
qed

subsection \<open>Round-robin selection\<close>

definition home :: "SchedProps \<Rightarrow> BurstItem \<Rightarrow> int" where
  "home props b = (pid b - 1) mod int (ncpus props)"

definition home_inv :: "SchedProps \<Rightarrow> sched_sys \<Rightarrow> bool" where
  "home_inv props \<sigma> \<longleftrightarrow>
     int (queueIdx \<sigma>) = (nextPid \<sigma> - 1) mod int (ncpus props) \<and>
     (\<forall>k<ncpus props. \<forall>b\<in>set (rq (queues \<sigma> ! k)). mark b \<or> home props b = int k) \<and>
     (\<forall>i<ncpus props. \<forall>b u a. cpus \<sigma> ! i = Executing b u a \<longrightarrow>
        home props b = int i \<and> (alg props \<noteq> ALG_RR \<longrightarrow> processorId b = int i)) \<and>
     (\<forall>b\<in>set (rq (finishedQueue \<sigma>)). processorId b = home props b)"

lemma home_bkey: "bkey b' = bkey b \<Longrightarrow> home props b' = home props b"
  by (simp add: home_def bkey_def)

lemma set_ins_burst: "set (ins_burst b bs) = insert b (set bs)"
  by (cases bs rule: rev_cases) (auto simp: ins_burst_def)

lemma home_invD:
  assumes "home_inv props \<sigma>"
  shows "int (queueIdx \<sigma>) = (nextPid \<sigma> - 1) mod int (ncpus props)"
    and "k < ncpus props \<Longrightarrow> b \<in> set (rq (queues \<sigma> ! k)) \<Longrightarrow> mark b \<or> home props b = int k"
    and "i < ncpus props \<Longrightarrow> cpus \<sigma> ! i = Executing b u a \<Longrightarrow>
      home props b = int i \<and> (alg props \<noteq> ALG_RR \<longrightarrow> processorId b = int i)"
    and "b \<in> set (rq (finishedQueue \<sigma>)) \<Longrightarrow> processorId b = home props b"
  using assms unfolding home_inv_def by blast+

text \<open>Changing one queue and one processor.\<close>

lemma home_inv_upd:
  assumes "home_inv props \<sigma>" and "length (queues \<sigma>) = ncpus props" and "length (cpus \<sigma>) = ncpus props"
    and "queues \<sigma>' = (queues \<sigma>)[k := q']" and "cpus \<sigma>' = (cpus \<sigma>)[i := c]"
    and "\<And>b. b \<in> set (rq q') \<Longrightarrow> mark b \<or> home props b = int k"
    and "\<And>b u a. c = Executing b u a \<Longrightarrow>
      home props b = int i \<and> (alg props \<noteq> ALG_RR \<longrightarrow> processorId b = int i)"
    and "\<And>b. b \<in> set (rq (finishedQueue \<sigma>')) \<Longrightarrow> processorId b = home props b"
    and "int (queueIdx \<sigma>') = (nextPid \<sigma>' - 1) mod int (ncpus props)"
  shows "home_inv props \<sigma>'"
proof -
  have "mark b \<or> home props b = int j" if "j < ncpus props" "b \<in> set (rq (queues \<sigma>' ! j))" for j b
    using that assms(6) [of b] home_invD(2) [OF assms(1) that(1), of b] assms(2,4)
    by (cases "j = k") (auto simp: nth_list_update)
  moreover have "home props b = int j \<and> (alg props \<noteq> ALG_RR \<longrightarrow> processorId b = int j)"
    if "j < ncpus props" "cpus \<sigma>' ! j = Executing b u a" for j b u a
    using that assms(7) [of b u a] home_invD(3) [OF assms(1) that(1), of b u a] assms(3,5)
    by (cases "j = i") (auto simp: nth_list_update)
  ultimately show ?thesis unfolding home_inv_def using assms(8,9) by blast
qed

lemma finished_snoc:
  assumes "sched_inv props es opened \<sigma>"
  shows "set (rq (rq_enqueue (finishedQueue \<sigma>) b)) = insert b (set (rq (finishedQueue \<sigma>)))"
  by (simp add: rq_enqueue_def set_ins_burst)

lemma next_index:
  assumes "int q = (p - 1) mod int n"
  shows "int ((q + 1) mod n) = p mod int n"
proof -
  have "int ((q + 1) mod n) = ((p - 1) mod int n + 1) mod int n"
    by (simp add: of_nat_mod assms add.commute)
  also have "\<dots> = (p - 1 + 1) mod int n" by (rule mod_add_left_eq)
  finally show ?thesis by simp
qed

lemma home_feeder:
  assumes home: "home_inv props \<sigma>" and inv: "sched_inv props es opened \<sigma>"
    and cfg: "sap props = SAP_MULTI" "qs props = QS_RM" and step: "feeder_step props \<sigma> = Some \<sigma>'"
  shows "home_inv props \<sigma>'"
proof -
  note I = sched_invD [OF inv] and H = home_invD [OF home]
  have size: "queuesSize props = ncpus props" using cfg(1) by (simp add: queuesSize_def)
  consider (burst) len es' where "events \<sigma> = PL len # es'" "\<sigma>' = feed_burst props (\<sigma>\<lparr>events := es'\<rparr>) len"
    | (other) "queues \<sigma>' = queues \<sigma>" "cpus \<sigma>' = cpus \<sigma>" "finishedQueue \<sigma>' = finishedQueue \<sigma>"
      "queueIdx \<sigma>' = queueIdx \<sigma>" "nextPid \<sigma>' = nextPid \<sigma>"
    | (mark) i "is" where "\<sigma>' = \<sigma>\<lparr>queues := enqueue_at i stop_item (queues \<sigma>), to_mark := is\<rparr>"
    using step by (auto split: if_splits list.splits event.splits)
  then show ?thesis
  proof cases
    case burst
    define b where "b = (new_burst props (\<sigma>\<lparr>events := es'\<rparr>) len)\<lparr>processorId := int (queueIdx \<sigma>)\<rparr>"
    have b: "home props b = int (queueIdx \<sigma>)"
      using H(1) by (simp add: b_def new_burst_def home_def)
    have flds: "queues \<sigma>' = (queues \<sigma>)[queueIdx \<sigma> := rq_enqueue (queues \<sigma> ! queueIdx \<sigma>) b]"
      "cpus \<sigma>' = (cpus \<sigma>)[0 := cpus \<sigma> ! 0]" "finishedQueue \<sigma>' = finishedQueue \<sigma>"
      "queueIdx \<sigma>' = (queueIdx \<sigma> + 1) mod ncpus props" "nextPid \<sigma>' = nextPid \<sigma> + 1"
      using burst(2) cfg size
      by (simp_all add: feed_burst_def Let_def choose_queue_def sets_processor_def b_def enqueue_at_def)
    show ?thesis
    proof (rule home_inv_upd [OF home _ I(2) flds(1,2)])
      show "length (queues \<sigma>) = ncpus props" using I(1) size by simp
      show "int (queueIdx \<sigma>') = (nextPid \<sigma>' - 1) mod int (ncpus props)"
        using next_index [OF H(1)] unfolding flds(4,5) by simp
      fix c assume "c \<in> set (rq (rq_enqueue (queues \<sigma> ! queueIdx \<sigma>) b))"
      then show "mark c \<or> home props c = int (queueIdx \<sigma>)"
        using b H(2) [of "queueIdx \<sigma>" c] I(8) size by (auto simp: rq_enqueue_def set_ins_burst)
    next
      fix c u a assume "cpus \<sigma> ! 0 = Executing c u a"
      then show "home props c = int 0 \<and> (alg props \<noteq> ALG_RR \<longrightarrow> processorId c = int 0)"
        using H(3) [of 0 c u a] I(8) size by simp
    qed (use H(4) flds(3) in simp)
  next
    case other
    then show ?thesis using home unfolding home_inv_def by simp
  next
    case mark
    have flds: "queues \<sigma>' = (queues \<sigma>)[i := rq_enqueue (queues \<sigma> ! i) stop_item]"
      "cpus \<sigma>' = (cpus \<sigma>)[0 := cpus \<sigma> ! 0]"
      using mark by (simp_all add: enqueue_at_def)
    show ?thesis
    proof (cases "i < ncpus props")
      case True
      show ?thesis
      proof (rule home_inv_upd [OF home _ I(2) flds])
        show "length (queues \<sigma>) = ncpus props" using I(1) size by simp
        fix c assume "c \<in> set (rq (rq_enqueue (queues \<sigma> ! i) stop_item))"
        then show "mark c \<or> home props c = int i"
          using H(2) [OF True, of c] by (auto simp: rq_enqueue_def set_ins_burst)
      next
        fix c u a assume "cpus \<sigma> ! 0 = Executing c u a"
        then show "home props c = int 0 \<and> (alg props \<noteq> ALG_RR \<longrightarrow> processorId c = int 0)"
          using H(3) [of 0 c u a] True by simp
      qed (use H(1,4) mark in simp_all)
    next
      case False
      then have "queues \<sigma>' = queues \<sigma>" using flds(1) I(1) size by (simp add: list_update_beyond)
      then show ?thesis using home mark unfolding home_inv_def by simp
    qed
  qed
qed

lemma home_cpu:
  assumes home: "home_inv props \<sigma>" and inv: "sched_inv props es opened \<sigma>"
    and inv': "sched_inv props es opened \<sigma>'" and cfg: "sap props = SAP_MULTI"
    and i: "i < ncpus props" and step: "cpu_step props \<sigma> i = Some \<sigma>'"
  shows "home_inv props \<sigma>'"
proof -
  note I = sched_invD [OF inv] and H = home_invD [OF home]
  have k: "cpu_queue props i = i" using cfg by (simp add: cpu_queue_def)
  have len: "length (queues \<sigma>) = ncpus props" using I(1) cfg by (simp add: queuesSize_def)
  show ?thesis
    using step
  proof (cases rule: cpu_step_cases)
    case exit
    show ?thesis
      by (rule home_inv_upd [OF home len I(2), of _ i "queues \<sigma> ! i" i Exited])
        (use exit H i in auto)
  next
    case (turn q' b' t again)
    obtain xs b ys where tk: "rq (queues \<sigma> ! i) = xs @ b # ys" "bkey b' = bkey b" "rq q' = xs @ ys"
      "alg props \<noteq> ALG_RR \<longrightarrow> processorId b' = int i"
      using cpu_turn_taken [OF turn(4)] unfolding taken_def k by force
    have "Executing b' (clock \<sigma> + t * 1000) again \<in> set (cpus \<sigma>')"
      using turn(5) i I(2) by (simp add: set_update_memI)
    from sched_invD(9) [OF inv' this] have "\<not> mark b" using bkey_mark [OF tk(2)] by simp
    then have hb: "home props b' = int i" using H(2) [OF i, of b] tk(1) home_bkey [OF tk(2)] by simp
    show ?thesis
    proof (rule home_inv_upd [OF home len I(2)])
      show "queues \<sigma>' = (queues \<sigma>)[i := q']" "cpus \<sigma>' = (cpus \<sigma>)[i := Executing b' (clock \<sigma> + t * 1000) again]"
        using turn(5) k by simp_all
      fix c assume "c \<in> set (rq q')"
      then show "mark c \<or> home props c = int i" using H(2) [OF i, of c] tk(1,3) by auto
    qed (use turn(5) H(1,4) hb tk(4) in auto)
  next
    case (requeue b until)
    show ?thesis
    proof (rule home_inv_upd [OF home len I(2)])
      show "queues \<sigma>' = (queues \<sigma>)[i := rq_enqueue (queues \<sigma> ! i) b]" "cpus \<sigma>' = (cpus \<sigma>)[i := Polling]"
        using requeue(3) k by (simp_all add: enqueue_at_def)
      fix c assume "c \<in> set (rq (rq_enqueue (queues \<sigma> ! i) b))"
      then show "mark c \<or> home props c = int i"
        using H(2) [OF i, of c] H(3) [OF i requeue(1)] by (auto simp: rq_enqueue_def set_ins_burst)
    qed (use requeue(3) H(1,4) in auto)
  next
    case (finish b until)
    have fb: "processorId (finish_burst props i (clock \<sigma>) b) = home props (finish_burst props i (clock \<sigma>) b)"
      using H(3) [OF i finish(1)] by (auto simp: finish_burst_def Let_def home_def)
    show ?thesis
    proof (rule home_inv_upd [OF home len I(2), of _ i "queues \<sigma> ! i" i Polling])
      fix c assume "c \<in> set (rq (finishedQueue \<sigma>'))"
      then show "processorId c = home props c"
        using fb H(4) [of c] finished_snoc [OF inv] finish(3) by auto
    qed (use finish(3) H(1,2) i in auto)
  qed
qed

lemma home_boot:
  "1 \<le> N props \<Longrightarrow> sap props = SAP_MULTI \<Longrightarrow> home_inv props (sched_boot props es opened)"
  by (auto simp: home_inv_def sched_boot_def empty_queue_def queuesSize_def)

lemma reachable_home:
  assumes "sched_reachable props es opened \<sigma>" and "run_config props es"
    and "sap props = SAP_MULTI" and "qs props = QS_RM"
  shows "home_inv props \<sigma>"
  using assms(1)
proof (induction rule: sched_reachable.induct)
  case boot
  then show ?case using home_boot assms(2,3) by (simp add: run_config_def)
next
  case (act \<sigma> a \<sigma>')
  note inv = sched_reachable_inv [OF act.hyps(1) assms(2)]
  note inv' = sched_act_inv [OF inv assms(2) act.hyps(2)]
  show ?case
  proof (cases a)
    case (Tick d)
    then have "\<sigma>' = \<sigma>\<lparr>clock := clock \<sigma> + int d\<rparr>" using act.hyps(2) by (simp add: sched_act_def)
    then show ?thesis using act.IH unfolding home_inv_def by simp
  next
    case Feed
    then have "feeder_step props \<sigma> = Some \<sigma>'" using act.hyps(2) by (simp only: sched_act_def action.case)
    then show ?thesis by (rule home_feeder [OF act.IH inv assms(3,4)])
  next
    case (Cpu i)
    then have "i < ncpus props" "cpu_step props \<sigma> i = Some \<sigma>'"
      using act.hyps(2) by (simp_all add: sched_act_def split: if_splits)
    then show ?thesis by (rule home_cpu [OF act.IH inv inv' assms(3)])
  qed
qed

end
