(* ===== verification/SchedProperties.thy ===== *)
theory SchedProperties
  imports SchedPlacement
begin

text \<open>
  The properties of the scheduler, for every interleaving of its threads: no burst is lost, the
  simulation ends with all of them reported, the times it reports, and the choices of queue and
  job. A concrete run of two processors under round robin serves as the witness.
\<close>

subsection \<open>A concrete run\<close>

definition demo_props :: SchedProps where
  "demo_props = \<lparr>N = 2, Q = 10, T = 200, T1 = 10, T2 = 1000, L = 100, L1 = 10, L2 = 500, PC = 10,
     outmode = 1, sap = SAP_MULTI, qs = QS_RM, alg = ALG_RR, infile = ''in.txt'', outfile = ''out.txt'',
     source = SOURCE_FILE, start = 500500, junk_load = (\<lambda>_. 0), junk_cpu = 7\<rparr>"

definition demo_events :: "event list" where
  "demo_events = [PL 25, IAT 5, PL 5]"

definition demo_middle :: "action list" where
  "demo_middle = [Feed, Cpu 0, Feed, Tick 10000, Cpu 0, Cpu 0, Feed]"

definition demo_rest :: "action list" where
  "demo_rest = [Feed, Feed, Tick 10000, Cpu 0, Cpu 0, Cpu 1, Tick 10000, Cpu 0, Cpu 1, Cpu 0, Cpu 1]"

definition demo_mid :: sched_sys where
  "demo_mid = the (sched_run demo_props (sched_boot demo_props demo_events True) demo_middle)"

definition demo_end :: sched_sys where
  "demo_end = the (sched_run demo_props demo_mid demo_rest)"

text \<open>One evaluation of the run gives every fact about its two states.\<close>

lemma demo_run:
  "case sched_run demo_props (sched_boot demo_props demo_events True) demo_middle of
     None \<Rightarrow> False
   | Some m \<Rightarrow> \<not> joined m \<and> events m = [] \<and> map (\<lambda>q. map pid (rq q)) (queues m) = [[], [2]] \<and>
       (case sched_run demo_props m demo_rest of
          None \<Rightarrow> False
        | Some e \<Rightarrow> joined e \<and>
            report_rows (finishedQueue e) = [(1, 0, 25, 0, 30, 5, 30), (2, 1, 5, 10, 30, 15, 20)] \<and>
            report_average (finishedQueue e) = Some 25)"
  by code_simp

lemma demo_mid_run:
    "sched_run demo_props (sched_boot demo_props demo_events True) demo_middle = Some demo_mid"
  and demo_mid_facts: "map (\<lambda>q. map pid (rq q)) (queues demo_mid) = [[], [2]]" "\<not> joined demo_mid"
    "events demo_mid = []"
  and demo_end_run: "sched_run demo_props demo_mid demo_rest = Some demo_end"
  and demo_end_joined: "joined demo_end"
  and demo_end_facts: "report_rows (finishedQueue demo_end) =
      [(1, 0, 25, 0, 30, 5, 30), (2, 1, 5, 10, 30, 15, 20)]"
    "report_average (finishedQueue demo_end) = Some 25"
  using demo_run by (simp_all add: demo_mid_def demo_end_def split: option.splits)

lemma demo_config: "run_config demo_props demo_events"
  by (simp add: run_config_def demo_props_def demo_events_def)

lemma demo_mid_reachable: "sched_reachable demo_props demo_events True demo_mid"
  by (rule sched_run_reachable [OF demo_mid_run boot])

lemma demo_end_reachable: "sched_reachable demo_props demo_events True demo_end"
  by (rule sched_run_reachable [OF demo_end_run demo_mid_reachable])

subsection \<open>No burst is lost\<close>

lemma bkey_eq: "bkey = (\<lambda>b. (pid b, burstLength b))"
  by (simp add: fun_eq_iff bkey_def)

text \<open>C20: no interleaving loses or duplicates a burst: the bursts in the queues, with the
  processors and in the finished queue, together with those still to be read, are the input,
  numbered from 1.\<close>

theorem sched_conserves_bursts:
  assumes "sched_reachable props es opened \<sigma>" and "run_config props es"
  shows "image_mset (\<lambda>b. (pid b, burstLength b)) (bag \<sigma>) + mset (numbered (nextPid \<sigma>) (events \<sigma>))
       = mset (numbered 1 (if opened then es else []))"
  using sched_invD(6) [OF sched_reachable_inv [OF assms]] unfolding bkey_eq .

theorem sched_conserves_bursts_witness:
  "image_mset (\<lambda>b. (pid b, burstLength b)) (bag demo_mid) = {#(1, 25), (2, 5)#}"
  using sched_conserves_bursts [OF demo_mid_reachable demo_config] demo_mid_facts(3)
  by (simp add: demo_events_def)

lemma sum_list_no_bursts: "\<forall>x\<in>set xs. f x = {#} \<Longrightarrow> sum_list (map f xs) = {#}"
  by (induction xs) simp_all

lemma joined_bag:
  assumes reach: "sched_reachable props es True \<sigma>" and cfg: "run_config props es" and j: "joined \<sigma>"
  shows "\<forall>k<queuesSize props. rq (queues \<sigma> ! k) = [stop_item]" and "events \<sigma> = []" and "to_mark \<sigma> = []"
    and "bag \<sigma> = mset (rq (finishedQueue \<sigma>))"
proof -
  note I = sched_invD [OF sched_reachable_inv [OF reach cfg]]
  note E = sched_reachable_exit [OF reach cfg]
  have ex: "cpus \<sigma> ! i = Exited" if "i < ncpus props" for i using j I(2) that by (simp add: joined_iff)
  show qk: "\<forall>k<queuesSize props. rq (queues \<sigma> ! k) = [stop_item]"
    using E ex unfolding exit_inv_def served_by_def by blast
  have nt: "k \<notin> set (to_mark \<sigma>)" if "k < queuesSize props" for k
    using E ex some_server [OF that] cfg unfolding exit_inv_def run_config_def served_by_def by blast
  obtain m where m: "to_mark \<sigma> = [m..<queuesSize props]" using I(4) by blast
  show tm: "to_mark \<sigma> = []"
    using m nt [of m] by (cases "m < queuesSize props") auto
  show "events \<sigma> = []"
  proof (rule ccontr)
    assume "events \<sigma> \<noteq> []"
    then have "to_mark \<sigma> = [0..<queuesSize props]" by (rule I(5) [OF TrueI])
    moreover have "0 < queuesSize props" using queuesSize_pos [of props] cfg by (simp add: run_config_def)
    ultimately show False using tm by (metis length_upt list.size(3) diff_zero less_irrefl)
  qed
  have "sum_list (map queue_bag (queues \<sigma>)) = {#}"
  proof -
    have "\<forall>q\<in>set (queues \<sigma>). queue_bag q = {#}"
      using qk I(1) by (auto simp: in_set_conv_nth queue_bag_def)
    then show ?thesis by (rule sum_list_no_bursts)
  qed
  moreover have "sum_list (map cpu_bag (cpus \<sigma>)) = {#}"
  proof -
    have "\<forall>c\<in>set (cpus \<sigma>). cpu_bag c = {#}" using j by (auto simp: joined_def list_all_iff cpu_bag_def)
    then show ?thesis by (rule sum_list_no_bursts)
  qed
  ultimately show "bag \<sigma> = mset (rq (finishedQueue \<sigma>))" by (simp add: bag_def)
qed

lemma numbered_sorted: "sorted (map fst (numbered k es))"
proof (induction k es rule: numbered.induct)
  case (2 k len es)
  then show ?case using numbered_nomark [of _ "k + 1" es] by fastforce
qed auto

lemma sorted_fst_unique:
  assumes "mset xs = mset ys" and "sorted (map fst xs)" and "sorted (map fst ys)" and "distinct (map fst ys)"
  shows "xs = ys"
proof -
  have inj: "inj_on fst (set xs)" using assms(4) mset_eq_setD [OF assms(1)] by (simp add: distinct_map)
  show ?thesis
    using sort_key_inj_key_eq [OF assms(1) inj assms(3)] sort_key_inj_key_eq [OF refl inj assms(2)] by simp
qed

lemma report_complete:
  assumes "sched_reachable props es True \<sigma>" and "run_config props es" and "joined \<sigma>"
  shows "(\<forall>k<queuesSize props. rq (queues \<sigma> ! k) = [stop_item]) \<and>
    map (\<lambda>(p, c, len, arv, fin, wait, turn). (p, len)) (report_rows (finishedQueue \<sigma>)) = numbered 1 es \<and>
    (\<forall>r\<in>set (report_rows (finishedQueue \<sigma>)). case r of (p, c, len, arv, fin, wait, turn) \<Rightarrow>
        turn = fin - arv \<and> wait = turn - len)"
proof -
  note I = sched_invD [OF sched_reachable_inv [OF assms(1,2)]] and J = joined_bag [OF assms]
  let ?bs = "rq (rq_sort (finishedQueue \<sigma>))"
  have ms: "mset ?bs = mset (rq (finishedQueue \<sigma>))"
    using burst_order.sort_mset [of "rq (finishedQueue \<sigma>)"] by (simp add: rq_sort_def)
  have "mset (map bkey ?bs) = mset (numbered 1 es)"
    using I(6) J(2,4) ms by simp
  moreover have "sorted (map fst (map bkey ?bs))"
    using burst_order.sort_sorted [of "rq (finishedQueue \<sigma>)"]
    by (simp add: rq_sort_def sorted_map bkey_def comp_def)
  ultimately have "map bkey ?bs = numbered 1 es"
    by (rule sorted_fst_unique [OF _ _ numbered_sorted numbered_distinct])
  moreover have "turnaroundTime b = finishTime b - arrivalTime b" if "b \<in> set ?bs" for b
    using I(10) [of b] that mset_eq_setD [OF ms] by (auto simp: finished_ok_def)
  ultimately show ?thesis using J(1) unfolding bkey_eq by (auto simp: report_rows_def comp_def)
qed

text \<open>C21: when the processors have been joined, every queue holds exactly its marker (so the
  \<open>free(queues[i]->head->data)\<close> that follows is defined), and the report lists every process of
  the input once, in the order of the process ids, with its burst length.\<close>

theorem sched_report_complete:
  assumes "sched_reachable props es True \<sigma>" and "run_config props es" and "joined \<sigma>"
  shows "(\<forall>k<queuesSize props. rq (queues \<sigma> ! k) = [stop_item]) \<and>
    map (\<lambda>(p, c, len, arv, fin, wait, turn). (p, len)) (report_rows (finishedQueue \<sigma>)) = numbered 1 es \<and>
    (\<forall>r\<in>set (report_rows (finishedQueue \<sigma>)). case r of (p, c, len, arv, fin, wait, turn) \<Rightarrow>
        turn = fin - arv \<and> wait = turn - len)"
  using assms by (rule report_complete)

theorem sched_report_complete_witness:
  "joined demo_end \<and> rq (queues demo_end ! 0) = [stop_item] \<and> rq (queues demo_end ! 1) = [stop_item] \<and>
   map (\<lambda>(p, c, len, arv, fin, wait, turn). (p, len)) (report_rows (finishedQueue demo_end)) = [(1, 25), (2, 5)]"
  using sched_report_complete [OF demo_end_reachable demo_config demo_end_joined] demo_end_joined
  by (simp add: demo_events_def demo_props_def queuesSize_def)

subsection \<open>The run ends\<close>

text \<open>No run gets stuck: as long as a processor is in its loop, some thread can act after
  enough time has passed.\<close>

theorem sched_progress:
  assumes "sched_reachable props es True \<sigma>" and "run_config props es" and "CRASH \<notin> set es"
    and "\<not> joined \<sigma>"
  shows "\<exists>d a \<sigma>'. \<not> is_tick a \<and> sched_run props \<sigma> [Tick d, a] = Some \<sigma>'"
proof -
  have "CRASH \<notin> set (events \<sigma>)" using reachable_events [OF assms(1)] assms(3) by blast
  from some_action_ready [OF sched_reachable_inv [OF assms(1,2)] assms(2) this assms(4)]
  obtain d a \<sigma>' where a: "\<forall>n. a \<noteq> Tick n" "sched_run props \<sigma> [Tick d, a] = Some \<sigma>'" by blast
  have "\<not> is_tick a" using a(1) by (cases a) auto
  then show ?thesis using a(2) by blast
qed

theorem sched_progress_witness:
  "\<not> joined demo_mid \<and> (\<exists>d a \<sigma>'. \<not> is_tick a \<and> sched_run demo_props demo_mid [Tick d, a] = Some \<sigma>')"
proof -
  have "CRASH \<notin> set demo_events" by (simp add: demo_events_def)
  from sched_progress [OF demo_mid_reachable demo_config this demo_mid_facts(2)]
  show ?thesis using demo_mid_facts(2) by blast
qed

text \<open>C22: every run ends: whatever the interleaving, the number of actions other than the passing
  of time is bounded by the input; under round robin this needs a quantum of at least 1.\<close>

theorem sched_terminates:
  assumes "sched_run props (sched_boot props es True) as = Some \<sigma>" and "run_config props es"
  shows "length (filter (\<lambda>a. \<not> is_tick a) as)
     \<le> sum_list (map event_work es) + queuesSize props + ncpus props"
proof -
  have "queue_work (empty_queue l) = 0" for l
    by (simp add: queue_work_def queue_bag_def empty_queue_def)
  then have "potential (sched_boot props es True)
      = sum_list (map event_work es) + queuesSize props + ncpus props"
    by (simp add: potential_def sched_boot_def map_replicate sum_list_replicate)
  then show ?thesis using run_potential [OF assms(1) boot_inv [OF assms(2)] assms(2)] by linarith
qed

theorem sched_terminates_witness:
  "length (filter (\<lambda>a. \<not> is_tick a) demo_middle) \<le> 71"
  using sched_terminates [OF demo_mid_run demo_config]
  by (simp add: demo_events_def demo_props_def queuesSize_def)

text \<open>C23: when the input file cannot be opened, no marker is ever put in: no processor leaves its
  loop in any run, so the program never ends.\<close>

theorem missing_file_never_ends:
  assumes "sched_reachable props es False \<sigma>" and "run_config props es"
  shows "\<forall>i<ncpus props. cpus \<sigma> ! i \<noteq> Exited"
  using sched_reachable_exit [OF assms] unfolding exit_inv_def served_by_def by blast

theorem missing_file_never_ends_witness:
  "cpus (sched_boot demo_props demo_events False) ! 1 \<noteq> Exited \<and>
   \<not> joined (sched_boot demo_props demo_events False)"
  using missing_file_never_ends [OF boot demo_config]
  by (auto simp: demo_props_def joined_iff sched_boot_def intro: exI [of _ "0 :: nat"])

subsection \<open>Times\<close>

lemma c_div_bounds: "\<bar>1000 * c_div a 1000 - a\<bar> < 1000"
  unfolding c_div_def by (auto simp: abs_if)

lemma c_div_shift: "c_div (a + 1000000) 1000 \<le> c_div a 1000 + 1000"
proof -
  have "1000 * (x div 1000) + x mod 1000 = x \<and> 0 \<le> x mod 1000 \<and> x mod 1000 < 1000" for x :: int by simp
  from this [of a] this [of "- a"] this [of "a + 1000000"] this [of "- (a + 1000000)"]
  show ?thesis unfolding c_div_def by (cases "a < 0"; cases "a + 1000000 < 0"; simp only: if_True if_False; linarith)
qed

text \<open>The millisecond reading is within one millisecond of the time passed, and never goes
  back; it rounds towards zero before and after the second's boundary, so it can stand still
  while a whole millisecond passes.\<close>

theorem clock_reading:
  assumes "st \<le> t" and "t \<le> t'"
  shows "\<bar>1000 * get_time_diff st t - (t - st)\<bar> < 1000 \<and> get_time_diff st t \<le> get_time_diff st t' \<and>
    get_time_diff 500500 1500600 - get_time_diff 500500 1499600 = 0"
proof -
  let ?s = "t div 1000000" and ?u = "t mod 1000000" and ?s' = "t' div 1000000" and ?u' = "t' mod 1000000"
  let ?v = "st mod 1000000"
  have "1000 * get_time_diff st t - (t - st) = 1000 * c_div (?u - ?v) 1000 - (?u - ?v)"
    using mult_div_mod_eq [of 1000000 t] mult_div_mod_eq [of 1000000 st]
    unfolding get_time_diff_def tv_sec_def tv_usec_def by (simp add: algebra_simps)
  then have close: "\<bar>1000 * get_time_diff st t - (t - st)\<bar> < 1000" using c_div_bounds [of "?u - ?v"] by simp
  have mono: "c_div a 1000 \<le> c_div b 1000" if "a \<le> b" for a b
  proof (cases "a < 0 \<and> 0 \<le> b")
    case True
    then have "0 \<le> (- a) div 1000" "0 \<le> b div 1000" by (simp_all add: pos_imp_zdiv_nonneg_iff)
    then show ?thesis using True by (simp add: c_div_def)
  next
    case False
    then show ?thesis unfolding c_div_def using that by (auto intro: zdiv_mono1)
  qed
  have "get_time_diff st t \<le> get_time_diff st t'"
  proof (cases "?s = ?s'")
    case True
    then have "?u \<le> ?u'"
      using assms(2) mult_div_mod_eq [of 1000000 t] mult_div_mod_eq [of 1000000 t'] by linarith
    then show ?thesis using True mono [of "?u - ?v" "?u' - ?v"] by (simp add: get_time_diff_def tv_sec_def tv_usec_def)
  next
    case False
    then have s: "?s + 1 \<le> ?s'" using zdiv_mono1 [OF assms(2), of 1000000] by linarith
    have "?u < 1000000" "0 \<le> ?u'" by simp_all
    then have "c_div (?u - ?v) 1000 \<le> c_div (?u' - ?v + 1000000) 1000" by (intro mono) linarith
    also have "\<dots> \<le> c_div (?u' - ?v) 1000 + 1000" by (rule c_div_shift)
    finally show ?thesis using s by (simp add: get_time_diff_def tv_sec_def tv_usec_def algebra_simps)
  qed
  then show ?thesis using close by (simp add: get_time_diff_def tv_sec_def tv_usec_def c_div_def)
qed

theorem clock_reading_witness:
  "\<bar>1000 * get_time_diff 500500 1499600 - 999100\<bar> < 1000 \<and>
   get_time_diff 500500 1499600 \<le> get_time_diff 500500 1500600"
  using clock_reading [of 500500 1499600 1500600] by simp

end
