(* ===== verification/SchedChoices.thy ===== *)
theory SchedChoices
  imports SchedProperties
begin

text \<open>
  The properties of the scheduler about single decisions: reported times, the shortest job, the
  queue a burst is put in, and reading the input file.
\<close>

lemma case_the: "(case x of None \<Rightarrow> False | Some m \<Rightarrow> P m) \<Longrightarrow> x = Some (the x) \<and> P (the x)"
  by (cases x) auto

lemma diff_gap:
  assumes "t0 + 1000 * len \<le> t1"
  shows "len - 1 \<le> get_time_diff st t1 - get_time_diff st t0"
proof -
  have close: "\<bar>1000 * get_time_diff st t - (t - st)\<bar> < 1000" for t
  proof -
    have "1000 * get_time_diff st t - (t - st) =
        1000 * c_div (t mod 1000000 - st mod 1000000) 1000 - (t mod 1000000 - st mod 1000000)"
      using mult_div_mod_eq [of 1000000 t] mult_div_mod_eq [of 1000000 st]
      unfolding get_time_diff_def tv_sec_def tv_usec_def by (simp add: algebra_simps)
    then show ?thesis using c_div_bounds [of "t mod 1000000 - st mod 1000000"] by simp
  qed
  show ?thesis using close [of t0] close [of t1] assms by linarith
qed

text \<open>C24: the reported turnaround time is finish minus arrival, and is at least the burst length
  less the millisecond the clock reading may lose; so the waiting time in the report is at
  least -1.\<close>

theorem sched_turnaround:
  assumes "sched_reachable props es opened \<sigma>" and "run_config props es"
    and "b \<in> set (rq (finishedQueue \<sigma>))"
  shows "turnaroundTime b = finishTime b - arrivalTime b \<and> burstLength b - 1 \<le> turnaroundTime b \<and>
    remainingTime b = 0"
proof -
  have fin: "finished_ok (start props) (clock \<sigma>) b"
    using sched_invD(10) [OF sched_reachable_inv [OF assms(1,2)] assms(3)] by simp
  then obtain t0 t1 where t: "arrivalTime b = get_time_diff (start props) t0"
    "finishTime b = get_time_diff (start props) t1" "t0 + 1000 * burstLength b \<le> t1"
    by (auto simp: finished_ok_def)
  show ?thesis using fin diff_gap [OF t(3), of "start props"] t(1,2) by (simp add: finished_ok_def)
qed

lemma demo_end_finished:
  "map (\<lambda>b. (pid b, burstLength b, turnaroundTime b)) (rq (rq_sort (finishedQueue demo_end)))
     = [(1, 25, 30), (2, 5, 20)]"
proof -
  have "map (\<lambda>r. case r of (p, c, len, arv, fin, wait, turn) \<Rightarrow> (p, len, turn))
      (report_rows (finishedQueue demo_end)) = [(1, 25, 30), (2, 5, 20)]"
    by (simp add: demo_end_facts)
  then show ?thesis by (simp add: report_rows_def comp_def)
qed

lemma finished_set: "set (rq (rq_sort q)) = set (rq q)"
  using mset_eq_setD [of "rq (rq_sort q)" "rq q"] burst_order.sort_mset [of "rq q"]
  by (simp add: rq_sort_def)

lemma demo_end_members:
  "\<exists>b\<in>set (rq (finishedQueue demo_end)). pid b = 1 \<and> burstLength b = 25 \<and> turnaroundTime b = 30"
  "\<exists>b\<in>set (rq (finishedQueue demo_end)). pid b = 2 \<and> burstLength b = 5 \<and> turnaroundTime b = 20"
proof -
  have "set (map (\<lambda>b. (pid b, burstLength b, turnaroundTime b)) (rq (rq_sort (finishedQueue demo_end))))
      = {(1, 25, 30), (2, 5, 20)}"
    unfolding demo_end_finished by simp
  then have "(\<lambda>b. (pid b, burstLength b, turnaroundTime b)) ` set (rq (finishedQueue demo_end))
      = {(1, 25, 30), (2, 5, 20)}"
    by (simp add: finished_set)
  then have "(1, 25, 30) \<in> (\<lambda>b. (pid b, burstLength b, turnaroundTime b)) ` set (rq (finishedQueue demo_end))"
    and "(2, 5, 20) \<in> (\<lambda>b. (pid b, burstLength b, turnaroundTime b)) ` set (rq (finishedQueue demo_end))"
    by simp_all
  then show "\<exists>b\<in>set (rq (finishedQueue demo_end)). pid b = 1 \<and> burstLength b = 25 \<and> turnaroundTime b = 30"
    and "\<exists>b\<in>set (rq (finishedQueue demo_end)). pid b = 2 \<and> burstLength b = 5 \<and> turnaroundTime b = 20"
    by (auto simp: image_iff)
qed

theorem sched_turnaround_witness:
  "\<exists>b\<in>set (rq (finishedQueue demo_end)). burstLength b = 25 \<and> turnaroundTime b = 30 \<and>
     turnaroundTime b = finishTime b - arrivalTime b \<and> remainingTime b = 0"
proof -
  obtain b where b: "b \<in> set (rq (finishedQueue demo_end))" "burstLength b = 25" "turnaroundTime b = 30"
    using demo_end_members by blast
  show ?thesis using sched_turnaround [OF demo_end_reachable demo_config b(1)] b by blast
qed

subsection \<open>The job\<close>

lemma first_with_pid:
  assumes "distinct (map pid (filter (\<lambda>b. \<not> mark b) (xs @ b # ys)))" and "\<not> mark b"
  shows "\<forall>x\<in>set xs. pid x \<noteq> pid b"
proof (intro ballI notI)
  fix x assume x: "x \<in> set xs" "pid x = pid b"
  then have "\<not> mark x" using assms(2) by (simp add: mark_def)
  then have "x \<in> set (filter (\<lambda>b. \<not> mark b) xs)" using x(1) by simp
  then have "pid x \<in> pid ` set (filter (\<lambda>b. \<not> mark b) xs)" by (rule imageI)
  then have "pid b \<in> set (map pid (filter (\<lambda>b. \<not> mark b) xs))" using x(2) by simp
  then show False using assms by auto
qed

text \<open>C25: under SJF a free processor takes a job with the smallest remaining time, the earliest
  in its queue of those, sleeps for exactly that time, and leaves the rest of the queue as it
  was; the marker is never taken.\<close>

theorem sjf_picks_shortest:
  assumes "sched_reachable props es opened \<sigma>" and "run_config props es" and "alg props = ALG_SJF"
    and "i < ncpus props" and "cpus \<sigma> ! i = Polling"
    and "rq (queues \<sigma> ! cpu_queue props i) = h # rest" and "pid h \<noteq> -1"
  shows "\<exists>xs b ys b' \<sigma>'. h # rest = xs @ b # ys \<and> pid b \<noteq> -1 \<and>
    (\<forall>x\<in>set xs. pid x = -1 \<or> remainingTime b < remainingTime x) \<and>
    (\<forall>y\<in>set ys. pid y = -1 \<or> remainingTime b \<le> remainingTime y) \<and>
    sched_act props \<sigma> (Cpu i) = Some \<sigma>' \<and> rq (queues \<sigma>' ! cpu_queue props i) = xs @ ys \<and>
    cpus \<sigma>' ! i = Executing b' (clock \<sigma> + remainingTime b * 1000) False \<and>
    pid b' = pid b \<and> burstLength b' = burstLength b"
proof -
  let ?k = "cpu_queue props i"
  let ?q = "queues \<sigma> ! ?k"
  note inv = sched_reachable_inv [OF assms(1,2)]
  note I = sched_invD [OF inv] and k = cpu_queue_lt [OF assms(4)]
  define b where "b = sjf_scan h (rq ?q)"
  have hm: "\<not> mark h" using assms(7) by (simp add: mark_def)
  obtain xs ys where split: "rq ?q = xs @ b # ys" "\<forall>x\<in>set xs. mark x \<or> remainingTime b < remainingTime x"
    "\<forall>y\<in>set ys. not_shorter b y"
    using sjf_first_shortest [OF assms(6)] unfolding b_def by blast
  have bm: "\<not> mark b" unfolding b_def by (rule sjf_scan_job [OF hm])
  have "distinct (map pid (filter (\<lambda>b. \<not> mark b) (xs @ b # ys)))"
    using queue_pids_distinct [OF inv k] split(1) by simp
  then have fresh: "\<forall>x\<in>set xs. pid x \<noteq> pid b" by (rule first_with_pid [OF _ bm])
  have deq: "rq_dequeue_at ?q (pid b) = Some (b, ?q\<lparr>rq := xs @ ys, rsize := rsize ?q - 1,
      rload := rload ?q - burstLength b\<rparr>)"
    using take_pid_first [OF refl fresh] split(1) by (simp add: rq_dequeue_at_def)
  have scan: "sjf_scan h (h # rest) = b" by (simp only: b_def assms(6))
  have "\<not> head_is_marker ?q" using assms(6,7) by (simp add: head_is_marker_def)
  moreover have "0 < rsize ?q" using I(3) [OF k] assms(6) by (simp add: queue_ok_def)
  moreover have "cpu_turn props i ?q = Some (?q\<lparr>rq := xs @ ys, rsize := rsize ?q - 1,
      rload := rload ?q - burstLength b\<rparr>, b\<lparr>remainingTime := 0, processorId := int i\<rparr>, remainingTime b, False)"
    using deq by (simp add: cpu_turn_def sjf_turn_def assms(3,6) scan del: sjf_scan.simps)
  ultimately have "sched_act props \<sigma> (Cpu i) = Some (\<sigma>\<lparr>queues := (queues \<sigma>)[?k := ?q\<lparr>rq := xs @ ys,
      rsize := rsize ?q - 1, rload := rload ?q - burstLength b\<rparr>], cpus := (cpus \<sigma>)[i :=
        Executing (b\<lparr>remainingTime := 0, processorId := int i\<rparr>) (clock \<sigma> + remainingTime b * 1000) False]\<rparr>)"
    using assms(4,5) by (simp add: sched_act_def cpu_step_def Let_def)
  then show ?thesis
    using split bm assms(4,6) I(1,2) k
    by (intro exI [of _ xs] exI [of _ b] exI [of _ ys] exI [of _ "b\<lparr>remainingTime := 0, processorId := int i\<rparr>"]
        exI [of _ "the (sched_act props \<sigma> (Cpu i))"]) (simp add: mark_def not_shorter_def)
qed

text \<open>Three bursts in one queue, before the processor looks.\<close>

definition sjf_props :: SchedProps where
  "sjf_props = demo_props\<lparr>N := 1, sap := SAP_SINGLE, qs := QS_NA, alg := ALG_SJF\<rparr>"

definition sjf_mid :: sched_sys where
  "sjf_mid = the (sched_run sjf_props (sched_boot sjf_props [PL 30, PL 10, PL 10] True) [Feed, Feed, Feed])"

lemma sjf_mid_run:
  "case sched_run sjf_props (sched_boot sjf_props [PL 30, PL 10, PL 10] True) [Feed, Feed, Feed] of
     None \<Rightarrow> False
   | Some m \<Rightarrow> cpus m ! 0 = Polling \<and> map pid (rq (queues m ! 0)) = [1, 2, 3] \<and>
       map remainingTime (rq (queues m ! 0)) = [30, 10, 10]"
  by code_simp

lemma sjf_mid_reach:
    "sched_run sjf_props (sched_boot sjf_props [PL 30, PL 10, PL 10] True) [Feed, Feed, Feed] = Some sjf_mid"
  and sjf_mid_polling: "cpus sjf_mid ! 0 = Polling"
  and sjf_mid_queue: "map pid (rq (queues sjf_mid ! 0)) = [1, 2, 3]"
    "map remainingTime (rq (queues sjf_mid ! 0)) = [30, 10, 10]"
  using case_the [OF sjf_mid_run, folded sjf_mid_def] by blast+

theorem sjf_picks_shortest_witness:
  "\<exists>(b :: BurstItem) b' \<sigma>'. sched_act sjf_props sjf_mid (Cpu 0) = Some \<sigma>' \<and> pid b = 2 \<and> remainingTime b = 10 \<and>
     cpus \<sigma>' ! 0 = Executing b' (clock sjf_mid + remainingTime b * 1000) False \<and> pid b' = pid b"
proof -
  have cfg: "run_config sjf_props [PL 30, PL 10, PL 10]"
    by (simp add: run_config_def sjf_props_def demo_props_def)
  obtain h rest where h: "rq (queues sjf_mid ! 0) = h # rest" "pid h = 1" "remainingTime h = 30"
    "map pid rest = [2, 3]" "map remainingTime rest = [10, 10]"
    using sjf_mid_queue by (cases "rq (queues sjf_mid ! 0)") auto
  have k: "cpu_queue sjf_props 0 = 0" by (simp add: cpu_queue_def)
  have n: "0 < ncpus sjf_props" "alg sjf_props = ALG_SJF" by (simp_all add: sjf_props_def)
  have reach: "sched_reachable sjf_props [PL 30, PL 10, PL 10] True sjf_mid"
    by (rule sched_run_reachable [OF sjf_mid_reach boot])
  obtain xs b ys b' \<sigma>' where r: "h # rest = xs @ b # ys"
    "\<forall>x\<in>set xs. pid x = -1 \<or> remainingTime b < remainingTime x"
    "\<forall>y\<in>set ys. pid y = -1 \<or> remainingTime b \<le> remainingTime y"
    "sched_act sjf_props sjf_mid (Cpu 0) = Some \<sigma>'" "pid b' = pid b"
    "cpus \<sigma>' ! 0 = Executing b' (clock sjf_mid + remainingTime b * 1000) False"
    using sjf_picks_shortest [OF reach cfg n(2,1) sjf_mid_polling, unfolded k, OF h(1)] h(2) by auto
  obtain r2 r3 where rest: "rest = [r2, r3]" "pid r2 = 2" "pid r3 = 3" "remainingTime r2 = 10"
    "remainingTime r3 = 10"
    using h(4,5) by (auto simp: map_eq_Cons_conv)
  have "b = r2" using r(1-3) rest h(2,3) by (auto simp: Cons_eq_append_conv)
  then show ?thesis
    using r(4-6) rest by (intro exI [of _ b] exI [of _ b'] exI [of _ \<sigma>']) simp
qed

subsection \<open>The queue\<close>

text \<open>With several queues and round-robin selection, process \<open>p\<close> is reported to have run on
  processor \<open>(p - 1) mod N\<close>, under every scheduling algorithm and interleaving.\<close>

theorem rm_round_robin_processor:
  assumes "sched_reachable props es opened \<sigma>" and "run_config props es"
    and "sap props = SAP_MULTI" and "qs props = QS_RM" and "b \<in> set (rq (finishedQueue \<sigma>))"
  shows "processorId b = (pid b - 1) mod N props"
proof -
  have "int (ncpus props) = N props" using assms(2) by (simp add: run_config_def)
  then show ?thesis using home_invD(4) [OF reachable_home [OF assms(1-4)] assms(5)] by (simp add: home_def)
qed

theorem rm_round_robin_processor_witness:
  "\<exists>b\<in>set (rq (finishedQueue demo_end)). pid b = 2 \<and> processorId b = 1"
proof -
  obtain b where b: "b \<in> set (rq (finishedQueue demo_end))" "pid b = 2"
    using demo_end_members by blast
  have "sap demo_props = SAP_MULTI" "qs demo_props = QS_RM" "N demo_props = 2" by (simp_all add: demo_props_def)
  then show ?thesis
    using rm_round_robin_processor [OF demo_end_reachable demo_config _ _ b(1)] b by auto
qed


definition lm_props :: SchedProps where
  "lm_props = demo_props\<lparr>qs := QS_LM\<rparr>"




text \<open>The copy of that loop in \<open>sched_random\<close> compares a queue's number of items with a
  load: a run of it puts a burst in the second queue, which already holds 500 ms of work,
  although the first holds 100 ms.\<close>

theorem random_lm_not_least:
  "case sched_run (lm_props\<lparr>source := SOURCE_RANDOM\<rparr>)
      (sched_boot (lm_props\<lparr>source := SOURCE_RANDOM\<rparr>)
        (random_events (\<lambda>i. if i = 0 then 100 else if i = 2 then 500 else 10) 3) True)
      [Feed, Feed, Tick 10000, Feed, Feed, Tick 10000] of
     None \<Rightarrow> False
   | Some \<sigma> \<Rightarrow> map rload (queues \<sigma>) = [100, 500] \<and> events \<sigma> = [PL 10] \<and>
       choose_queue (lm_props\<lparr>source := SOURCE_RANDOM\<rparr>) \<sigma> = 1"
  by code_simp

subsection \<open>The input file\<close>

fun event_line :: "event \<Rightarrow> string" where
  "event_line (PL n) = ''PL '' @ print_nat (nat n) @ [CHR 0x0A]"
| "event_line (IAT n) = ''IAT '' @ print_nat (nat n) @ [CHR 0x0A]"
| "event_line _ = []"

definition plain_event :: "event \<Rightarrow> bool" where
  "plain_event e = (case e of PL n \<Rightarrow> 0 \<le> n | IAT n \<Rightarrow> 0 \<le> n | _ \<Rightarrow> False)"

lemma event_words: "is_word ''PL''" "is_word ''IAT''"
  by (simp_all add: is_word_def is_delim_def)

lemma tokens_line:
  "plain_event e \<Longrightarrow> tokens (event_line e @ s) = (case e of PL n \<Rightarrow> ''PL'' | _ \<Rightarrow> ''IAT'') #
     print_nat (nat (case e of PL n \<Rightarrow> n | IAT n \<Rightarrow> n)) # tokens s"
  using tokens_word [OF event_words(1) delims(1)] tokens_word [OF event_words(2) delims(1)]
    tokens_word [OF print_nat_word delims(2)]
  by (cases e) (simp_all add: plain_event_def)

lemma read_print:
  "\<forall>e\<in>set es. plain_event e \<Longrightarrow> read_events (tokens (concat (map event_line es))) = es"
proof (induction es)
  case (Cons e es)
  then show ?case
    using tokens_line [of e "concat (map event_line es)"]
    by (cases e) (simp_all add: plain_event_def atoi_print_nat ordc_def)
qed simp

lemma no_nul: "\<forall>c\<in>set (concat (map event_line es)). c \<noteq> CHR 0x00"
proof -
  have "\<forall>c\<in>set (event_line e). c \<noteq> CHR 0x00" for e
    using print_nat_digits digit_not_delim by (cases e) auto
  then show ?thesis by auto
qed

lemma parse_printed:
  assumes "\<forall>e\<in>set es. plain_event e"
  shows "parse_text (concat (map event_line es)) = es"
proof -
  have "takeWhile (\<lambda>c. c \<noteq> CHR 0x00) (concat (map event_line es)) = concat (map event_line es)"
    using no_nul [of es] unfolding takeWhile_eq_all_conv .
  then show ?thesis using read_print [OF assms] by (simp only: parse_text_def strtok_all_def)
qed

text \<open>C28: reading undoes writing: a file with one \<open>PL n\<close> or \<open>IAT n\<close> per line is read as exactly
  these bursts and pauses.\<close>

theorem parse_text_roundtrip:
  assumes "\<forall>e\<in>set es. plain_event e"
  shows "parse_text (concat (map event_line es)) = es"
  using assms by (rule parse_printed)

theorem parse_text_roundtrip_witness:
  "parse_text (concat (map event_line [PL 25, IAT 5, PL 5])) = [PL 25, IAT 5, PL 5]"
  using parse_text_roundtrip [of "[PL 25, IAT 5, PL 5]"] by (simp add: plain_event_def)

end
