(* ===== verification/Mps.thy ===== *)
theory Mps
  imports SchedProperties
begin

text \<open>
  The command line of the scheduler, \<open>main\<close> of \<open>p2/22002379-22003430/mps.c\<close>.

  \<^item> None stands for undefined behaviour: an option without its arguments (\<open>atoi\<close> or \<open>strcpy\<close> of
    \<open>NULL\<close>, or a read past \<open>argv\<close>), and a file name that does not fit into its 256 bytes.
  \<^item> \<open>junk\<close> holds what \<open>malloc\<close> leaves in the fields that \<open>main\<close> does not set: the approach for a
    letter other than \<open>M\<close> and \<open>S\<close>, the algorithm for an unknown name, and the start time.
\<close>

record mps_args =
  arg_N :: int
  arg_Q :: int
  arg_T :: int
  arg_T1 :: int
  arg_T2 :: int
  arg_L :: int
  arg_L1 :: int
  arg_L2 :: int
  arg_PC :: int
  arg_outmode :: int
  arg_sap :: string
  arg_qs :: string
  arg_alg :: string
  arg_infile :: string
  arg_outfile :: string
  rSpecified :: bool
  iSpecified :: bool
  oSpecified :: bool

definition mps_defaults :: mps_args where
  "mps_defaults = \<lparr>arg_N = 2, arg_Q = 20, arg_T = 200, arg_T1 = 10, arg_T2 = 1000, arg_L = 100, arg_L1 = 10,
     arg_L2 = 500, arg_PC = 10, arg_outmode = 1, arg_sap = ''M'', arg_qs = ''RM'', arg_alg = ''RR'',
     arg_infile = [], arg_outfile = ''out.txt'', rSpecified = False, iSpecified = False, oSpecified = False\<rparr>"

fun mps_parse :: "mps_args \<Rightarrow> string list \<Rightarrow> mps_args option" where
  "mps_parse a [] = Some a"
| "mps_parse a (cur # ws) =
     (if strcmp cur ''-n'' = 0 then
        (case ws of x # us \<Rightarrow> mps_parse (a\<lparr>arg_N := atoi x\<rparr>) us | _ \<Rightarrow> None)
      else if strcmp cur ''-a'' = 0 then
        (case ws of x # y # us \<Rightarrow> mps_parse (a\<lparr>arg_sap := x, arg_qs := y\<rparr>) us | _ \<Rightarrow> None)
      else if strcmp cur ''-s'' = 0 then
        (case ws of x # y # us \<Rightarrow> mps_parse (a\<lparr>arg_alg := x, arg_Q := atoi y\<rparr>) us | _ \<Rightarrow> None)
      else if strcmp cur ''-i'' = 0 then
        (case ws of x # us \<Rightarrow> mps_parse (a\<lparr>arg_infile := x, iSpecified := True\<rparr>) us | _ \<Rightarrow> None)
      else if strcmp cur ''-m'' = 0 then
        (case ws of x # us \<Rightarrow> mps_parse (a\<lparr>arg_outmode := atoi x\<rparr>) us | _ \<Rightarrow> None)
      else if strcmp cur ''-o'' = 0 then
        (case ws of x # us \<Rightarrow> mps_parse (a\<lparr>arg_outfile := x, oSpecified := True\<rparr>) us | _ \<Rightarrow> None)
      else if strcmp cur ''-r'' = 0 then
        (case ws of x1 # x2 # x3 # x4 # x5 # x6 # x7 # us \<Rightarrow>
            mps_parse (a\<lparr>arg_T := atoi x1, arg_T1 := atoi x2, arg_T2 := atoi x3, arg_L := atoi x4,
              arg_L1 := atoi x5, arg_L2 := atoi x6, arg_PC := atoi x7, rSpecified := True\<rparr>) us
          | _ \<Rightarrow> None)
      else mps_parse a ws)"

definition read_sap :: "SchedulingApproach \<Rightarrow> string \<Rightarrow> SchedulingApproach" where
  "read_sap junk s = (if strcmp s ''M'' = 0 then SAP_MULTI else if strcmp s ''S'' = 0 then SAP_SINGLE else junk)"

definition read_qs :: "string \<Rightarrow> QueueSelection" where
  "read_qs s = (if strcmp s ''RM'' = 0 then QS_RM else if strcmp s ''LM'' = 0 then QS_LM else QS_NA)"

definition read_alg :: "SchedulingAlgorithm \<Rightarrow> string \<Rightarrow> SchedulingAlgorithm" where
  "read_alg junk s =
     (if strcmp s ''FCFS'' = 0 then ALG_FCFS else if strcmp s ''SJF'' = 0 then ALG_SJF
      else if strcmp s ''RR'' = 0 then ALG_RR else junk)"

definition mps_props :: "SchedProps \<Rightarrow> mps_args \<Rightarrow> SchedProps" where
  "mps_props junk a =
     (let sp = junk\<lparr>N := arg_N a, Q := arg_Q a, T := arg_T a, T1 := arg_T1 a, T2 := arg_T2 a, L := arg_L a,
            L1 := arg_L1 a, L2 := arg_L2 a, PC := arg_PC a, outmode := arg_outmode a - 1,
            sap := read_sap (sap junk) (arg_sap a), qs := read_qs (arg_qs a),
            alg := read_alg (alg junk) (arg_alg a), infile := arg_infile a, outfile := arg_outfile a,
            source := (if iSpecified a \<and> \<not> rSpecified a then SOURCE_FILE else SOURCE_RANDOM)\<rparr>
      in if oSpecified a then sp\<lparr>outmode := 3\<rparr> else sp)"

definition mps_main :: "SchedProps \<Rightarrow> string list \<Rightarrow> SchedProps option" where
  "mps_main junk argv =
     (case mps_parse mps_defaults (drop 1 argv) of None \<Rightarrow> None
      | Some a \<Rightarrow> if 256 \<le> length (arg_infile a) \<or> 256 \<le> length (arg_outfile a) then None
                  else Some (mps_props junk a))"

subsection \<open>The options\<close>

text \<open>The options a user means, and how they are written.\<close>

datatype mps_option = Opt_n nat | Opt_a SchedulingApproach QueueSelection | Opt_s SchedulingAlgorithm nat
  | Opt_i string | Opt_m nat | Opt_o string | Opt_r nat nat nat nat nat nat nat

definition sap_name :: "SchedulingApproach \<Rightarrow> string" where
  "sap_name x = (case x of SAP_MULTI \<Rightarrow> ''M'' | SAP_SINGLE \<Rightarrow> ''S'')"

definition qs_name :: "QueueSelection \<Rightarrow> string" where
  "qs_name x = (case x of QS_NA \<Rightarrow> ''NA'' | QS_RM \<Rightarrow> ''RM'' | QS_LM \<Rightarrow> ''LM'')"

definition alg_name :: "SchedulingAlgorithm \<Rightarrow> string" where
  "alg_name x = (case x of ALG_FCFS \<Rightarrow> ''FCFS'' | ALG_SJF \<Rightarrow> ''SJF'' | ALG_RR \<Rightarrow> ''RR'')"

fun write_option :: "mps_option \<Rightarrow> string list" where
  "write_option (Opt_n n) = [''-n'', print_nat n]"
| "write_option (Opt_a x y) = [''-a'', sap_name x, qs_name y]"
| "write_option (Opt_s x q) = [''-s'', alg_name x, print_nat q]"
| "write_option (Opt_i f) = [''-i'', f]"
| "write_option (Opt_m k) = [''-m'', print_nat k]"
| "write_option (Opt_o f) = [''-o'', f]"
| "write_option (Opt_r t t1 t2 l l1 l2 pc) = ''-r'' # map print_nat [t, t1, t2, l, l1, l2, pc]"

text \<open>What each of them asks for, and the run without options.\<close>

fun set_option :: "mps_option \<Rightarrow> SchedProps \<Rightarrow> SchedProps" where
  "set_option (Opt_n n) p = p\<lparr>N := int n\<rparr>"
| "set_option (Opt_a x y) p = p\<lparr>sap := x, qs := y\<rparr>"
| "set_option (Opt_s x q) p = p\<lparr>alg := x, Q := int q\<rparr>"
| "set_option (Opt_i f) p = p\<lparr>infile := f\<rparr>"
| "set_option (Opt_m k) p = p\<lparr>outmode := int k - 1\<rparr>"
| "set_option (Opt_o f) p = p\<lparr>outfile := f\<rparr>"
| "set_option (Opt_r t t1 t2 l l1 l2 pc) p =
     p\<lparr>T := int t, T1 := int t1, T2 := int t2, L := int l, L1 := int l1, L2 := int l2, PC := int pc\<rparr>"

definition default_props :: "SchedProps \<Rightarrow> SchedProps" where
  "default_props junk = junk\<lparr>N := 2, Q := 20, T := 200, T1 := 10, T2 := 1000, L := 100, L1 := 10, L2 := 500,
     PC := 10, outmode := 0, sap := SAP_MULTI, qs := QS_RM, alg := ALG_RR, infile := [], outfile := ''out.txt''\<rparr>"

fun short_name :: "mps_option \<Rightarrow> bool" where
  "short_name (Opt_i f) = (length f < 256)"
| "short_name (Opt_o f) = (length f < 256)"
| "short_name _ = True"

fun is_i :: "mps_option \<Rightarrow> bool" where "is_i (Opt_i _) = True" | "is_i _ = False"
fun is_o :: "mps_option \<Rightarrow> bool" where "is_o (Opt_o _) = True" | "is_o _ = False"
fun is_r :: "mps_option \<Rightarrow> bool" where "is_r (Opt_r _ _ _ _ _ _ _) = True" | "is_r _ = False"

text \<open>The properties the arguments lead to, the output mode of \<open>-o\<close> and the source apart.\<close>

definition asked :: "SchedProps \<Rightarrow> mps_args \<Rightarrow> SchedProps" where
  "asked junk a = mps_props junk (a\<lparr>oSpecified := False, iSpecified := False, rSpecified := False\<rparr>)"

lemma asked_flags: "mps_props junk a = (asked junk a)\<lparr>
    outmode := (if oSpecified a then 3 else outmode (asked junk a)),
    source := (if iSpecified a \<and> \<not> rSpecified a then SOURCE_FILE else SOURCE_RANDOM)\<rparr>"
  by (rule SchedProps.equality) (simp_all add: asked_def mps_props_def Let_def)

definition names_fit :: "mps_args \<Rightarrow> bool" where
  "names_fit a \<longleftrightarrow> length (arg_infile a) < 256 \<and> length (arg_outfile a) < 256"

lemma read_names [simp]:
  "read_sap j (sap_name x) = x" "read_qs (qs_name y) = y" "read_alg k (alg_name z) = z"
  by (cases x; cases y; cases z; simp add: read_sap_def read_qs_def read_alg_def sap_name_def qs_name_def alg_name_def)+

lemma parse_option:
  assumes "names_fit a" and "short_name opt"
  shows "\<exists>a'. (\<forall>ws. mps_parse a (write_option opt @ ws) = mps_parse a' ws) \<and>
    asked junk a' = set_option opt (asked junk a) \<and> names_fit a' \<and>
    iSpecified a' = (iSpecified a \<or> is_i opt) \<and> oSpecified a' = (oSpecified a \<or> is_o opt) \<and>
    rSpecified a' = (rSpecified a \<or> is_r opt)"
proof (cases opt)
  case (Opt_n n)
  then show ?thesis using assms
    by (intro exI [of _ "a\<lparr>arg_N := int n\<rparr>"] conjI)
      (simp_all add: atoi_print_nat asked_def mps_props_def names_fit_def)
next
  case (Opt_a x y)
  then show ?thesis using assms
    by (intro exI [of _ "a\<lparr>arg_sap := sap_name x, arg_qs := qs_name y\<rparr>"] conjI)
      (simp_all add: asked_def mps_props_def names_fit_def)
next
  case (Opt_s x q)
  then show ?thesis using assms
    by (intro exI [of _ "a\<lparr>arg_alg := alg_name x, arg_Q := int q\<rparr>"] conjI)
      (simp_all add: atoi_print_nat asked_def mps_props_def names_fit_def)
next
  case (Opt_i f)
  then show ?thesis using assms
    by (intro exI [of _ "a\<lparr>arg_infile := f, iSpecified := True\<rparr>"] conjI)
      (simp_all add: asked_def mps_props_def names_fit_def)
next
  case (Opt_m k)
  then show ?thesis using assms
    by (intro exI [of _ "a\<lparr>arg_outmode := int k\<rparr>"] conjI)
      (simp_all add: atoi_print_nat asked_def mps_props_def names_fit_def)
next
  case (Opt_o f)
  then show ?thesis using assms
    by (intro exI [of _ "a\<lparr>arg_outfile := f, oSpecified := True\<rparr>"] conjI)
      (simp_all add: asked_def mps_props_def names_fit_def)
next
  case (Opt_r t t1 t2 l l1 l2 pc)
  then show ?thesis using assms
    by (intro exI [of _ "a\<lparr>arg_T := int t, arg_T1 := int t1, arg_T2 := int t2, arg_L := int l, arg_L1 := int l1,
          arg_L2 := int l2, arg_PC := int pc, rSpecified := True\<rparr>"] conjI)
      (simp_all add: atoi_print_nat asked_def mps_props_def names_fit_def)
qed

lemma parse_options:
  assumes "names_fit a" and "list_all short_name opts"
  shows "\<exists>a'. mps_parse a (concat (map write_option opts)) = Some a' \<and>
    asked junk a' = fold set_option opts (asked junk a) \<and> names_fit a' \<and>
    iSpecified a' = (iSpecified a \<or> list_ex is_i opts) \<and> oSpecified a' = (oSpecified a \<or> list_ex is_o opts) \<and>
    rSpecified a' = (rSpecified a \<or> list_ex is_r opts)"
  using assms
proof (induction opts arbitrary: a)
  case (Cons opt opts)
  then obtain b where b: "\<forall>ws. mps_parse a (write_option opt @ ws) = mps_parse b ws"
    "asked junk b = set_option opt (asked junk a)" "names_fit b"
    "iSpecified b = (iSpecified a \<or> is_i opt)" "oSpecified b = (oSpecified a \<or> is_o opt)"
    "rSpecified b = (rSpecified a \<or> is_r opt)"
    using parse_option [of a opt junk] by auto
  then show ?case using Cons.IH [OF b(3)] Cons.prems(2) by auto
qed simp

lemma mps_main_options:
  assumes "list_all short_name opts"
  shows "mps_main junk (prog # concat (map write_option opts)) =
    Some (let p = fold set_option opts (default_props junk) in
      p\<lparr>outmode := (if list_ex is_o opts then 3 else outmode p),
        source := (if list_ex is_i opts \<and> \<not> list_ex is_r opts then SOURCE_FILE else SOURCE_RANDOM)\<rparr>)"
proof -
  have "names_fit mps_defaults" by (simp add: names_fit_def mps_defaults_def)
  from parse_options [OF this assms, of junk] obtain a where
    a: "mps_parse mps_defaults (concat (map write_option opts)) = Some a"
    "asked junk a = fold set_option opts (asked junk mps_defaults)" "names_fit a"
    "iSpecified a = list_ex is_i opts" "oSpecified a = list_ex is_o opts" "rSpecified a = list_ex is_r opts"
    by (auto simp: mps_defaults_def)
  have src: "x\<lparr>source := SOURCE_RANDOM\<rparr>\<lparr>outmode := u, source := v\<rparr> = x\<lparr>outmode := u, source := v\<rparr>"
    for x :: SchedProps and u v by simp
  have frame: "fold set_option opts (p\<lparr>source := v\<rparr>) = (fold set_option opts p)\<lparr>source := v\<rparr>" for p v
  proof (induction opts arbitrary: p)
    case (Cons opt opts)
    have "set_option opt (p\<lparr>source := v\<rparr>) = (set_option opt p)\<lparr>source := v\<rparr>" by (cases opt) simp_all
    then show ?case using Cons by simp
  qed simp
  have "asked junk mps_defaults = (default_props junk)\<lparr>source := SOURCE_RANDOM\<rparr>"
    by (simp add: asked_def mps_props_def mps_defaults_def default_props_def read_sap_def read_qs_def read_alg_def)
  then have p: "asked junk a = (fold set_option opts (default_props junk))\<lparr>source := SOURCE_RANDOM\<rparr>"
    unfolding a(2) by (simp add: frame)
  show ?thesis
    using a(1,3-6) asked_flags [of junk a] unfolding p by (simp add: mps_main_def names_fit_def Let_def not_le)
qed

text \<open>C38: a command line sets what its options ask for, in whatever order, the last one winning, and
  leaves the defaults elsewhere. The bursts come from the file exactly if \<open>-i\<close> is given and
  \<open>-r\<close> is not (so by default, the comments notwithstanding, from the random generator), and the
  output goes to the file exactly if \<open>-o\<close> is given, whatever \<open>-m\<close> says.\<close>

theorem mps_command_line:
  assumes "list_all short_name opts"
  shows "mps_main junk (prog # concat (map write_option opts)) =
    Some (let p = fold set_option opts (default_props junk) in
      p\<lparr>outmode := (if list_ex is_o opts then 3 else outmode p),
        source := (if list_ex is_i opts \<and> \<not> list_ex is_r opts then SOURCE_FILE else SOURCE_RANDOM)\<rparr>)"
  using assms by (rule mps_main_options)

theorem mps_command_line_witness:
  "mps_main demo_props [''mps'', ''-i'', ''in.txt'', ''-n'', ''4'', ''-s'', ''SJF'', ''0'']
     = Some ((default_props demo_props)\<lparr>infile := ''in.txt'', N := 4, alg := ALG_SJF, Q := 0, source := SOURCE_FILE\<rparr>)"
proof -
  have w: "print_nat 4 = ''4''" "print_nat 0 = ''0''" by code_simp+
  have "list_all short_name [Opt_i ''in.txt'', Opt_n 4, Opt_s ALG_SJF 0]" by simp
  from mps_command_line [OF this, of demo_props "''mps''"]
  show ?thesis by (simp add: w alg_name_def)
qed

end
