(* ===== verification/SchedReport.thy ===== *)
theory SchedReport
  imports SchedChoices Mps Printing
begin

text \<open>
  The two ends of \<open>schedule\<close>: how the input comes about (\<open>sched_file\<close>, and \<open>sched_random\<close> with
  \<open>generateRandom\<close>), and the report it writes once the processors have been joined. With the
  command line of theory \<open>Mps\<close> this covers the program from its arguments to its output.

  \<^item> \<open>draws\<close> stands for \<open>rand\<close> and \<open>log\<close>: \<open>draws i m j\<close> is the integer that the j-th draw of the
    i-th call of \<open>generateRandom\<close> gives for the mean \<open>m\<close>.
  \<^item> \<open>files\<close> are the contents of the files that can be opened.
\<close>

subsection \<open>Random input\<close>

text \<open>The \<open>while\<close> loop. It may run forever, and then has no value.\<close>

partial_function (option) random_loop :: "(nat \<Rightarrow> int) \<Rightarrow> int \<Rightarrow> int \<Rightarrow> nat \<Rightarrow> int \<Rightarrow> int option" where
  "random_loop draw lo hi j ix1 =
     (if ix1 < lo \<or> ix1 > hi then random_loop draw lo hi (Suc j) (draw j) else Some ix1)"

lemma random_loop_steps:
  "lo \<le> ix1 \<and> ix1 \<le> hi \<Longrightarrow> random_loop draw lo hi j ix1 = Some ix1"
  "ix1 < lo \<or> hi < ix1 \<Longrightarrow> random_loop draw lo hi j ix1 = random_loop draw lo hi (Suc j) (draw j)"
  by (subst random_loop.simps; simp)+

definition generateRandom :: "(int \<Rightarrow> nat \<Rightarrow> int) \<Rightarrow> int \<Rightarrow> int \<Rightarrow> int \<Rightarrow> int option" where
  "generateRandom draw m lo hi = random_loop (draw m) lo hi 0 0"

lemma random_loop_bounds:
  assumes "random_loop draw lo hi j ix1 = Some v"
  shows "lo \<le> v \<and> v \<le> hi"
  by (rule random_loop.raw_induct [where P = "\<lambda>draw lo hi j ix1 v. lo \<le> v \<and> v \<le> hi", OF _ assms])
    (auto split: if_splits)
lemma random_loop_returns:
  assumes "lo \<le> draw (j + k)" and "draw (j + k) \<le> hi"
  shows "random_loop draw lo hi j ix1 \<noteq> None"
  using assms
proof (induction k arbitrary: j ix1)
  case 0
  then show ?case by (cases "ix1 < lo \<or> hi < ix1") (simp_all add: random_loop_steps not_less)
next
  case (Suc k)
  then show ?case using Suc.IH [of "Suc j" "draw j"] by (subst random_loop.simps) simp
qed
lemma random_loop_never:
  assumes "ix1 < lo \<or> hi < ix1" and "\<And>k. draw (j + k) < lo \<or> hi < draw (j + k)"
  shows "random_loop draw lo hi j ix1 = None"
proof (rule ccontr)
  assume "random_loop draw lo hi j ix1 \<noteq> None"
  then obtain v where v: "random_loop draw lo hi j ix1 = Some v" by blast
  have "(ix1 < lo \<or> hi < ix1) \<longrightarrow> \<not> (\<forall>k. draw (j + k) < lo \<or> hi < draw (j + k))"
  proof (rule random_loop.raw_induct [where P = "\<lambda>draw lo hi j ix1 v. (ix1 < lo \<or> hi < ix1) \<longrightarrow>
      \<not> (\<forall>k. draw (j + k) < lo \<or> hi < draw (j + k))", OF _ v], intro impI notI)
    fix rl :: "(nat \<Rightarrow> int) \<Rightarrow> int \<Rightarrow> int \<Rightarrow> nat \<Rightarrow> int \<Rightarrow> int option"
      and draw :: "nat \<Rightarrow> int" and lo hi ix1 v :: int and j
    assume IH: "\<And>draw lo hi j ix1 v. rl draw lo hi j ix1 = Some v \<Longrightarrow>
        (ix1 < lo \<or> hi < ix1) \<longrightarrow> \<not> (\<forall>k. draw (j + k) < lo \<or> hi < draw (j + k))"
      and body: "(if ix1 < lo \<or> hi < ix1 then rl draw lo hi (Suc j) (draw j) else Some ix1) = Some v"
      and out: "ix1 < lo \<or> hi < ix1" "\<forall>k. draw (j + k) < lo \<or> hi < draw (j + k)"
    have "draw (Suc j + k) < lo \<or> hi < draw (Suc j + k)" for k using out(2) [rule_format, of "Suc k"] by simp
    then show False using IH [of draw lo hi "Suc j" "draw j" v] body out(1) out(2) [rule_format, of 0] by simp
  qed
  then show False using assms by blast
qed
text \<open>The call returns exactly if 0 or one of the draws lies between the limits.\<close>

definition draw_fits :: "(nat \<Rightarrow> int) \<Rightarrow> int \<Rightarrow> int \<Rightarrow> bool" where
  "draw_fits d lo hi \<longleftrightarrow> lo \<le> 0 \<and> 0 \<le> hi \<or> (\<exists>k. lo \<le> d k \<and> d k \<le> hi)"

lemma generateRandom_returns: "generateRandom draw m lo hi \<noteq> None \<longleftrightarrow> draw_fits (draw m) lo hi"
proof
  assume "draw_fits (draw m) lo hi"
  then consider "lo \<le> 0 \<and> 0 \<le> hi" | k where "lo \<le> draw m k" "draw m k \<le> hi"
    unfolding draw_fits_def by blast
  then show "generateRandom draw m lo hi \<noteq> None"
  proof cases
    case 1
    then show ?thesis unfolding generateRandom_def by (subst random_loop.simps) simp
  next
    case (2 k)
    then show ?thesis using random_loop_returns [of lo "draw m" 0 k] by (simp add: generateRandom_def)
  qed
next
  assume "generateRandom draw m lo hi \<noteq> None"
  then show "draw_fits (draw m) lo hi"
    using random_loop_never [of 0 lo hi "draw m" 0] unfolding generateRandom_def draw_fits_def
    by (metis add_0 not_le)
qed

text \<open>The loop of \<open>sched_random\<close>: bursts with the limits of \<open>T\<close>, pauses with those of \<open>L\<close>.\<close>

definition random_event :: "(nat \<Rightarrow> int \<Rightarrow> nat \<Rightarrow> int) \<Rightarrow> SchedProps \<Rightarrow> nat \<Rightarrow> event option" where
  "random_event draws props i =
     (if i mod 2 = 0 then map_option PL (generateRandom (draws i) (T props) (T1 props) (T2 props))
      else map_option IAT (generateRandom (draws i) (L props) (L1 props) (L2 props)))"

definition sched_random :: "(nat \<Rightarrow> int \<Rightarrow> nat \<Rightarrow> int) \<Rightarrow> SchedProps \<Rightarrow> event list option" where
  "sched_random draws props = those (map (random_event draws props) [0..<nat (2 * PC props - 1)])"

lemma random_event_bounds:
  "random_event draws props i = Some e \<Longrightarrow>
     if i mod 2 = 0 then (\<exists>n. e = PL n \<and> T1 props \<le> n \<and> n \<le> T2 props)
     else (\<exists>n. e = IAT n \<and> L1 props \<le> n \<and> n \<le> L2 props)"
  by (auto simp: random_event_def generateRandom_def dest!: random_loop_bounds split: if_splits)

lemma those_Some: "those xs = Some ys \<longleftrightarrow> xs = map Some ys"
  by (induction xs arbitrary: ys) (auto split: option.splits)

lemma those_None: "those xs = None \<longleftrightarrow> None \<in> set xs"
  by (induction xs) (auto split: option.splits)

definition is_PL :: "event \<Rightarrow> bool" where
  "is_PL e = (case e of PL _ \<Rightarrow> True | _ \<Rightarrow> False)"

lemma count_even: "length (filter even [0..<n]) = (n + 1) div 2"
  by (induction n) auto

text \<open>C27: \<open>sched_random\<close> makes \<open>PC\<close> bursts with a pause between any two, the burst lengths between
  \<open>T1\<close> and \<open>T2\<close> and the pauses between \<open>L1\<close> and \<open>L2\<close> (the comments say the opposite). It comes to
  an end exactly if for each of them 0 or some draw lies between the limits; with \<open>T1\<close> above
  \<open>T2\<close> it never does.\<close>

theorem random_schedule_bounds:
  "(\<forall>es. sched_random draws props = Some es \<longrightarrow>
      length es = nat (2 * PC props - 1) \<and> length (filter is_PL es) = nat (PC props) \<and>
      (\<forall>i<length es. if i mod 2 = 0 then (\<exists>n. es ! i = PL n \<and> T1 props \<le> n \<and> n \<le> T2 props)
         else (\<exists>n. es ! i = IAT n \<and> L1 props \<le> n \<and> n \<le> L2 props))) \<and>
   (sched_random draws props \<noteq> None \<longleftrightarrow>
      (\<forall>i<nat (2 * PC props - 1). if i mod 2 = 0 then draw_fits (draws i (T props)) (T1 props) (T2 props)
         else draw_fits (draws i (L props)) (L1 props) (L2 props)))"
proof (intro conjI allI impI)
  fix es assume es: "sched_random draws props = Some es"
  let ?n = "nat (2 * PC props - 1)"
  have eq: "map (random_event draws props) [0..<?n] = map Some es"
    using es by (simp add: sched_random_def those_Some)
  show len: "length es = ?n" using map_eq_imp_length_eq [OF eq] by simp
  have ev: "random_event draws props i = Some (es ! i)" if "i < length es" for i
    using arg_cong [OF eq, of "\<lambda>xs. xs ! i"] that len by simp
  have at: "if i mod 2 = 0 then (\<exists>n. es ! i = PL n \<and> T1 props \<le> n \<and> n \<le> T2 props)
      else (\<exists>n. es ! i = IAT n \<and> L1 props \<le> n \<and> n \<le> L2 props)" if "i < length es" for i
    by (rule random_event_bounds [OF ev [OF that]])
  then show "if i mod 2 = 0 then (\<exists>n. es ! i = PL n \<and> T1 props \<le> n \<and> n \<le> T2 props)
      else (\<exists>n. es ! i = IAT n \<and> L1 props \<le> n \<and> n \<le> L2 props)" if "i < length es" for i using that .
  have "is_PL (es ! i) \<longleftrightarrow> even i" if "i < length es" for i
    using at [OF that] by (auto simp: is_PL_def even_iff_mod_2_eq_zero split: if_splits)
  then have "filter (\<lambda>i. is_PL (es ! i)) [0..<length es] = filter even [0..<length es]"
    by (intro filter_cong) auto
  moreover have "filter is_PL es = map (\<lambda>i. es ! i) (filter (\<lambda>i. is_PL (es ! i)) [0..<length es])"
    using filter_map [of is_PL "\<lambda>i. es ! i" "[0..<length es]"] by (simp add: map_nth comp_def)
  ultimately have "length (filter is_PL es) = (?n + 1) div 2" by (simp add: count_even len)
  also have "\<dots> = nat (PC props)" by linarith
  finally show "length (filter is_PL es) = nat (PC props)" .
next
  have "sched_random draws props \<noteq> None \<longleftrightarrow> (\<forall>i<nat (2 * PC props - 1). random_event draws props i \<noteq> None)"
  proof -
    have "None \<in> set (map f [0..<n]) \<longleftrightarrow> (\<exists>i<n. f i = None)" for f :: "nat \<Rightarrow> event option" and n
      by (auto simp: image_iff Bex_def eq_commute [of None])
    then show ?thesis unfolding sched_random_def those_None by simp
  qed
  moreover have "random_event draws props i \<noteq> None \<longleftrightarrow>
      (if i mod 2 = 0 then draw_fits (draws i (T props)) (T1 props) (T2 props)
       else draw_fits (draws i (L props)) (L1 props) (L2 props))" for i
    unfolding random_event_def generateRandom_returns [symmetric] by simp
  ultimately show "sched_random draws props \<noteq> None \<longleftrightarrow>
      (\<forall>i<nat (2 * PC props - 1). if i mod 2 = 0 then draw_fits (draws i (T props)) (T1 props) (T2 props)
         else draw_fits (draws i (L props)) (L1 props) (L2 props))" by simp
qed

definition demo_draws :: "nat \<Rightarrow> int \<Rightarrow> nat \<Rightarrow> int" where
  "demo_draws i m j = m * int j div 3 + int i"

theorem random_schedule_bounds_witness:
  "sched_random demo_draws (demo_props\<lparr>PC := 2\<rparr>) = Some [PL 66, IAT 34, PL 68] \<and>
   length (filter is_PL [PL 66, IAT 34, PL 68]) = 2"
proof -
  have run: "sched_random demo_draws (demo_props\<lparr>PC := 2\<rparr>) = Some [PL 66, IAT 34, PL 68]"
    by (simp add: sched_random_def random_event_def generateRandom_def demo_draws_def demo_props_def
        random_loop_steps upt_rec)
  have "length (filter is_PL [PL 66, IAT 34, PL 68]) = nat (PC (demo_props\<lparr>PC := 2\<rparr>))"
    using random_schedule_bounds [of demo_draws "demo_props\<lparr>PC := 2\<rparr>"] run by blast
  then show ?thesis using run by simp
qed

subsection \<open>Where the input comes from\<close>




subsection \<open>The printed report\<close>


definition report_line :: "int \<times> int \<times> int \<times> int \<times> int \<times> int \<times> int \<Rightarrow> string" where
  "report_line r = (case r of (p, c, len, arv, fin, wait, turn) \<Rightarrow>
     columns [(3, print_int p), (3, print_int c), (8, print_int len), (3, print_int arv),
       (7, print_int fin), (11, print_int wait), (10, print_int turn)])"



definition row_numbers :: "int \<times> int \<times> int \<times> int \<times> int \<times> int \<times> int \<Rightarrow> int list" where
  "row_numbers r = (case r of (p, c, len, arv, fin, wait, turn) \<Rightarrow> [p, c, len, arv, fin, wait, turn])"

lemma row_columns:
  "report_line r = columns (map (\<lambda>(n, v). (n, print_int v)) (zip [3, 3, 8, 3, 7, 11, 10] (row_numbers r)))"
  by (simp add: report_line_def row_numbers_def split: prod.split)






subsection \<open>From the command line to the report\<close>









end
