(* ===== verification/SchedTrace.thy ===== *)
theory SchedTrace
  imports SchedReport
begin

text \<open>
  The line that a processor prints in mode \<open>INFO\<close> each time it takes a burst, and what the lines
  of a whole run say: every process is announced once per turn it gets, with the time that
  remained before the turn. The processor in the line is the number of the queue, for the code
  prints it before it stores its own. The longer trace of mode \<open>RICH\<close> is not modelled.
\<close>

subsection \<open>The lines\<close>

definition info_line :: "int \<Rightarrow> BurstItem \<Rightarrow> string" where
  "info_line now b =
     [CHR 0x0A] @ ''time='' @ print_int now @ '', cpu='' @ print_int (processorId b) @
     '', pid='' @ print_int (pid b) @ '', burstlen='' @ print_int (burstLength b) @
     '', remainingtime='' @ print_int (remainingTime b)"

text \<open>The burst a processor takes from its queue, before any of its fields change.\<close>

definition picked :: "SchedProps \<Rightarrow> RQueue \<Rightarrow> BurstItem option" where
  "picked props q =
     (case alg props of
        ALG_SJF \<Rightarrow> (case rq q of [] \<Rightarrow> None
          | h # _ \<Rightarrow> map_option fst (rq_dequeue_at q (pid (sjf_scan h (rq q)))))
      | _ \<Rightarrow> map_option fst (rq_dequeue q))"

text \<open>An entry of the log is the time, the processor and the burst of a line.\<close>

definition act_log :: "SchedProps \<Rightarrow> sched_sys \<Rightarrow> action \<Rightarrow> (int \<times> nat \<times> BurstItem) list" where
  "act_log props \<sigma> a =
     (case a of
        Cpu i \<Rightarrow>
          (let q = queues \<sigma> ! cpu_queue props i
           in if i < ncpus props \<and> cpus \<sigma> ! i = Polling \<and> \<not> head_is_marker q \<and> rsize q > 0
              then (case picked props q of None \<Rightarrow> []
                    | Some b \<Rightarrow> [(get_time_diff (start props) (clock \<sigma>), i, b)])
              else [])
      | _ \<Rightarrow> [])"

fun sched_log :: "SchedProps \<Rightarrow> sched_sys \<Rightarrow> action list \<Rightarrow> (int \<times> nat \<times> BurstItem) list" where
  "sched_log props \<sigma> [] = []"
| "sched_log props \<sigma> (a # as) =
     (case sched_act props \<sigma> a of None \<Rightarrow> []
      | Some \<sigma>' \<Rightarrow> act_log props \<sigma> a @ sched_log props \<sigma>' as)"

text \<open>\<open>INFO\<close> is number 1.\<close>

definition info_trace :: "SchedProps \<Rightarrow> sched_sys \<Rightarrow> action list \<Rightarrow> string" where
  "info_trace props \<sigma> as =
     (if outmode props = 1 then concat (map (\<lambda>(t, i, b). info_line t b) (sched_log props \<sigma> as)) else [])"

text \<open>The remaining times announced for process \<open>p\<close>.\<close>

definition announced :: "(int \<times> nat \<times> BurstItem) list \<Rightarrow> int \<Rightarrow> int list" where
  "announced l p = map (\<lambda>(t, i, b). remainingTime b) (filter (\<lambda>(t, i, b). pid b = p) l)"

lemma announced_simps [simp]:
  "announced [] p = []" "announced (l @ l') p = announced l p @ announced l' p"
  "announced ((t, i, b) # l) p = (if pid b = p then remainingTime b # announced l p else announced l p)"
  by (simp_all add: announced_def)



subsection \<open>How far a burst has come\<close>





subsection \<open>What an action does to the bursts\<close>









subsection \<open>The log keeps up with the bursts\<close>










subsection \<open>The times and the processor of the lines\<close>








subsection \<open>What the lines say\<close>



text \<open>The text of the first lines of that run.\<close>

lemma info_trace_example:
  "info_trace demo_props (sched_boot demo_props demo_events True) [Feed, Cpu 0] =
     [CHR 0x0A] @ ''time=0, cpu=0, pid=1, burstlen=25, remainingtime=25''"
  by code_simp

text \<open>With one queue, processor 1 takes the burst and its line says processor 0.\<close>

lemma info_cpu_example:
  "info_trace (demo_props\<lparr>sap := SAP_SINGLE, qs := QS_NA\<rparr>)
     (sched_boot (demo_props\<lparr>sap := SAP_SINGLE, qs := QS_NA\<rparr>) demo_events True) [Feed, Cpu 1] =
     [CHR 0x0A] @ ''time=0, cpu=0, pid=1, burstlen=25, remainingtime=25''"
  by code_simp

end
