(* ===== verification/SchedCv.thy ===== *)
theory SchedCv
  imports SchedReport
begin

text \<open>
  The second version of the scheduler, \<open>p2/22002379-22003430/sched_cv.c\<close>, in which a processor
  that finds its queue empty waits on the queue's condition variable instead of polling. The rest of
  the code is that of \<open>sched.c\<close>, so a state is a state of theory \<open>Sched\<close> and the set of waiting
  processors.

  \<^item> A processor calls \<open>pthread_cond_wait\<close> without holding the mutex, which POSIX leaves undefined;
    the model takes the reading that it blocks until it is woken.
  \<^item> \<open>parse_and_enqueue\<close> signals the queue that gets a burst. Neither the end markers, nor a burst that
    is put back under round robin, nor anything in \<open>sched_random\<close> is signalled.
  \<^item> A signal wakes one of the processors that wait for the queue, if there is one: \<open>Cv_feed w\<close>
    names it. \<open>Spurious i\<close> is a wake-up without a signal.
\<close>

record cv_sys =
  core :: sched_sys
  waiting :: "bool list"

definition cv_boot :: "SchedProps \<Rightarrow> event list \<Rightarrow> bool \<Rightarrow> cv_sys" where
  "cv_boot props es opened = \<lparr>core = sched_boot props es opened, waiting = replicate (ncpus props) False\<rparr>"

text \<open>One action of a processor: the wait loop, then the job as in \<open>sched.c\<close>.\<close>

definition cv_job :: "SchedProps \<Rightarrow> sched_sys \<Rightarrow> nat \<Rightarrow> sched_sys option" where
  "cv_job props \<sigma> i = cpu_step props \<sigma> i"

definition cv_cpu_step :: "SchedProps \<Rightarrow> cv_sys \<Rightarrow> nat \<Rightarrow> cv_sys option" where
  "cv_cpu_step props c i =
     (let q = queues (core c) ! cpu_queue props i in
      if waiting c ! i then None
      else if cpus (core c) ! i = Polling \<and> \<not> head_is_marker q \<and> rsize q = 0
      then Some (c\<lparr>waiting := (waiting c)[i := True]\<rparr>)
      else (case cv_job props (core c) i of None \<Rightarrow> None | Some \<sigma> \<Rightarrow> Some (c\<lparr>core := \<sigma>\<rparr>)))"

text \<open>The queue that the next action of the feeding thread signals.\<close>

definition signalled :: "SchedProps \<Rightarrow> sched_sys \<Rightarrow> nat option" where
  "signalled props \<sigma> =
     (case source props of
        SOURCE_FILE \<Rightarrow> (case events \<sigma> of PL _ # _ \<Rightarrow> Some (choose_queue props \<sigma>) | _ \<Rightarrow> None)
      | SOURCE_RANDOM \<Rightarrow> None)"

definition cond_signal :: "SchedProps \<Rightarrow> nat \<Rightarrow> nat \<Rightarrow> bool list \<Rightarrow> bool list option" where
  "cond_signal props k w ws =
     (if find (\<lambda>i. ws ! i \<and> cpu_queue props i = k) [0..<ncpus props] = None then Some ws
      else if w < ncpus props \<and> ws ! w \<and> cpu_queue props w = k then Some (ws[w := False])
      else None)"

definition cv_feeder_step :: "SchedProps \<Rightarrow> cv_sys \<Rightarrow> nat \<Rightarrow> cv_sys option" where
  "cv_feeder_step props c w =
     (case feeder_step props (core c) of None \<Rightarrow> None
      | Some \<sigma> \<Rightarrow>
          (case signalled props (core c) of None \<Rightarrow> Some (c\<lparr>core := \<sigma>\<rparr>)
           | Some k \<Rightarrow>
               (case cond_signal props k w (waiting c) of None \<Rightarrow> None
                | Some ws \<Rightarrow> Some (c\<lparr>core := \<sigma>, waiting := ws\<rparr>))))"

datatype cv_action = Cv_tick nat | Cv_feed nat | Cv_cpu nat | Spurious nat

definition cv_act :: "SchedProps \<Rightarrow> cv_sys \<Rightarrow> cv_action \<Rightarrow> cv_sys option" where
  "cv_act props c a =
     (case a of
        Cv_tick d \<Rightarrow> Some (c\<lparr>core := (core c)\<lparr>clock := clock (core c) + int d\<rparr>\<rparr>)
      | Cv_feed w \<Rightarrow> cv_feeder_step props c w
      | Cv_cpu i \<Rightarrow> if i < ncpus props then cv_cpu_step props c i else None
      | Spurious i \<Rightarrow> if i < ncpus props \<and> waiting c ! i then Some (c\<lparr>waiting := (waiting c)[i := False]\<rparr>) else None)"

fun cv_run :: "SchedProps \<Rightarrow> cv_sys \<Rightarrow> cv_action list \<Rightarrow> cv_sys option" where
  "cv_run props c [] = Some c"
| "cv_run props c (a # as) = (case cv_act props c a of None \<Rightarrow> None | Some c' \<Rightarrow> cv_run props c' as)"









subsection \<open>Runs of the first version\<close>

lemma cv_act_simulated:
  assumes "cv_act props c a = Some c'"
  shows "core c' = core c \<or> (\<exists>b. sched_act props (core c) b = Some (core c'))"
proof (cases a)
  case (Cv_tick d)
  then show ?thesis using assms by (intro disjI2 exI [of _ "Tick d"]) (auto simp: cv_act_def sched_act_def)
next
  case (Cv_feed w)
  then show ?thesis using assms
    by (intro disjI2 exI [of _ Feed])
      (auto simp: cv_act_def cv_feeder_step_def sched_act_def simp del: feeder_step.simps split: option.splits)
next
  case (Cv_cpu i)
  then show ?thesis using assms
    by (cases "core c' = core c", simp, intro disjI2 exI [of _ "Cpu i"])
      (auto simp: cv_act_def cv_cpu_step_def cv_job_def sched_act_def Let_def split: option.splits if_splits)
next
  case (Spurious i)
  then show ?thesis using assms by (auto simp: cv_act_def split: if_splits)
qed

lemma cv_run_simulated:
  "cv_run props c as = Some c' \<Longrightarrow> \<exists>bs. sched_run props (core c) bs = Some (core c') \<and> length bs \<le> length as"
proof (induction props c as rule: cv_run.induct)
  case (1 props c)
  then show ?case by (intro exI [of _ "[]"]) simp
next
  case (2 props c a as)
  then obtain d where d: "cv_act props c a = Some d" "cv_run props d as = Some c'" by (auto split: option.splits)
  obtain bs where bs: "sched_run props (core d) bs = Some (core c')" "length bs \<le> length as"
    using 2(1) [OF d] by blast
  from cv_act_simulated [OF d(1)] show ?case
  proof
    assume "core d = core c"
    then show ?thesis using bs by (intro exI [of _ bs]) simp
  next
    assume "\<exists>b. sched_act props (core c) b = Some (core d)"
    then obtain b where "sched_act props (core c) b = Some (core d)" by blast
    then show ?thesis using bs by (intro exI [of _ "b # bs"]) simp
  qed
qed


definition cv_demo_start :: "cv_action list" where
  "cv_demo_start = [Cv_cpu 1, Cv_feed 0, Cv_cpu 0]"

definition cv_demo_rest :: "cv_action list" where
  "cv_demo_rest = [Cv_feed 0, Cv_feed 0, Cv_tick 5000, Cv_cpu 0, Cv_cpu 0]"

lemma cv_demo_run:
  "case cv_run demo_props (cv_boot demo_props [PL 5] True) cv_demo_start of
     None \<Rightarrow> False
   | Some c \<Rightarrow> waiting c = [False, True] \<and> cpus (core c) ! 1 = Polling \<and> events (core c) = [] \<and>
       nextPid (core c) = 2 \<and>
       (case cv_run demo_props c cv_demo_rest of
          None \<Rightarrow> False
        | Some d \<Rightarrow> cpus (core d) ! 0 = Exited \<and> map (\<lambda>q. map pid (rq q)) (queues (core d)) = [[-1], [-1]])"
  by code_simp

definition cv_demo_mid :: cv_sys where
  "cv_demo_mid = the (cv_run demo_props (cv_boot demo_props [PL 5] True) cv_demo_start)"

definition cv_demo_end :: cv_sys where
  "cv_demo_end = the (cv_run demo_props cv_demo_mid cv_demo_rest)"

lemma cv_demo_facts:
  "cv_run demo_props (cv_boot demo_props [PL 5] True) cv_demo_start = Some cv_demo_mid"
  "waiting cv_demo_mid = [False, True]" "cpus (core cv_demo_mid) ! 1 = Polling" "events (core cv_demo_mid) = []"
  "nextPid (core cv_demo_mid) = 2"
  "cv_run demo_props cv_demo_mid cv_demo_rest = Some cv_demo_end"
  "cpus (core cv_demo_end) ! 0 = Exited" "map (\<lambda>q. map pid (rq q)) (queues (core cv_demo_end)) = [[-1], [-1]]"
  using cv_demo_run by (simp_all add: cv_demo_mid_def cv_demo_end_def split: option.splits)


subsection \<open>The lost wake-up\<close>

text \<open>No burst left to read from a file: nothing will be signalled any more.\<close>

definition no_more_signals :: "SchedProps \<Rightarrow> event list \<Rightarrow> bool" where
  "no_more_signals props es \<longleftrightarrow> source props = SOURCE_RANDOM \<or> (\<forall>e\<in>set es. \<forall>len. e \<noteq> PL len)"

lemma feeder_events:
  "feeder_step props \<sigma> = Some \<sigma>' \<Longrightarrow> set (events \<sigma>') \<subseteq> set (events \<sigma>) \<and> cpus \<sigma>' = cpus \<sigma>"
  by (auto simp: feed_burst_def Let_def split: if_splits list.splits event.splits)

lemma cpu_step_others:
  "cpu_step props \<sigma> i = Some \<sigma>' \<Longrightarrow> events \<sigma>' = events \<sigma> \<and> length (cpus \<sigma>') = length (cpus \<sigma>) \<and>
     (\<forall>j. j \<noteq> i \<longrightarrow> cpus \<sigma>' ! j = cpus \<sigma> ! j)"
  by (auto simp: cpu_step_def Let_def split: cpu_state.splits if_splits option.splits prod.splits)

definition stuck :: "SchedProps \<Rightarrow> nat \<Rightarrow> cv_sys \<Rightarrow> bool" where
  "stuck props i c \<longleftrightarrow> i < length (waiting c) \<and> i < length (cpus (core c)) \<and> waiting c ! i \<and>
     cpus (core c) ! i = Polling \<and> no_more_signals props (events (core c))"

lemma no_signal: "no_more_signals props (events \<sigma>) \<Longrightarrow> signalled props \<sigma> = None"
  by (auto simp: no_more_signals_def signalled_def split: ScheduleSource.splits list.splits event.splits)

lemma stuck_act:
  assumes "stuck props i c" and "cv_act props c a = Some c'" and "a \<noteq> Spurious i"
  shows "stuck props i c'"
proof (cases a)
  case (Cv_tick d)
  then show ?thesis using assms by (auto simp: stuck_def cv_act_def)
next
  case (Cv_feed w)
  then obtain \<sigma> where s: "feeder_step props (core c) = Some \<sigma>" "c' = c\<lparr>core := \<sigma>\<rparr>"
    using assms(2) no_signal assms(1)
    by (auto simp: stuck_def cv_act_def cv_feeder_step_def simp del: feeder_step.simps split: option.splits)
  then show ?thesis using assms(1) feeder_events [OF s(1)]
    by (auto simp: stuck_def no_more_signals_def simp del: feeder_step.simps)
next
  case (Cv_cpu j)
  then have "j \<noteq> i" using assms(1,2) by (auto simp: stuck_def cv_act_def cv_cpu_step_def split: if_splits)
  then show ?thesis using Cv_cpu assms(1,2)
    by (auto simp: stuck_def cv_act_def cv_cpu_step_def cv_job_def Let_def dest!: cpu_step_others split: if_splits option.splits)
next
  case (Spurious j)
  then show ?thesis using assms by (auto simp: stuck_def cv_act_def split: if_splits)
qed

lemma stuck_run:
  "cv_run props c as = Some c' \<Longrightarrow> stuck props i c \<Longrightarrow> Spurious i \<notin> set as \<Longrightarrow> stuck props i c'"
  by (induction props c as rule: cv_run.induct) (auto split: option.splits dest: stuck_act)

text \<open>C31: a processor that waits when the last burst has been read (or at any time when the bursts are
  random ones) waits forever, spurious wake-ups apart: it sleeps through the end marker, and
  \<open>schedule\<close> never gets past \<open>pthread_join\<close>. In the run of the witness both markers are in
  place, one processor has left and the other never will.\<close>

theorem cv_lost_wakeup:
  assumes "cv_run props c as = Some c'" and "i < length (waiting c)" and "i < length (cpus (core c))"
    and "waiting c ! i" and "cpus (core c) ! i = Polling"
    and "source props = SOURCE_RANDOM \<or> (\<forall>e\<in>set (events (core c)). \<forall>len. e \<noteq> PL len)"
    and "Spurious i \<notin> set as"
  shows "waiting c' ! i \<and> \<not> joined (core c')"
proof -
  have "stuck props i c'"
    using stuck_run [OF assms(1) _ assms(7)] assms(2-6) by (simp add: stuck_def no_more_signals_def)
  then show ?thesis by (auto simp: stuck_def joined_def list_all_length)
qed

theorem cv_lost_wakeup_witness:
  "map (\<lambda>q. map pid (rq q)) (queues (core cv_demo_end)) = [[-1], [-1]] \<and> cpus (core cv_demo_end) ! 0 = Exited \<and>
   waiting cv_demo_end ! 1 \<and> \<not> joined (core cv_demo_end)"
proof -
  obtain bs where "sched_run demo_props (sched_boot demo_props [PL 5] True) bs = Some (core cv_demo_mid)"
    using cv_run_simulated [OF cv_demo_facts(1)] by (auto simp: cv_boot_def)
  then have "sched_reachable demo_props [PL 5] True (core cv_demo_mid)" by (rule sched_run_reachable [OF _ boot])
  moreover have "run_config demo_props [PL 5]" by (simp add: run_config_def demo_props_def)
  ultimately have "length (cpus (core cv_demo_mid)) = 2"
    using sched_invD [OF sched_reachable_inv] by (simp add: demo_props_def)
  then show ?thesis
    using cv_lost_wakeup [OF cv_demo_facts(6), of 1] cv_demo_facts by (simp add: cv_demo_rest_def)
qed

end
