(* ===== verification/Scan.thy ===== *)
theory Scan
  imports CString "HOL-Library.Word"
begin

text \<open>
  The parts of the C library through which \<open>p4\<close> reads numbers and lines, on 64-bit words:
  \<open>strtoul\<close> with base 0, \<open>sscanf\<close> for the conversions the formats use, and the lines that
  repeated calls of \<open>fgets\<close> with one buffer size deliver. The texts hold no NUL.
\<close>

type_synonym u64 = "64 word"

subsection \<open>Unsigned numbers\<close>

definition digit_value :: "char \<Rightarrow> int option" where
  "digit_value c =
     (let v = ordc c in
      if 48 \<le> v \<and> v \<le> 57 then Some (v - 48)
      else if 97 \<le> v \<and> v \<le> 102 then Some (v - 87)
      else if 65 \<le> v \<and> v \<le> 70 then Some (v - 55)
      else None)"

definition in_base :: "int \<Rightarrow> char \<Rightarrow> bool" where
  "in_base base c = (case digit_value c of Some v \<Rightarrow> v < base | None \<Rightarrow> False)"

fun number :: "int \<Rightarrow> int \<Rightarrow> string \<Rightarrow> int" where
  "number base acc [] = acc"
| "number base acc (c # cs) =
     (case digit_value c of Some v \<Rightarrow> number base (base * acc + v) cs | None \<Rightarrow> acc)"

text \<open>A number too large becomes \<open>ULONG_MAX\<close>; a minus sign negates modulo \<open>2 ^ 64\<close>.\<close>

definition to_ulong :: "bool \<Rightarrow> int \<Rightarrow> u64" where
  "to_ulong neg v = (if 2 ^ 64 \<le> v then - 1 else if neg then - word_of_int v else word_of_int v)"

definition has_0x :: "string \<Rightarrow> bool" where
  "has_0x s = (case s of a # b # c # _ \<Rightarrow> a = CHR ''0'' \<and> b \<in> {CHR ''x'', CHR ''X''} \<and> in_base 16 c | _ \<Rightarrow> False)"

definition split_sign :: "string \<Rightarrow> bool \<times> string" where
  "split_sign s = (case s of [] \<Rightarrow> (False, [])
     | c # cs \<Rightarrow> if c = CHR ''-'' then (True, cs) else if c = CHR ''+'' then (False, cs) else (False, c # cs))"

definition strtoul :: "string \<Rightarrow> u64" where
  "strtoul s =
     (let (neg, t) = split_sign (dropWhile is_delim s);
          base = (if has_0x t then 16 else if take 1 t = ''0'' then 8 else 10);
          u = (if has_0x t then drop 2 t else t)
      in to_ulong neg (number base 0 (takeWhile (in_base base) u)))"

subsection \<open>Formatted input\<close>

datatype directive = Conv_lx | Conv_ld | Conv_s | Lit char | Space
datatype scanned = Hex u64 | Dec int | Token string

text \<open>Each conversion returns what it read and the rest of the input, or fails.\<close>

definition scan_hex :: "string \<Rightarrow> (scanned \<times> string) option" where
  "scan_hex s =
     (let (neg, t) = split_sign (dropWhile is_delim s); u = (if has_0x t then drop 2 t else t);
          ds = takeWhile (in_base 16) u
      in if ds = [] then None else Some (Hex (to_ulong neg (number 16 0 ds)), dropWhile (in_base 16) u))"

definition scan_dec :: "string \<Rightarrow> (scanned \<times> string) option" where
  "scan_dec s =
     (let (neg, t) = split_sign (dropWhile is_delim s); ds = takeWhile is_digit t
      in if ds = [] then None
         else Some (Dec ((if neg then -1 else 1) * number 10 0 ds), dropWhile is_digit t))"

definition scan_str :: "string \<Rightarrow> (scanned \<times> string) option" where
  "scan_str s =
     (let t = dropWhile is_delim s
      in if t = [] then None
         else Some (Token (takeWhile (\<lambda>c. \<not> is_delim c) t), dropWhile (\<lambda>c. \<not> is_delim c) t))"

text \<open>\<open>sscanf\<close> stops at the first directive that fails; its value is the number of results.\<close>

fun sscanf :: "directive list \<Rightarrow> string \<Rightarrow> scanned list" where
  "sscanf [] s = []"
| "sscanf (Space # ds) s = sscanf ds (dropWhile is_delim s)"
| "sscanf (Lit c # ds) s = (case s of [] \<Rightarrow> [] | x # xs \<Rightarrow> if x = c then sscanf ds xs else [])"
| "sscanf (Conv_lx # ds) s = (case scan_hex s of None \<Rightarrow> [] | Some (v, t) \<Rightarrow> v # sscanf ds t)"
| "sscanf (Conv_ld # ds) s = (case scan_dec s of None \<Rightarrow> [] | Some (v, t) \<Rightarrow> v # sscanf ds t)"
| "sscanf (Conv_s # ds) s = (case scan_str s of None \<Rightarrow> [] | Some (v, t) \<Rightarrow> v # sscanf ds t)"

definition hex_at :: "scanned list \<Rightarrow> nat \<Rightarrow> u64" where
  "hex_at vs k = (if k < length vs then case vs ! k of Hex v \<Rightarrow> v | _ \<Rightarrow> 0 else 0)"

subsection \<open>Lines\<close>

text \<open>One call with room for \<open>k\<close> characters reads up to and including a newline.\<close>

fun fgets :: "nat \<Rightarrow> string \<Rightarrow> string \<times> string" where
  "fgets 0 s = ([], s)"
| "fgets (Suc k) [] = ([], [])"
| "fgets (Suc k) (c # s) =
     (if c = CHR 0x0A then ([c], s) else (let (a, b) = fgets k s in (c # a, b)))"

lemma fgets_append: "fgets k s = (a, b) \<Longrightarrow> a @ b = s"
  by (induction k s arbitrary: a b rule: fgets.induct) (auto split: if_splits prod.splits)

lemma fgets_shorter: "fgets k s = (a, b) \<Longrightarrow> s \<noteq> [] \<Longrightarrow> 0 < k \<Longrightarrow> length b < length s"
  by (cases k; cases s) (auto split: if_splits prod.splits dest: fgets_append)

text \<open>The successive results with a buffer of \<open>n\<close> bytes, one of which holds the NUL.\<close>

function fgets_lines :: "nat \<Rightarrow> string \<Rightarrow> string list" where
  "fgets_lines n s =
     (if s = [] \<or> n \<le> 1 then [] else (case fgets (n - 1) s of (a, b) \<Rightarrow> a # fgets_lines n b))"
  by pat_completeness auto
termination
  by (relation "measure (\<lambda>(n, s). length s)") (auto intro: fgets_shorter [OF sym])

declare fgets_lines.simps [simp del]

lemma fgets_lines_concat: "1 < n \<Longrightarrow> concat (fgets_lines n s) = s"
proof (induction n s rule: fgets_lines.induct)
  case (1 n s)
  obtain a b where ab: "fgets (n - 1) s = (a, b)" by force
  show ?case
  proof (cases "s = []")
    case False
    then show ?thesis
      using 1(1) [of a b] 1(2) ab fgets_append [OF ab] by (subst fgets_lines.simps) simp
  qed (simp add: fgets_lines.simps)
qed

lemma fgets_newline:
  "\<forall>c\<in>set l. c \<noteq> CHR 0x0A \<Longrightarrow> length l < k \<Longrightarrow> fgets k (l @ CHR 0x0A # s) = (l @ [CHR 0x0A], s)"
proof (induction l arbitrary: k)
  case Nil
  then show ?case by (cases k) auto
next
  case (Cons c l)
  then show ?case by (cases k) auto
qed

lemma fgets_lines_line:
  assumes "\<forall>c\<in>set l. c \<noteq> CHR 0x0A" and "length l + 1 < n"
  shows "fgets_lines n (l @ CHR 0x0A # s) = (l @ [CHR 0x0A]) # fgets_lines n s"
  using fgets_newline [OF assms(1), of "n - 1" s] assms(2) by (subst fgets_lines.simps) simp

end
