(* ===== verification/MemUtils.thy ===== *)
theory MemUtils
  imports Scan
begin

unbundle bit_operations_syntax

text \<open>
  The page table tools, \<open>p4/22002379-22003430-22001849/mem_utils.c\<close>, on 64-bit words.

  \<^item> The files under \<open>/proc\<close> are data of the kernel, the parameter \<open>proc_files\<close>: the text of
    \<open>/proc/PID/maps\<close>, and for the three binary files the result of reading 8 bytes at a byte
    offset, or None where the file cannot be opened.
  \<^item> A file descriptor is the content and a position, which \<open>lseek\<close> sets and a successful \<open>read\<close>
    advances. A word that the code reads without having written it is a parameter \<open>junk\<close>.
  \<^item> What a function prints is a value: the numbers in the order they appear.
\<close>

subsection \<open>Files\<close>

datatype read_result = Got u64 | Eof | Failed

record fd =
  content :: "int \<Rightarrow> read_result"
  pos :: int

record proc_files =
  maps_file :: "int \<Rightarrow> string option"
  pagemap_file :: "int \<Rightarrow> (int \<Rightarrow> read_result) option"
  kpagecount_file :: "(int \<Rightarrow> read_result) option"
  kpageflags_file :: "(int \<Rightarrow> read_result) option"

text \<open>A descriptor of -1 refuses every call.\<close>

definition open_fd :: "(int \<Rightarrow> read_result) option \<Rightarrow> fd" where
  "open_fd f = \<lparr>content = (case f of Some c \<Rightarrow> c | None \<Rightarrow> (\<lambda>_. Failed)), pos = 0\<rparr>"

text \<open>\<open>off_t\<close> is signed: a negative offset is refused and leaves the position.\<close>

definition lseek :: "fd \<Rightarrow> u64 \<Rightarrow> fd option" where
  "lseek f off = (if 2 ^ 63 \<le> off then None else Some (f\<lparr>pos := uint off\<rparr>))"

definition seek :: "fd \<Rightarrow> u64 \<Rightarrow> fd" where
  "seek f off = (case lseek f off of None \<Rightarrow> f | Some g \<Rightarrow> g)"

definition read64 :: "fd \<Rightarrow> read_result \<times> fd" where
  "read64 f = (case content f (pos f) of
     Got v \<Rightarrow> (Got v, f\<lparr>pos := pos f + 8\<rparr>) | r \<Rightarrow> (r, f))"

definition got_or :: "u64 \<Rightarrow> read_result \<Rightarrow> u64" where
  "got_or old r = (case r of Got v \<Rightarrow> v | _ \<Rightarrow> old)"

text \<open>The loop \<open>for (i = a; i < b; i++)\<close> over words runs through these values.\<close>

lemma unat_Suc_less: "unat (i + 1) = unat i + 1" if "i < (b :: u64)"
proof -
  have "unat i < unat b" using that by (simp add: word_less_nat_alt)
  then have "unat i + 1 < 2 ^ 64" using unsigned_less [of b, where ?'a = nat] by simp
  then show ?thesis by (simp add: unat_word_ariths)
qed

function for_words :: "u64 \<Rightarrow> u64 \<Rightarrow> u64 list" where
  "for_words a b = (if a < b then a # for_words (a + 1) b else [])"
  by pat_completeness auto
termination
  by (relation "measure (\<lambda>(a, b). unat b - unat a)") (auto simp: unat_Suc_less word_less_nat_alt)

declare for_words.simps [simp del]

lemma for_words_upt: "for_words a b = map word_of_nat [unat a..<unat b]"
proof (induction a b rule: for_words.induct)
  case (1 a b)
  show ?case
  proof (cases "a < b")
    case True
    then have "[unat a..<unat b] = unat a # [unat (a + 1)..<unat b]"
      by (simp add: upt_conv_Cons word_less_nat_alt unat_Suc_less [OF True])
    then show ?thesis using True 1 by (subst for_words.simps) simp
  qed (simp add: for_words.simps word_less_nat_alt)
qed

lemma unat_drop_bit_div: "unat (drop_bit n v) = unat v div 2 ^ n"
  unfolding unat_drop_bit_eq by (rule drop_bit_eq_div)

subsection \<open>free\_fc\<close>

datatype fc_output = Fc_no_file | Fc_invalid u64 int | Fc_count int

fun free_fc_loop :: "fd \<Rightarrow> int \<Rightarrow> u64 list \<Rightarrow> fc_output" where
  "free_fc_loop kpc n [] = Fc_count n"
| "free_fc_loop kpc n (i # is) =
     (case read64 (seek kpc (i * 8)) of
        (Got v, kpc') \<Rightarrow> free_fc_loop kpc' (if v = 0 then n + 1 else n) is
      | (_, _) \<Rightarrow> Fc_invalid i n)"

definition free_fc :: "proc_files \<Rightarrow> u64 \<Rightarrow> u64 \<Rightarrow> fc_output" where
  "free_fc P pfnBegin pfnEnd =
     (case kpagecount_file P of None \<Rightarrow> Fc_no_file
      | Some c \<Rightarrow> free_fc_loop (open_fd (Some c)) 0 (for_words pfnBegin pfnEnd))"

subsection \<open>frame\_info\<close>

definition kpageflags :: "string list" where
  "kpageflags =
     [''LOCKED'', ''ERROR'', ''REFERENCED'', ''UPTODATE'', ''DIRTY'', ''LRU'', ''ACTIVE'', ''SLAB'',
      ''WRITEBACK'', ''RECLAIM'', ''BUDDY'', ''MMAP'', ''ANON'', ''SWAPCACHE'', ''SWAPBACKED'',
      ''COMPOUND_HEAD'', ''COMPOUND_TAIL'', ''HUGE'', ''UNEVICTABLE'', ''HWPOISON'', ''NOPAGE'',
      ''KSM'', ''THP'', ''BALLOON'', ''ZERO_PAGE'', ''IDLE'']"

text \<open>The legend, the frame number and the flag bits in the legend's order.\<close>

datatype fi_output = Fi_no_file | Fi_invalid u64 | Fi_flags "(nat \<times> string) list" u64 "u64 list"

definition frame_info :: "proc_files \<Rightarrow> u64 \<Rightarrow> fi_output" where
  "frame_info P pfn =
     (case kpageflags_file P of None \<Rightarrow> Fi_no_file
      | Some c \<Rightarrow>
          (case fst (read64 (seek (open_fd (Some c)) (pfn * 8))) of
             Got v \<Rightarrow> Fi_flags (map (\<lambda>i. (i, kpageflags ! i)) [0..<26]) pfn
                        (map (\<lambda>i. drop_bit i v AND 1) [0..<26])
           | _ \<Rightarrow> Fi_invalid pfn))"

subsection \<open>mem\_used\<close>

text \<open>The format \<open>\"%lx-%lx %s %ld %s %ld %s\"\<close>; the path is the seventh result.\<close>

definition maps_format :: "directive list" where
  "maps_format = [Conv_lx, Lit CHR ''-'', Conv_lx, Space, Conv_s, Space, Conv_ld, Space, Conv_s, Space,
     Conv_ld, Space, Conv_s]"

definition scanned_path :: "string \<Rightarrow> scanned list \<Rightarrow> string" where
  "scanned_path junk vs = (if 6 < length vs then case vs ! 6 of Token w \<Rightarrow> w | _ \<Rightarrow> junk else junk)"

text \<open>The first loop, up to the line of \<open>[vsyscall]\<close>; \<open>junk k\<close> is the path buffer before line \<open>k\<close>.\<close>

fun virtual_used :: "(nat \<Rightarrow> string) \<Rightarrow> nat \<Rightarrow> string list \<Rightarrow> u64 \<Rightarrow> u64" where
  "virtual_used junk k [] acc = acc"
| "virtual_used junk k (l # ls) acc =
     (let vs = sscanf maps_format l; acc' = acc + drop_bit 10 (hex_at vs 1 - hex_at vs 0)
      in if strcmp (scanned_path (junk k) vs) ''[vsyscall]'' = 0 then acc'
         else virtual_used junk (Suc k) ls acc')"

text \<open>The second: the sums for all mapped and for exclusively mapped pages. None: it gave up.\<close>

fun pages_used :: "fd \<Rightarrow> fd \<Rightarrow> u64 \<Rightarrow> u64 list \<Rightarrow> u64 \<times> u64 \<Rightarrow> (u64 \<times> u64) option" where
  "pages_used pm kpc addrEnd [] sums = Some sums"
| "pages_used pm kpc addrEnd (vpn # vpns) (tot, alone) =
     (case read64 (seek pm (push_bit 3 vpn)) of
        (Got data, pm') \<Rightarrow>
          if drop_bit 63 data AND 1 = 0 then pages_used pm' kpc addrEnd vpns (tot, alone)
          else (case read64 (seek kpc (push_bit 3 (data AND 0x7FFFFFFFFFFFFF))) of
             (Got mapCount, kpc') \<Rightarrow>
               let memCount = (if vpn = drop_bit 12 addrEnd then addrEnd - push_bit 12 vpn else 4096)
               in pages_used pm' kpc' addrEnd vpns
                    (if 1 \<le> sint mapCount then tot + memCount else tot,
                     if mapCount = 1 then alone + memCount else alone)
           | (_, _) \<Rightarrow> None)
      | (_, pm') \<Rightarrow> pages_used pm' kpc addrEnd vpns (tot, alone))"

fun physical_used :: "fd \<Rightarrow> fd \<Rightarrow> string list \<Rightarrow> u64 \<times> u64 \<Rightarrow> (u64 \<times> u64) option" where
  "physical_used pm kpc [] sums = Some sums"
| "physical_used pm kpc (l # ls) sums =
     (let vs = sscanf maps_format l; addrStart = hex_at vs 0; addrEnd = hex_at vs 1
      in case pages_used pm kpc addrEnd (for_words (drop_bit 12 addrStart) (drop_bit 12 addrEnd + 1)) sums of
           None \<Rightarrow> None
         | Some sums' \<Rightarrow> physical_used pm kpc ls sums')"

text \<open>
  \<open>Mu_crash\<close>: the maps file is missing, which \<open>mapsFd < 0\<close> does not detect, and \<open>feof(NULL)\<close>
  is called. The other results hold the virtual size, and the physical ones if they were reached.
\<close>

datatype mu_output = Mu_crash | Mu_no_counts u64 | Mu_count_failed u64 | Mu_done u64 u64 u64

definition mem_used :: "proc_files \<Rightarrow> (nat \<Rightarrow> string) \<Rightarrow> int \<Rightarrow> mu_output" where
  "mem_used P junk pid =
     (case maps_file P pid of None \<Rightarrow> Mu_crash
      | Some maps \<Rightarrow>
          let virt = virtual_used junk 0 (fgets_lines 364 maps) 0
          in case kpagecount_file P of None \<Rightarrow> Mu_no_counts virt
             | Some c \<Rightarrow>
                 (case physical_used (open_fd (pagemap_file P pid)) (open_fd (Some c))
                         (fgets_lines 364 maps) (0, 0) of
                    None \<Rightarrow> Mu_count_failed virt
                  | Some (tot, alone) \<Rightarrow> Mu_done virt (drop_bit 10 tot) (drop_bit 10 alone)))"

end
