(* ===== verification/PageMaps.thy ===== *)
theory PageMaps
  imports MemUtils "HOL-Library.Monad_Syntax"
begin

unbundle bit_operations_syntax

text \<open>
  The rest of \<open>mem_utils.c\<close>: the functions that print translations (\<open>map_va\<close>, \<open>pte\<close>,
  \<open>map_range\<close>, \<open>map\<close>) and the size of the page tables (\<open>all_table_size\<close>); and the
  command line of \<open>pvm.c\<close>.
\<close>

subsection \<open>map\_va and pte\<close>

datatype va_output = Frame u64 | Not_in_memory

definition map_va :: "proc_files \<Rightarrow> u64 \<Rightarrow> int \<Rightarrow> u64 \<Rightarrow> va_output" where
  "map_va P junk pid va =
     (let fd = open_fd (pagemap_file P pid); vpn = drop_bit 12 va;
          entry = got_or junk (fst (read64 (seek fd vpn)))
      in if entry AND push_bit 63 1 \<noteq> 0 then Frame (entry AND (push_bit 55 1 - 1)) else Not_in_memory)"

datatype pte_line = In_physical u64 | Swapped_out u64 | Swap_offset u64 | Not_swapped u64
  | Frame_number u64 | Not_in_physical u64 | Footer

definition pte :: "proc_files \<Rightarrow> u64 \<Rightarrow> int \<Rightarrow> u64 \<Rightarrow> pte_line list" where
  "pte P junk pid va =
     (let fd = open_fd (pagemap_file P pid); vpn = drop_bit 12 va;
          entry = got_or junk (fst (read64 (seek fd vpn)));
          frameNumber = entry AND (push_bit 55 1 - 1)
      in (if entry AND push_bit 63 1 \<noteq> 0
          then In_physical va #
            (if entry AND push_bit 62 1 \<noteq> 0 then [Swapped_out va, Swap_offset frameNumber]
             else [Not_swapped va, Frame_number frameNumber])
          else [Not_in_physical va, Footer]) @ [Footer])"

subsection \<open>map\_range\<close>

datatype range_line = Page_at u64 u64 | Unused u64

text \<open>\<open>endVpn = vaEnd >> 12\<close>, so \<open>i\<close> cannot wrap; the position only moves by the reads.\<close>

function map_range_loop :: "fd \<Rightarrow> u64 \<Rightarrow> u64 \<Rightarrow> u64 \<Rightarrow> range_line list" where
  "map_range_loop fd entry i vaEnd =
     (if i \<le> drop_bit 12 vaEnd
      then let (r, fd') = read64 fd; entry' = got_or entry r
           in (if entry' AND push_bit 63 1 \<noteq> 0 then Page_at i (entry' AND (push_bit 55 1 - 1)) else Unused i)
              # map_range_loop fd' entry' (i + 16) vaEnd
      else [])"
  by pat_completeness auto

lemma drop_12_less: "unat (drop_bit 12 (v :: u64)) < 2 ^ 52"
  using unsigned_less [of v, where ?'a = nat] unfolding unat_drop_bit_div
  by (intro less_mult_imp_div_less) simp

lemma unat_plus_16: "unat (i + 16) = unat i + 16" if "i \<le> drop_bit 12 (v :: u64)"
proof -
  have "unat i < 2 ^ 52" using that drop_12_less [of v] by (simp add: word_le_nat_alt)
  then show ?thesis by (simp add: unat_word_ariths)
qed

termination map_range_loop
proof (relation "measure (\<lambda>(_, _, i, _). 2 ^ 53 - unat i)")
  fix fd :: fd and entry i vaEnd x' :: u64 and y :: fd
  assume "i \<le> drop_bit 12 vaEnd"
  then have "unat i < 2 ^ 52" "unat (i + 16) = unat i + 16"
    using drop_12_less [of vaEnd] unat_plus_16 by (simp_all add: word_le_nat_alt)
  then show "((y, x', i + 16, vaEnd), (fd, entry, i, vaEnd)) \<in> measure (\<lambda>(_, _, i, _). 2 ^ 53 - unat i)"
    by simp
qed simp

declare map_range_loop.simps [simp del]

definition map_range :: "proc_files \<Rightarrow> u64 \<Rightarrow> int \<Rightarrow> u64 \<Rightarrow> u64 \<Rightarrow> range_line list" where
  "map_range P junk pid vaBegin vaEnd =
     (let fd = seek (open_fd (pagemap_file P pid)) (drop_bit 12 vaBegin)
      in map_range_loop fd junk (drop_bit 12 vaBegin) vaEnd)"

subsection \<open>map, map\_all and map\_all\_in\<close>

datatype map_line = Page_frame u64 u64 | Page_not_in_memory u64 | Read_error | End_of_pagemap

text \<open>
  The loop over the pages of one interval. \<open>ps\<close> is the page size. \<open>va1 += ps\<close> can wrap, so the
  loop need not end: None. The flag is False where the code returns from \<open>map\<close>.
\<close>

partial_function (option) map_pages ::
    "u64 \<Rightarrow> int \<Rightarrow> u64 \<Rightarrow> map_line list \<Rightarrow> fd \<Rightarrow> u64 \<Rightarrow> (map_line list \<times> fd \<times> bool) option" where
  "map_pages ps inMem va2 out fd va1 =
     (if va1 < va2 then
        (case lseek fd (va1 div ps * 8) of None \<Rightarrow> Some (out, fd, False)
         | Some fd1 \<Rightarrow>
             (case read64 fd1 of
                (Failed, fd2) \<Rightarrow> Some (out @ [Read_error], fd2, True)
              | (Eof, fd2) \<Rightarrow> Some (out @ [End_of_pagemap], fd2, True)
              | (Got e, fd2) \<Rightarrow>
                  map_pages ps inMem va2
                    (if e AND push_bit 63 1 \<noteq> 0
                     then out @ [Page_frame (va1 div ps) (e AND 0x7FFFFFFFFFFFFF)]
                     else if inMem = 0 then out @ [Page_not_in_memory (va1 div ps)] else out)
                    fd2 (va1 + ps)))
      else Some (out, fd, True))"

fun map_lines :: "u64 \<Rightarrow> int \<Rightarrow> map_line list \<Rightarrow> fd \<Rightarrow> string list \<Rightarrow> map_line list option" where
  "map_lines ps inMem out fd [] = Some out"
| "map_lines ps inMem out fd (l # ls) =
     (let vs = sscanf [Conv_lx, Lit CHR ''-'', Conv_lx] l
      in if length vs = 2
         then do { (out', fd', go_on) \<leftarrow> map_pages ps inMem (hex_at vs 1) out fd (hex_at vs 0);
                   if go_on then map_lines ps inMem out' fd' ls else Some out' }
         else map_lines ps inMem out fd ls)"

datatype map_output = No_maps | No_pagemap | Mapped "map_line list"

definition map_c :: "u64 \<Rightarrow> proc_files \<Rightarrow> int \<Rightarrow> int \<Rightarrow> map_output option" where
  "map_c ps P pid inMem =
     (case maps_file P pid of None \<Rightarrow> Some No_maps
      | Some maps \<Rightarrow>
          (case pagemap_file P pid of None \<Rightarrow> Some No_pagemap
           | Some c \<Rightarrow>
               map_option Mapped (map_lines ps inMem [] (open_fd (Some c)) (fgets_lines 1000 maps))))"

definition map_all :: "u64 \<Rightarrow> proc_files \<Rightarrow> int \<Rightarrow> map_output option" where
  "map_all ps P pid = map_c ps P pid 0"

definition map_all_in :: "u64 \<Rightarrow> proc_files \<Rightarrow> int \<Rightarrow> map_output option" where
  "map_all_in ps P pid = map_c ps P pid 1"

subsection \<open>all\_table\_size\<close>

text \<open>The three arrays, all 0 at first, and the counts of their entries set to 1.\<close>

record tables =
  level2 :: "u64 \<Rightarrow> bool"
  level3 :: "u64 \<Rightarrow> bool"
  level4 :: "u64 \<Rightarrow> bool"
  level2Count :: int
  level3Count :: int
  level4Count :: int

definition no_tables :: tables where
  "no_tables = \<lparr>level2 = \<lambda>_. False, level3 = \<lambda>_. False, level4 = \<lambda>_. False,
     level2Count = 0, level3Count = 0, level4Count = 0\<rparr>"

definition pdptIndex :: "u64 \<Rightarrow> u64" where "pdptIndex i = drop_bit 9 i AND 0x1ff"
definition pdIndex :: "u64 \<Rightarrow> u64" where "pdIndex i = drop_bit 18 i AND 0x1ff"
definition ptIndex :: "u64 \<Rightarrow> u64" where "ptIndex i = drop_bit 27 i AND 0x1ff"

definition level3_slot :: "u64 \<Rightarrow> u64" where
  "level3_slot i = push_bit 9 (ptIndex i) + pdIndex i"

definition level4_slot :: "u64 \<Rightarrow> u64" where
  "level4_slot i = push_bit 9 (ptIndex i) + push_bit 18 (pdIndex i) + pdptIndex i"

definition touch_page :: "u64 \<Rightarrow> tables \<Rightarrow> tables" where
  "touch_page i t =
     (let t2 = (if \<not> level2 t (ptIndex i)
                then t\<lparr>level2 := (level2 t)(ptIndex i := True), level2Count := level2Count t + 1\<rparr> else t);
          t3 = (if \<not> level3 t2 (level3_slot i)
                then t2\<lparr>level3 := (level3 t2)(level3_slot i := True), level3Count := level3Count t2 + 1\<rparr> else t2)
      in if \<not> level4 t3 (level4_slot i)
         then t3\<lparr>level4 := (level4 t3)(level4_slot i := True), level4Count := level4Count t3 + 1\<rparr> else t3)"

definition touch_line :: "string \<Rightarrow> tables \<Rightarrow> tables" where
  "touch_line l t =
     (let vs = sscanf [Conv_lx, Lit CHR ''-'', Conv_lx] l
      in fold touch_page (for_words (drop_bit 12 (hex_at vs 0)) (drop_bit 12 (hex_at vs 1))) t)"

text \<open>The result: the kilobytes, the number of tables, and the number of each level.\<close>

datatype ts_output = Ts_no_file | Ts_size int int "int \<times> int \<times> int \<times> int"

definition all_table_size :: "proc_files \<Rightarrow> int \<Rightarrow> ts_output" where
  "all_table_size P pid =
     (case maps_file P pid of None \<Rightarrow> Ts_no_file
      | Some maps \<Rightarrow>
          let t = fold touch_line (fgets_lines 356 maps) no_tables;
              total = 1 + level2Count t + level3Count t + level4Count t
          in Ts_size (push_bit 2 total) total (1, level2Count t, level3Count t, level4Count t))"

subsection \<open>The command line\<close>

datatype pvm_output = Help | Usage string | Nothing | Diverges
  | Out_fc fc_output | Out_fi fi_output | Out_mu mu_output | Out_va va_output
  | Out_pte "pte_line list" | Out_range "range_line list" | Out_map map_output | Out_ts ts_output

definition out_map :: "map_output option \<Rightarrow> pvm_output" where
  "out_map r = (case r of None \<Rightarrow> Diverges | Some m \<Rightarrow> Out_map m)"

text \<open>The exit status is -1 after a usage message and 0 otherwise; \<open>jp\<close> and \<open>j\<close> are junk.\<close>

definition pvm_main :: "u64 \<Rightarrow> proc_files \<Rightarrow> (nat \<Rightarrow> string) \<Rightarrow> u64 \<Rightarrow> string list \<Rightarrow> pvm_output \<times> int" where
  "pvm_main ps P jp j argv =
     (let argc = length argv; num = (\<lambda>k. strtoul (argv ! k)); pid = (\<lambda>k. atoi (argv ! k));
          run = (\<lambda>n out. if argc \<noteq> n then (Usage (argv ! 1), -1) else (out, 0))
      in if argc < 2 \<or> strcmp (argv ! 1) ''-h'' = 0 \<or> strcmp (argv ! 1) ''--help'' = 0 then (Help, 0)
         else if strcmp (argv ! 1) ''-freefc'' = 0 then run 4 (Out_fc (free_fc P (num 2) (num 3)))
         else if strcmp (argv ! 1) ''-frameinfo'' = 0 then run 3 (Out_fi (frame_info P (num 2)))
         else if strcmp (argv ! 1) ''-memused'' = 0 then run 3 (Out_mu (mem_used P jp (pid 2)))
         else if strcmp (argv ! 1) ''-mapva'' = 0 then run 4 (Out_va (map_va P j (pid 2) (num 3)))
         else if strcmp (argv ! 1) ''-pte'' = 0 then run 4 (Out_pte (pte P j (pid 2) (num 3)))
         else if strcmp (argv ! 1) ''-maprange'' = 0
              then run 5 (Out_range (map_range P j (pid 2) (num 3) (num 4)))
         else if strcmp (argv ! 1) ''-mapall'' = 0 then run 3 (out_map (map_all ps P (pid 2)))
         else if strcmp (argv ! 1) ''-mapallin'' = 0 then run 3 (out_map (map_all_in ps P (pid 2)))
         else if strcmp (argv ! 1) ''-alltablesize'' = 0 then run 3 (Out_ts (all_table_size P (pid 2)))
         else (Nothing, 0))"

end
