(* ===== verification/PageFacts.thy ===== *)
theory PageFacts
  imports PageMaps
begin

unbundle bit_operations_syntax

text \<open>
  Facts about the page table tools: reading the binary files of \<open>/proc\<close> by entry, the loops of
  the functions, and the locale of the marking loops of \<open>all_table_size\<close>.
\<close>

subsection \<open>Reading entries\<close>

text \<open>What the kernel documents of the binary files: an array of 64-bit entries, end of file where
  it has none; a position that is not a multiple of 8 is refused.\<close>

definition serves :: "(int \<Rightarrow> read_result) \<Rightarrow> (nat \<Rightarrow> u64 option) \<Rightarrow> bool" where
  "serves c ent \<longleftrightarrow> (\<forall>k. c (8 * int k) = (case ent k of Some v \<Rightarrow> Got v | None \<Rightarrow> Eof))"

definition refuses_unaligned :: "(int \<Rightarrow> read_result) \<Rightarrow> bool" where
  "refuses_unaligned c \<longleftrightarrow> (\<forall>p. p mod 8 \<noteq> 0 \<longrightarrow> c p = Failed)"

definition entry_file :: "(nat \<Rightarrow> u64 option) \<Rightarrow> int \<Rightarrow> read_result" where
  "entry_file ent p = (if p mod 8 \<noteq> 0 then Failed
     else case ent (nat (p div 8)) of Some v \<Rightarrow> Got v | None \<Rightarrow> Eof)"

lemma entry_file_serves: "serves (entry_file ent) ent" and entry_file_unaligned: "refuses_unaligned (entry_file ent)"
  by (simp_all add: serves_def refuses_unaligned_def entry_file_def)

lemma content_seek [simp]: "content (seek f off) = content f"
  by (simp add: seek_def lseek_def)

lemma content_read64 [simp]: "content (snd (read64 f)) = content f"
  by (simp add: read64_def split: read_result.splits)

lemma content_open_fd [simp]: "content (open_fd (Some c)) = c"
  by (simp add: open_fd_def)

lemma read64_cases: "read64 f = (r, g) \<Longrightarrow> content g = content f \<and> r = content f (pos f)"
  by (auto simp: read64_def split: read_result.splits)

lemma pos_seek: "off < 2 ^ 63 \<Longrightarrow> pos (seek f off) = uint off"
  by (simp add: seek_def lseek_def linorder_not_le [symmetric])

lemma unat_word_of_nat: "n < 2 ^ 64 \<Longrightarrow> unat (word_of_nat n :: u64) = n"
  by (simp add: unat_of_nat take_bit_eq_mod)

lemma unat_times_8: "unat i < 2 ^ 60 \<Longrightarrow> unat (i * 8) = 8 * unat (i :: u64)"
  by (simp add: unat_word_ariths)

lemma times_8_less: "unat i < 2 ^ 60 \<Longrightarrow> i * 8 < (2 ^ 63 :: u64)"
  by (simp add: word_less_nat_alt unat_times_8)

lemma pos_seek_8: "unat i < 2 ^ 60 \<Longrightarrow> pos (seek f (i * 8)) = int (8 * unat i)"
  unfolding pos_seek [OF times_8_less] unat_times_8 [symmetric] by (rule of_nat_unat [symmetric])

lemma read_entry:
  assumes "unat i < 2 ^ 60" and "serves (content f) ent" and "read64 (seek f (i * 8)) = (r, g)"
  shows "content g = content f \<and> r = (case ent (unat i) of Some v \<Rightarrow> Got v | None \<Rightarrow> Eof)"
proof -
  have "r = content f (8 * int (unat i))" "content g = content f"
    using read64_cases [OF assms(3)] unfolding pos_seek_8 [OF assms(1)] of_nat_mult of_nat_numeral by simp_all
  then show ?thesis using assms(2) unfolding serves_def by (simp only:)
qed

lemma push_bit_3: "push_bit 3 i = i * (8 :: u64)"
  by (simp add: push_bit_eq_mult)

subsection \<open>Counting frames\<close>

lemma free_fc_loop_count:
  assumes "serves (content kpc) ent" and "\<forall>i\<in>set is. i < 2 ^ 60"
  shows "free_fc_loop kpc n (map word_of_nat is) =
    (if \<forall>i\<in>set is. ent i \<noteq> None then Fc_count (n + int (length (filter (\<lambda>i. ent i = Some 0) is)))
     else Fc_invalid (word_of_nat (hd (dropWhile (\<lambda>i. ent i \<noteq> None) is)))
       (n + int (length (filter (\<lambda>i. ent i = Some 0) (takeWhile (\<lambda>i. ent i \<noteq> None) is)))))"
  using assms
proof (induction "is" arbitrary: kpc n)
  case (Cons i "is")
  obtain r g where r: "read64 (seek kpc (word_of_nat i * 8)) = (r, g)" by force
  have i: "unat (word_of_nat i :: u64) = i" using Cons.prems by (simp add: unat_word_of_nat)
  have "content g = content kpc" "r = (case ent i of Some v \<Rightarrow> Got v | None \<Rightarrow> Eof)"
    using read_entry [OF _ Cons.prems(1) r] i Cons.prems by simp_all
  then show ?case using Cons r by (cases "ent i") auto
qed simp

subsection \<open>The marking loops\<close>

text \<open>A step that sets the entry of its key in an array and counts the entries set.\<close>

locale counted_marks =
  fixes step :: "'p \<Rightarrow> 's \<Rightarrow> 's" and key :: "'p \<Rightarrow> 'k" and marked :: "'s \<Rightarrow> 'k \<Rightarrow> bool" and num :: "'s \<Rightarrow> int"
  assumes marked_step: "marked (step p s) k \<longleftrightarrow> k = key p \<or> marked s k"
    and num_step: "num (step p s) = num s + (if marked s (key p) then 0 else 1)"
begin

lemma marked_fold: "marked (fold step ps s) k \<longleftrightarrow> k \<in> key ` set ps \<or> marked s k"
  by (induction ps arbitrary: s) (auto simp: marked_step)

lemma num_fold: "num (fold step ps s) = num s + int (card {k \<in> key ` set ps. \<not> marked s k})"
proof (induction ps arbitrary: s)
  case (Cons p ps)
  let ?A = "{k \<in> key ` set ps. \<not> marked s k}"
  have "{k \<in> key ` set ps. \<not> marked (step p s) k} = ?A - {key p}"
    by (auto simp: marked_step)
  moreover have "{k \<in> key ` set (p # ps). \<not> marked s k} = (if marked s (key p) then ?A else insert (key p) ?A)"
    by auto
  moreover have "int (card (insert (key p) ?A)) = 1 + int (card (?A - {key p}))"
    by (simp add: card.insert_remove)
  moreover have "marked s (key p) \<Longrightarrow> ?A - {key p} = ?A" by auto
  ultimately show ?case by (simp add: Cons.IH num_step)
qed simp

end

lemma touch_level2:
  "level2 (touch_page p t) k = (k = ptIndex p \<or> level2 t k)"
  "level2Count (touch_page p t) = level2Count t + (if level2 t (ptIndex p) then 0 else 1)"
  by (auto simp: touch_page_def Let_def)

lemma touch_level3:
  "level3 (touch_page p t) k = (k = level3_slot p \<or> level3 t k)"
  "level3Count (touch_page p t) = level3Count t + (if level3 t (level3_slot p) then 0 else 1)"
  by (auto simp: touch_page_def Let_def)

lemma touch_level4:
  "level4 (touch_page p t) k = (k = level4_slot p \<or> level4 t k)"
  "level4Count (touch_page p t) = level4Count t + (if level4 t (level4_slot p) then 0 else 1)"
  by (auto simp: touch_page_def Let_def)

interpretation lv2: counted_marks touch_page ptIndex level2 level2Count
  by unfold_locales (fact touch_level2)+

interpretation lv3: counted_marks touch_page level3_slot level3 level3Count
  by unfold_locales (fact touch_level3)+

interpretation lv4: counted_marks touch_page level4_slot level4 level4Count
  by unfold_locales (fact touch_level4)+

subsection \<open>The slots\<close>

lemma mask_9: "(0x1ff :: u64) = mask 9"
  by (simp add: mask_eq_exp_minus_1)

lemma index_values:
  "unat (ptIndex i) = unat i div 2 ^ 27 mod 2 ^ 9"
  "unat (pdIndex i) = unat i div 2 ^ 18 mod 2 ^ 9"
  "unat (pdptIndex i) = unat i div 2 ^ 9 mod 2 ^ 9"
  unfolding ptIndex_def pdIndex_def pdptIndex_def mask_9
  by (simp_all only: take_bit_eq_mask [symmetric] unsigned_take_bit_eq unat_drop_bit_div)
     (simp_all add: take_bit_eq_mod)

lemma slot_values:
  "unat (level3_slot i) = 2 ^ 9 * unat (ptIndex i) + unat (pdIndex i)"
  "unat (level4_slot i) = 2 ^ 9 * unat (ptIndex i) + 2 ^ 18 * unat (pdIndex i) + unat (pdptIndex i)"
proof -
  have b: "unat (ptIndex i) < 512" "unat (pdIndex i) < 512" "unat (pdptIndex i) < 512"
    by (simp_all add: index_values)
  show "unat (level3_slot i) = 2 ^ 9 * unat (ptIndex i) + unat (pdIndex i)"
    using b by (simp add: level3_slot_def push_bit_eq_mult unat_word_ariths)
  show "unat (level4_slot i) = 2 ^ 9 * unat (ptIndex i) + 2 ^ 18 * unat (pdIndex i) + unat (pdptIndex i)"
    using b by (simp add: level4_slot_def push_bit_eq_mult unat_word_ariths)
qed

end
