(* ===== verification/PvmProperties.thy ===== *)
theory PvmProperties
  imports PageFacts
begin

unbundle bit_operations_syntax

text \<open>
  What the page table tools print: the number of page tables, the counts of frames and pages, the
  translations; with a concrete process as witness.
\<close>

definition two_of :: "scanned list \<Rightarrow> u64 \<times> u64" where
  "two_of vs = (hex_at vs 0, hex_at vs 1)"

definition line_interval :: "string \<Rightarrow> u64 \<times> u64" where
  "line_interval l = two_of (sscanf [Conv_lx, Lit CHR ''-'', Conv_lx] l)"

text \<open>The pages of an interval.\<close>

definition pages_of :: "u64 \<times> u64 \<Rightarrow> nat list" where
  "pages_of ab = [unat (fst ab) div 4096..<unat (snd ab) div 4096]"

lemma for_words_pages: "for_words (drop_bit 12 a) (drop_bit 12 b) = map word_of_nat (pages_of (a, b))"
  unfolding for_words_upt pages_of_def unat_drop_bit_div by simp

lemma page_below: "k \<in> set (pages_of ab) \<Longrightarrow> k < 2 ^ 52"
proof -
  assume "k \<in> set (pages_of ab)"
  then have "k < unat (drop_bit 12 (snd ab))" by (simp add: pages_of_def unat_drop_bit_div)
  then show ?thesis using drop_12_less [of "snd ab"] by linarith
qed

subsection \<open>A process\<close>

text \<open>Three mapped areas and two frames in use; frame 9 is shared, page 7 is not in memory.\<close>

definition demo_maps :: string where
  "demo_maps =
     ''5000-8000 r-xp 00000000 08:02 17 /bin/a'' @ [CHR 0x0A] @
     ''200000-201000 rw-p 00000000 00:00 0 [heap]'' @ [CHR 0x0A] @
     ''ffffffffff600000-ffffffffff601000 --xp 00000000 00:00 0 [vsyscall]'' @ [CHR 0x0A]"

definition demo_pagemap :: "nat \<Rightarrow> u64 option" where
  "demo_pagemap k =
     (if k = 1 then Some 0x8000000000000077 else if k = 5 then Some 0x8000000000000004 else if k = 6 then Some 0x8000000000000009
      else if k = 0x200 then Some 0x8000000000000009 else if k < 0x100000 then Some 0 else None)"

definition demo_counts :: "nat \<Rightarrow> u64 option" where
  "demo_counts k = (if k = 4 then Some 1 else if k = 9 then Some 2 else if k < 16 then Some 0 else None)"

definition demo_proc :: proc_files where
  "demo_proc = \<lparr>maps_file = \<lambda>_. Some demo_maps, pagemap_file = \<lambda>_. Some (entry_file demo_pagemap),
     kpagecount_file = Some (entry_file demo_counts), kpageflags_file = None\<rparr>"

subsection \<open>Frames\<close>

lemma filter_upt_card: "length (filter Q [a..<b]) = card {k \<in> {a..<b}. Q k}" for a :: nat
  using distinct_card [OF distinct_filter [OF distinct_upt, of Q a b]]
  by (simp only: set_filter set_upt)

lemma upt_split_at: "a \<le> m \<Longrightarrow> m < b \<Longrightarrow> [a..<b] = [a..<m] @ m # [Suc m..<b]" for a :: nat
  using upt_add_eq_append [of a m "b - m"] by (simp add: upt_conv_Cons)

lemma while_until: "\<forall>x\<in>set xs. Q x \<Longrightarrow> \<not> Q m \<Longrightarrow>
    takeWhile Q (xs @ m # ys) = xs \<and> dropWhile Q (xs @ m # ys) = m # ys"
  by (induction xs) auto

text \<open>C32: \<open>-freefc\<close> counts exactly the frames of the range whose map count is 0; if the machine
  lacks a frame of the range, it reports the first such frame and the count below it. This
  holds for frame numbers up to \<open>2 ^ 60\<close>, where the byte offset does not wrap.\<close>

theorem free_fc_counts:
  assumes "kpagecount_file P = Some c" and "serves c ent" and "pfnEnd \<le> 2 ^ 60"
  shows "((\<forall>k\<in>{unat pfnBegin..<unat pfnEnd}. ent k \<noteq> None) \<longrightarrow>
      free_fc P pfnBegin pfnEnd = Fc_count (int (card {k \<in> {unat pfnBegin..<unat pfnEnd}. ent k = Some 0}))) \<and>
    (\<forall>m\<in>{unat pfnBegin..<unat pfnEnd}. ent m = None \<and> (\<forall>k\<in>{unat pfnBegin..<m}. ent k \<noteq> None) \<longrightarrow>
      free_fc P pfnBegin pfnEnd = Fc_invalid (word_of_nat m) (int (card {k \<in> {unat pfnBegin..<m}. ent k = Some 0})))"
proof -
  let ?b = "unat pfnBegin" and ?e = "unat pfnEnd"
  have "?e \<le> 2 ^ 60" using assms(3) by (simp add: word_le_nat_alt)
  then have bound: "\<forall>k\<in>set [?b..<?e]. k < 2 ^ 60" by simp
  have run: "free_fc P pfnBegin pfnEnd = free_fc_loop (open_fd (Some c)) 0 (map word_of_nat [?b..<?e])"
    using assms(1) by (simp add: free_fc_def for_words_upt)
  have cont: "serves (content (open_fd (Some c))) ent" using assms(2) by simp
  note loop = free_fc_loop_count [OF cont bound, of 0]
  have "free_fc P pfnBegin pfnEnd = Fc_invalid (word_of_nat m) (int (card {k \<in> {?b..<m}. ent k = Some 0}))"
    if m: "m \<in> {?b..<?e}" "ent m = None" "\<forall>k\<in>{?b..<m}. ent k \<noteq> None" for m
  proof -
    have had: "\<forall>k\<in>set [?b..<m]. ent k \<noteq> None" using m(3) by simp
    have split: "[?b..<?e] = [?b..<m] @ m # [Suc m..<?e]" using m(1) by (intro upt_split_at) simp_all
    have "takeWhile (\<lambda>k. ent k \<noteq> None) [?b..<?e] = [?b..<m]"
      and "dropWhile (\<lambda>k. ent k \<noteq> None) [?b..<?e] = m # [Suc m..<?e]"
      unfolding split using while_until [OF had, of m] m(2) by simp_all
    moreover have "\<not> (\<forall>k\<in>set [?b..<?e]. ent k \<noteq> None)" using m(1,2) by auto
    ultimately show ?thesis using loop unfolding run by (simp only: if_False list.sel filter_upt_card) simp
  qed
  then show ?thesis using loop unfolding run by (simp only: filter_upt_card) simp
qed

theorem free_fc_counts_witness:
  "free_fc demo_proc 3 6 = Fc_count 2 \<and> free_fc demo_proc 14 100 = Fc_invalid 16 2"
proof -
  have P: "kpagecount_file demo_proc = Some (entry_file demo_counts)" by (simp add: demo_proc_def)
  have "{k \<in> {3..<6}. demo_counts k = Some 0} = {3, 5}" by (auto simp: demo_counts_def)
  moreover have "{k \<in> {14..<16}. demo_counts k = Some 0} = {14, 15}" by (auto simp: demo_counts_def)
  moreover have "\<forall>k\<in>{3..<6}. demo_counts k \<noteq> None" "\<forall>k\<in>{14..<16}. demo_counts k \<noteq> None"
    "demo_counts 16 = None" by (auto simp: demo_counts_def)
  moreover have "(16 :: nat) \<in> {unat (14 :: u64)..<unat (100 :: u64)}" by simp
  ultimately show ?thesis
    using free_fc_counts [OF P entry_file_serves, of 6 3]
      conjunct2 [OF free_fc_counts [OF P entry_file_serves, of 100 14], THEN bspec, of 16]
    by simp
qed

subsection \<open>Page tables\<close>

lemma card_same_kernel:
  assumes "\<And>x y. f x = f y \<longleftrightarrow> g x = g y"
  shows "card (f ` A) = card (g ` A)"
proof -
  let ?h = "\<lambda>v. g (SOME x. f x = v)"
  have h: "?h (f x) = g x" for x
    using assms someI [of "\<lambda>y. f y = f x" x] by simp
  have "?h ` f ` A = g ` A" unfolding image_image using h by simp
  moreover have "inj_on ?h (f ` A)" using h assms by (auto intro!: inj_onI)
  ultimately show ?thesis using card_image by metis
qed

lemma two_digits: "c < 512 \<Longrightarrow> c' < 512 \<Longrightarrow> 512 * q + c = 512 * q' + c' \<longleftrightarrow> q = q' \<and> c = c'" for c :: nat
proof (rule iffI)
  assume b: "c < 512" "c' < 512" and eq: "512 * q + c = 512 * q' + c'"
  have "(512 * q + c) div 512 = q" "(512 * q + c) mod 512 = c" "(512 * q' + c') div 512 = q'" "(512 * q' + c') mod 512 = c'"
    using b by simp_all
  then show "q = q' \<and> c = c'" unfolding eq by simp
qed simp

lemma same_digits:
  fixes a b c a' b' c' :: nat
  assumes "a < 512" "b < 512" "c < 512" "a' < 512" "b' < 512" "c' < 512"
  shows "512 * a + 262144 * b + c = 512 * a' + 262144 * b' + c' \<longleftrightarrow> a = a' \<and> b = b' \<and> c = c'"
  using two_digits [OF assms(3,6), of "512 * b + a" "512 * b' + a'"] two_digits [OF assms(1,4), of b b']
  by (simp add: algebra_simps) blast

lemma prefix_digits:
  "n div 2 ^ 18 mod 2 ^ 18 = 2 ^ 9 * (n div 2 ^ 27 mod 2 ^ 9) + n div 2 ^ 18 mod 2 ^ 9"
  "n div 2 ^ 9 mod 2 ^ 27 = 2 ^ 18 * (n div 2 ^ 27 mod 2 ^ 9) + 2 ^ 9 * (n div 2 ^ 18 mod 2 ^ 9) + n div 2 ^ 9 mod 2 ^ 9"
  for n :: nat
  using mod_mult2_eq [of "n div 2 ^ 18" "2 ^ 9" "2 ^ 9"] mod_mult2_eq [of "n div 2 ^ 9" "2 ^ 9" "2 ^ 18"]
    mod_mult2_eq [of "n div 2 ^ 18" "2 ^ 9" "2 ^ 9"]
  by (simp_all add: div_mult2_eq [symmetric])

lemma slot_kernels:
  "ptIndex i = ptIndex j \<longleftrightarrow> unat i div 2 ^ 27 mod 2 ^ 9 = unat j div 2 ^ 27 mod 2 ^ 9"
  "level3_slot i = level3_slot j \<longleftrightarrow> unat i div 2 ^ 18 mod 2 ^ 18 = unat j div 2 ^ 18 mod 2 ^ 18"
  "level4_slot i = level4_slot j \<longleftrightarrow> unat i div 2 ^ 9 mod 2 ^ 27 = unat j div 2 ^ 9 mod 2 ^ 27"
proof -
  show "ptIndex i = ptIndex j \<longleftrightarrow> unat i div 2 ^ 27 mod 2 ^ 9 = unat j div 2 ^ 27 mod 2 ^ 9"
    by (simp only: word_unat_eq_iff index_values)
  show "level3_slot i = level3_slot j \<longleftrightarrow> unat i div 2 ^ 18 mod 2 ^ 18 = unat j div 2 ^ 18 mod 2 ^ 18"
    by (simp only: word_unat_eq_iff slot_values prefix_digits index_values)
  have small: "unat (ptIndex k) < 512" "unat (pdIndex k) < 512" "unat (pdptIndex k) < 512" for k
    by (simp_all add: index_values)
  have pow: "(2 :: nat) ^ 9 = 512" "(2 :: nat) ^ 18 = 262144" by simp_all
  have "level4_slot i = level4_slot j \<longleftrightarrow>
      ptIndex i = ptIndex j \<and> pdIndex i = pdIndex j \<and> pdptIndex i = pdptIndex j"
    unfolding word_unat_eq_iff slot_values pow by (rule same_digits) (fact small)+
  moreover have "unat i div 2 ^ 9 mod 2 ^ 27 = unat j div 2 ^ 9 mod 2 ^ 27 \<longleftrightarrow>
      pdIndex i = pdIndex j \<and> ptIndex i = ptIndex j \<and> pdptIndex i = pdptIndex j"
    unfolding prefix_digits(2) index_values [symmetric] word_unat_eq_iff
    unfolding pow
    unfolding add.commute [of "262144 * _"] by (rule same_digits) (fact small)+
  ultimately show "level4_slot i = level4_slot j \<longleftrightarrow> unat i div 2 ^ 9 mod 2 ^ 27 = unat j div 2 ^ 9 mod 2 ^ 27"
    by blast
qed

text \<open>C33: the array indexes of \<open>all_table_size\<close> stay inside the arrays of 512, 512 * 512 and
  512 * 512 * 512 bytes, and two pages share an entry exactly when their numbers agree above the
  bits the table covers: the odd index of the last array, with the second index above the first,
  mixes up no pages.\<close>

theorem table_slots_in_bounds:
  "unat (ptIndex i) < 512 \<and> unat (level3_slot i) < 512 * 512 \<and> unat (level4_slot i) < 512 * 512 * 512 \<and>
   (ptIndex i = ptIndex j) = (unat i div 2 ^ 27 mod 2 ^ 9 = unat j div 2 ^ 27 mod 2 ^ 9) \<and>
   (level3_slot i = level3_slot j) = (unat i div 2 ^ 18 mod 2 ^ 18 = unat j div 2 ^ 18 mod 2 ^ 18) \<and>
   (level4_slot i = level4_slot j) = (unat i div 2 ^ 9 mod 2 ^ 27 = unat j div 2 ^ 9 mod 2 ^ 27)"
proof -
  have "unat (ptIndex i) < 512" "unat (pdIndex i) < 512" "unat (pdptIndex i) < 512"
    by (simp_all add: index_values)
  then show ?thesis using slot_kernels by (simp add: slot_values)
qed

lemma touch_lines:
  "fold touch_line ls t = fold touch_page (map word_of_nat (concat (map (pages_of \<circ> line_interval) ls))) t"
proof (induction ls arbitrary: t)
  case (Cons l ls)
  have "touch_line l t = fold touch_page (map word_of_nat (pages_of (line_interval l))) t" for t
    by (simp add: touch_line_def line_interval_def two_of_def for_words_pages Let_def)
  then show ?case by (simp add: Cons.IH)
qed simp

text \<open>C34: the page tables counted are those that the pages of the process need: one last-level
  table for every 512 pages' block in use, one for every 512 of these blocks, and so on, plus
  the root; each takes 4 KB.\<close>

theorem all_table_size_counts:
  assumes "maps_file P pid = Some maps"
  shows "\<exists>n2 n3 n4. all_table_size P pid = Ts_size (4 * (1 + n2 + n3 + n4)) (1 + n2 + n3 + n4) (1, n2, n3, n4) \<and>
    (let pages = set (concat (map (pages_of \<circ> line_interval) (fgets_lines 356 maps)))
     in n4 = int (card ((\<lambda>k. k div 2 ^ 9 mod 2 ^ 27) ` pages)) \<and>
        n3 = int (card ((\<lambda>k. k div 2 ^ 18 mod 2 ^ 18) ` pages)) \<and>
        n2 = int (card ((\<lambda>k. k div 2 ^ 27 mod 2 ^ 9) ` pages)))"
proof -
  let ?ks = "concat (map (pages_of \<circ> line_interval) (fgets_lines 356 maps))"
  let ?ps = "map word_of_nat ?ks :: u64 list"
  let ?t = "fold touch_page ?ps no_tables"
  have again: "unat (word_of_nat k :: u64) = k" if "k \<in> set ?ks" for k
  proof (rule unat_word_of_nat)
    show "k < 2 ^ 64" using that by (auto dest: page_below)
  qed
  have pre: "(\<lambda>i. f (unat i)) ` set ?ps = f ` set ?ks" for f :: "nat \<Rightarrow> nat"
    unfolding list.set_map image_image by (rule image_cong) (simp_all only: again)
  have "level2Count ?t = int (card (ptIndex ` set ?ps))" "level3Count ?t = int (card (level3_slot ` set ?ps))"
    "level4Count ?t = int (card (level4_slot ` set ?ps))"
    unfolding lv2.num_fold lv3.num_fold lv4.num_fold by (simp_all add: no_tables_def)
  from this [unfolded card_same_kernel [OF slot_kernels(1)] card_same_kernel [OF slot_kernels(2)]
      card_same_kernel [OF slot_kernels(3)]
      pre [of "\<lambda>n. n div 2 ^ 27 mod 2 ^ 9"] pre [of "\<lambda>n. n div 2 ^ 18 mod 2 ^ 18"]
      pre [of "\<lambda>n. n div 2 ^ 9 mod 2 ^ 27"]]
  show ?thesis
    using assms unfolding all_table_size_def Let_def by (simp add: touch_lines push_bit_eq_mult del: set_concat set_map)
qed

lemma demo_lines:
  "fgets_lines 356 demo_maps =
     [''5000-8000 r-xp 00000000 08:02 17 /bin/a'' @ [CHR 0x0A],
      ''200000-201000 rw-p 00000000 00:00 0 [heap]'' @ [CHR 0x0A],
      ''ffffffffff600000-ffffffffff601000 --xp 00000000 00:00 0 [vsyscall]'' @ [CHR 0x0A]]"
  by code_simp

lemma demo_intervals:
  "map line_interval (fgets_lines 356 demo_maps)
     = [(0x5000, 0x8000), (0x200000, 0x201000), (0xffffffffff600000, 0xffffffffff601000)]"
  unfolding demo_lines by code_simp

lemma demo_pages:
  "concat (map (pages_of \<circ> line_interval) (fgets_lines 356 demo_maps)) = [5, 6, 7, 0x200, 0xffffffffff600]"
  unfolding map_map [symmetric] demo_intervals by (simp add: pages_of_def upt_conv_Cons)

theorem all_table_size_counts_witness:
  "all_table_size demo_proc 1 = Ts_size 32 8 (1, 2, 2, 3)"
proof -
  have "maps_file demo_proc 1 = Some demo_maps" by (simp add: demo_proc_def)
  from all_table_size_counts [OF this, unfolded demo_pages]
  show ?thesis by (auto simp: Let_def insert_commute card_insert_if)
qed

subsection \<open>Translations\<close>

lemma top_bit: "e AND push_bit 63 1 \<noteq> 0 \<longleftrightarrow> bit e 63" for e :: u64
  using and_exp_eq_0_iff_not_bit [of e 63] by (simp add: push_bit_of_1)

lemma low_bits: "e AND (push_bit 55 1 - 1) = take_bit 55 e" "e AND 0x7FFFFFFFFFFFFF = take_bit 55 e" for e :: u64
  by (simp_all add: take_bit_eq_mask mask_eq_exp_minus_1 push_bit_of_1)

text \<open>What the entry of a page says.\<close>

definition translate :: "u64 \<Rightarrow> va_output" where
  "translate e = (if bit e 63 then Frame (take_bit 55 e) else Not_in_memory)"

text \<open>C35: \<open>-mapva\<close> seeks to the page number instead of 8 times the page number. For a page number
  that is a multiple of 8 it prints the translation of the page with an eighth of that number,
  for every other one it prints a word it never read.\<close>

theorem map_va_reads_another_entry:
  assumes "pagemap_file P pid = Some c" and "serves c ent" and "refuses_unaligned c"
  shows "map_va P junk pid va =
    translate (if unat va div 4096 mod 8 = 0
               then (case ent (unat va div 4096 div 8) of Some e \<Rightarrow> e | None \<Rightarrow> junk) else junk)"
proof -
  let ?n = "unat va div 4096"
  have vpn: "unat (drop_bit 12 va) = ?n" by (simp add: unat_drop_bit_div)
  have "drop_bit 12 va < (2 ^ 63 :: u64)" using drop_12_less [of va] by (simp add: word_less_nat_alt)
  from pos_seek [OF this] have "pos (seek (open_fd (Some c)) (drop_bit 12 va)) = int ?n"
    unfolding vpn [symmetric] by simp
  then have r: "fst (read64 (seek (open_fd (Some c)) (drop_bit 12 va))) = c (int ?n)"
    using read64_cases [of "seek (open_fd (Some c)) (drop_bit 12 va)"] by (metis content_open_fd content_seek prod.collapse)
  have "c (int ?n) = (if ?n mod 8 = 0 then (case ent (?n div 8) of Some e \<Rightarrow> Got e | None \<Rightarrow> Eof) else Failed)"
  proof (cases "?n mod 8 = 0")
    case True
    then have "8 * (?n div 8) = ?n" using mult_div_mod_eq [of 8 ?n] by linarith
    then have "8 * int (?n div 8) = int ?n" by linarith
    then show ?thesis using assms(2) True unfolding serves_def by metis
  next
    case False
    then have "int ?n mod 8 \<noteq> 0" by (metis of_nat_eq_0_iff of_nat_mod of_nat_numeral)
    then show ?thesis using assms(3) False by (simp add: refuses_unaligned_def)
  qed
  then show ?thesis
    using assms(1) r unfolding map_va_def Let_def top_bit low_bits translate_def
    by (auto simp: got_or_def split: option.splits)
qed

theorem map_va_reads_another_entry_witness:
  "map_va demo_proc 0 1 0x8000 = Frame 0x77 \<and> demo_pagemap 8 = Some 0"
proof -
  have "pagemap_file demo_proc 1 = Some (entry_file demo_pagemap)" by (simp add: demo_proc_def)
  from map_va_reads_another_entry [OF this entry_file_serves entry_file_unaligned, of 0 "0x8000"]
  show ?thesis by (simp add: translate_def demo_pagemap_def bit_iff_odd take_bit_eq_mod)
qed

text \<open>What \<open>map\<close> prints for the pages of one interval.\<close>

definition page_lines :: "int \<Rightarrow> (nat \<Rightarrow> u64 option) \<Rightarrow> nat \<Rightarrow> map_line list" where
  "page_lines inMem ent k =
     (case ent k of None \<Rightarrow> []
      | Some e \<Rightarrow> if bit e 63 then [Page_frame (word_of_nat k) (take_bit 55 e)]
                  else if inMem = 0 then [Page_not_in_memory (word_of_nat k)] else [])"

definition interval_lines :: "int \<Rightarrow> (nat \<Rightarrow> u64 option) \<Rightarrow> nat list \<Rightarrow> map_line list" where
  "interval_lines inMem ent ks =
     concat (map (page_lines inMem ent) (takeWhile (\<lambda>k. ent k \<noteq> None) ks)) @
     (if \<forall>k\<in>set ks. ent k \<noteq> None then [] else [End_of_pagemap])"

lemma aligned_div: "4096 dvd unat a \<Longrightarrow> a = word_of_nat (unat a div 4096) * (4096 :: u64)"
proof -
  assume "4096 dvd unat a"
  then have "unat a = unat a div 4096 * 4096" by simp
  then have "word_of_nat (unat a) = (word_of_nat (unat a div 4096 * 4096) :: u64)" by (rule arg_cong)
  then show ?thesis by (simp only: of_nat_mult of_nat_numeral of_nat_unat ucast_id)
qed

lemma map_pages_listing:
  assumes "serves (content fd) ent" and "m < 2 ^ 52" and "n < 2 ^ 52" and "va1 = word_of_nat m * 4096" and "va2 = word_of_nat n * 4096"
  shows "\<exists>fd'. content fd' = content fd \<and>
    map_pages 4096 inMem va2 out fd va1 = Some (out @ interval_lines inMem ent [m..<n], fd', True)"
  using assms
proof (induction "n - m" arbitrary: m va1 fd out)
  case 0
  have "unat va1 = m * 4096" "unat va2 = n * 4096"
    using 0(3,4) unfolding 0(5,6) by (simp_all add: unat_word_ariths unat_word_of_nat)
  then have "\<not> va1 < va2" using 0(1) by (simp add: word_less_nat_alt)
  then show ?case using 0(1) by (subst map_pages.simps) (auto simp: interval_lines_def)
next
  case (Suc d)
  have m: "m < n" "m < 2 ^ 52" using Suc.hyps(2) Suc.prems(3) by simp_all
  have u: "unat va1 = m * 4096" "unat va2 = n * 4096"
    using m Suc.prems(3) unfolding Suc.prems(4,5) by (simp_all add: unat_word_ariths unat_word_of_nat)
  have lt: "va1 < va2" using u m by (simp add: word_less_nat_alt)
  have q: "unat (va1 div 4096) = m" "va1 div 4096 = word_of_nat m"
    using u m by (simp_all add: unat_div word_unat_eq_iff unat_word_of_nat)
  have small: "unat (va1 div 4096) < 2 ^ 60" using m q by simp
  then have sk: "lseek fd (va1 div 4096 * 8) = Some (seek fd (va1 div 4096 * 8))"
    using times_8_less [OF small] by (simp add: seek_def lseek_def linorder_not_le [symmetric])
  obtain r g where r: "read64 (seek fd (va1 div 4096 * 8)) = (r, g)" by force
  have rg: "content g = content fd" "r = (case ent m of Some v \<Rightarrow> Got v | None \<Rightarrow> Eof)"
    using read_entry [OF small Suc.prems(1) r] q(1) by simp_all
  have ks: "[m..<n] = m # [Suc m..<n]" using m by (simp add: upt_conv_Cons)
  show ?case
  proof (cases "ent m")
    case None
    then show ?thesis using lt sk r rg by (subst map_pages.simps) (simp add: interval_lines_def ks)
  next
    case (Some e)
    have il: "interval_lines inMem ent [m..<n] = page_lines inMem ent m @ interval_lines inMem ent [Suc m..<n]"
      using Some by (simp add: interval_lines_def ks)
    let ?out = "out @ page_lines inMem ent m"
    have next_page: "va1 + 4096 = word_of_nat (Suc m) * 4096" using Suc.prems(4) by (simp add: algebra_simps)
    obtain fd' where "content fd' = content fd"
      "map_pages 4096 inMem va2 ?out g (va1 + 4096) = Some (?out @ interval_lines inMem ent [Suc m..<n], fd', True)"
    proof -
      have "d = n - Suc m" using Suc.hyps(2) by simp
      with Suc.hyps(1) [OF this _ _ Suc.prems(3) next_page Suc.prems(5), of g ?out] that
      show thesis using Suc.prems(1,3) rg(1) m by auto
    qed
    moreover have "map_pages 4096 inMem va2 out fd va1 = map_pages 4096 inMem va2 ?out g (va1 + 4096)"
      using lt sk r rg(2) Some unfolding map_pages.simps [of 4096 inMem va2 out fd va1]
      by (simp add: page_lines_def top_bit [simplified] low_bits [simplified] q(2) push_bit_of_1)
    ultimately show ?thesis unfolding il by (intro exI [of _ fd']) simp
  qed
qed

definition two_numbers :: "string \<Rightarrow> bool" where
  "two_numbers l \<longleftrightarrow> length (sscanf [Conv_lx, Lit CHR ''-'', Conv_lx] l) = 2"

definition page_aligned :: "string \<Rightarrow> bool" where
  "page_aligned l \<longleftrightarrow> 4096 dvd unat (fst (line_interval l)) \<and> 4096 dvd unat (snd (line_interval l))"

lemma map_lines_listing:
  assumes "serves (content fd) ent" and "list_all page_aligned (filter two_numbers ls)"
  shows "map_lines 4096 inMem out fd ls =
    Some (out @ concat (map (interval_lines inMem ent \<circ> pages_of \<circ> line_interval) (filter two_numbers ls)))"
  using assms
proof (induction ls arbitrary: out fd)
  case (Cons l ls)
  show ?case
  proof (cases "two_numbers l")
    case True
    let ?a = "fst (line_interval l)" and ?b = "snd (line_interval l)"
    have al: "4096 dvd unat ?a" "4096 dvd unat ?b" using Cons.prems(2) True by (simp_all add: page_aligned_def)
    have lt: "unat v div 4096 < 2 ^ 52" for v :: u64
      using drop_12_less [of v] by (simp add: unat_drop_bit_div)
    obtain fd' where fd': "content fd' = content fd"
      "map_pages 4096 inMem ?b out fd ?a = Some (out @ interval_lines inMem ent (pages_of (?a, ?b)), fd', True)"
      using map_pages_listing [OF Cons.prems(1) lt lt aligned_div [OF al(1)] aligned_div [OF al(2)], of inMem out]
      unfolding pages_of_def fst_conv snd_conv by blast
    have "map_lines 4096 inMem out fd (l # ls)
        = map_lines 4096 inMem (out @ interval_lines inMem ent (pages_of (?a, ?b))) fd' ls"
      using True fd'(2) by (simp add: two_numbers_def line_interval_def two_of_def Let_def)
    also have "\<dots> = Some ((out @ interval_lines inMem ent (pages_of (?a, ?b))) @
        concat (map (interval_lines inMem ent \<circ> pages_of \<circ> line_interval) (filter two_numbers ls)))"
      by (rule Cons.IH) (use Cons.prems True fd'(1) in simp_all)
    finally show ?thesis using True by (simp add: comp_def)
  next
    case False
    then show ?thesis using Cons by (simp add: two_numbers_def Let_def)
  qed
qed simp

lemma in_memory_lines:
  "filter (\<lambda>r. case r of Page_not_in_memory _ \<Rightarrow> False | _ \<Rightarrow> True) (interval_lines 0 ent ks) = interval_lines 1 ent ks"
  by (auto simp: interval_lines_def filter_concat comp_def page_lines_def intro!: arg_cong [where f = concat] map_cong split: option.splits)

text \<open>C36: for an address space of whole pages, \<open>-mapall\<close> ends and prints, interval by interval, the
  frame or \<open>not-in-memory\<close> for every page up to the first that the pagemap does not have;
  \<open>-mapallin\<close> prints the same lines but for those that say \<open>not-in-memory\<close>.\<close>

theorem map_all_lists_pages:
  assumes "maps_file P pid = Some maps" and "pagemap_file P pid = Some c" and "serves c ent"
    and "list_all page_aligned (filter two_numbers (fgets_lines 1000 maps))"
  shows "\<exists>out. out = concat (map (interval_lines 0 ent \<circ> pages_of \<circ> line_interval)
        (filter two_numbers (fgets_lines 1000 maps))) \<and>
      map_all 4096 P pid = Some (Mapped out) \<and>
      map_all_in 4096 P pid =
        Some (Mapped (filter (\<lambda>r. case r of Page_not_in_memory _ \<Rightarrow> False | _ \<Rightarrow> True) out))"
proof -
  have "serves (content (open_fd (Some c))) ent" using assms(3) by simp
  note listing = map_lines_listing [OF this assms(4)]
  show ?thesis
    using assms(1,2) unfolding map_all_def map_all_in_def map_c_def
    by (simp add: listing filter_concat comp_def in_memory_lines)
qed

lemma demo_lines_1000: "fgets_lines 1000 demo_maps = fgets_lines 356 demo_maps"
  unfolding demo_lines by code_simp

theorem map_all_lists_pages_witness:
  "map_all 4096 demo_proc 1 = Some (Mapped [Page_frame 5 4, Page_frame 6 9, Page_not_in_memory 7,
      Page_frame 0x200 9, End_of_pagemap]) \<and>
   map_all_in 4096 demo_proc 1 = Some (Mapped [Page_frame 5 4, Page_frame 6 9, Page_frame 0x200 9, End_of_pagemap])"
proof -
  let ?ls = "fgets_lines 1000 demo_maps"
  have two: "filter two_numbers ?ls = ?ls" unfolding demo_lines_1000 demo_lines by code_simp
  have al: "list_all page_aligned (filter two_numbers ?ls)"
    unfolding two using demo_intervals unfolding demo_lines_1000 demo_lines by (simp add: page_aligned_def)
  have P: "maps_file demo_proc 1 = Some demo_maps" "pagemap_file demo_proc 1 = Some (entry_file demo_pagemap)"
    by (simp_all add: demo_proc_def)
  have ks: "map (pages_of \<circ> line_interval) ?ls = [[5, 6, 7], [0x200], [0xffffffffff600]]"
    unfolding demo_lines_1000 map_map [symmetric] demo_intervals by (simp add: pages_of_def upt_conv_Cons)
  have "map (interval_lines 0 demo_pagemap \<circ> pages_of \<circ> line_interval) ?ls =
      map (interval_lines 0 demo_pagemap) [[5, 6, 7], [0x200], [0xffffffffff600]]"
    unfolding ks [symmetric] by simp
  then show ?thesis
    using map_all_lists_pages [OF P entry_file_serves al] unfolding two
    by (simp add: interval_lines_def page_lines_def demo_pagemap_def bit_iff_odd take_bit_eq_mod)
qed

subsection \<open>Memory in use\<close>

definition line_area :: "string \<Rightarrow> u64 \<times> u64" where
  "line_area l = two_of (sscanf maps_format l)"

text \<open>The map count of the frame in which a page is, and the number of pages with a property of it.\<close>

definition frame_count :: "(nat \<Rightarrow> u64 option) \<Rightarrow> (nat \<Rightarrow> u64 option) \<Rightarrow> nat \<Rightarrow> u64 option" where
  "frame_count ent cnt k =
     (case ent k of Some e \<Rightarrow> if bit e 63 then cnt (unat (take_bit 55 e)) else None | None \<Rightarrow> None)"

definition resident :: "(u64 \<Rightarrow> bool) \<Rightarrow> (nat \<Rightarrow> u64 option) \<Rightarrow> (nat \<Rightarrow> u64 option) \<Rightarrow> nat \<Rightarrow> bool" where
  "resident Q ent cnt k = (case frame_count ent cnt k of Some v \<Rightarrow> Q v | None \<Rightarrow> False)"

definition countable_page :: "(nat \<Rightarrow> u64 option) \<Rightarrow> (nat \<Rightarrow> u64 option) \<Rightarrow> nat \<Rightarrow> bool" where
  "countable_page ent cnt k =
     (case ent k of Some e \<Rightarrow> bit e 63 \<longrightarrow> cnt (unat (take_bit 55 e)) \<noteq> None | None \<Rightarrow> True)"

lemma top_bit_shift: "drop_bit 63 e AND 1 = 0 \<longleftrightarrow> \<not> bit e 63" for e :: u64
  by (simp add: and_one_eq even_drop_bit_iff_not_bit mod2_eq_if)

lemma take_55_small: "unat (take_bit 55 e :: u64) < 2 ^ 60"
  using take_bit_nat_less_exp [of 55 "unat e"] unfolding unsigned_take_bit_eq by (rule less_le_trans) simp

lemma last_page: "4096 dvd unat b \<Longrightarrow> unat b div 4096 = k \<Longrightarrow> b - push_bit 12 (word_of_nat k) = (0 :: u64)"
  using aligned_div [of b] by (simp add: push_bit_eq_mult)

lemma page_eq_last: "k < 2 ^ 53 \<Longrightarrow> word_of_nat k = drop_bit 12 (b :: u64) \<longleftrightarrow> k = unat b div 4096"
  by (simp add: word_unat_eq_iff unat_word_of_nat unat_drop_bit_div del: word_of_nat_eq_iff)

abbreviation pages_with where
  "pages_with Q ent cnt b ks \<equiv> length (filter (\<lambda>k. resident Q ent cnt k \<and> k \<noteq> unat (b :: u64) div 4096) ks)"

lemma pages_used_sums:
  assumes "serves (content pm) ent" and "serves (content kpc) cnt" and "4096 dvd unat b"
    and "\<forall>k\<in>set ks. k < 2 ^ 53 \<and> countable_page ent cnt k"
  shows "pages_used pm kpc b (map word_of_nat ks) (t, a) =
    Some (t + word_of_nat (4096 * pages_with (\<lambda>v. 1 \<le> sint v) ent cnt b ks),
          a + word_of_nat (4096 * pages_with (\<lambda>v. v = 1) ent cnt b ks))"
  using assms
proof (induction ks arbitrary: pm kpc t a)
  case (Cons k ks)
  have k: "k < 2 ^ 53" "countable_page ent cnt k" using Cons.prems(4) by simp_all
  have u: "unat (word_of_nat k :: u64) = k" using k by (simp add: unat_word_of_nat)
  obtain r pm' where r: "read64 (seek pm (word_of_nat k * 8)) = (r, pm')" by force
  have r1: "content pm' = content pm" "r = (case ent k of Some v \<Rightarrow> Got v | None \<Rightarrow> Eof)"
    using read_entry [OF _ Cons.prems(1) r] u k by simp_all
  have IH: "pages_used pm' kpc' b (map word_of_nat ks) (t', a') =
    Some (t' + word_of_nat (4096 * pages_with (\<lambda>v. 1 \<le> sint v) ent cnt b ks),
          a' + word_of_nat (4096 * pages_with (\<lambda>v. v = 1) ent cnt b ks))"
    if "content kpc' = content kpc" for kpc' t' a'
    using Cons.IH [of pm' kpc' t' a'] Cons.prems r1(1) that by simp
  show ?case
  proof (cases "\<exists>e. ent k = Some e \<and> bit e 63")
    case False
    then have "\<not> resident Q ent cnt k" for Q by (auto simp: resident_def frame_count_def split: option.splits)
    then show ?thesis
      using False r r1 IH [OF refl] by (cases "ent k") (simp_all add: push_bit_3 top_bit_shift)
  next
    case True
    then obtain e v where e: "ent k = Some e" "bit e 63" "cnt (unat (take_bit 55 e)) = Some v"
      using k(2) by (auto simp: countable_page_def)
    obtain s kpc' where s: "read64 (seek kpc (take_bit 55 e * 8)) = (s, kpc')" by force
    have s1: "content kpc' = content kpc" "s = Got v"
      using read_entry [OF take_55_small Cons.prems(2) s] e by simp_all
    have res: "resident Q ent cnt k = Q v" for Q using e by (simp add: resident_def frame_count_def)
    show ?thesis
    proof (cases "k = unat b div 4096")
      case True
      then show ?thesis
        using r r1 e s s1 IH [OF s1(1)] k last_page [OF Cons.prems(3)]
        by (simp add: push_bit_3 top_bit_shift low_bits page_eq_last)
    next
      case False
      then show ?thesis
        using r r1 e s s1 IH [OF s1(1)] k res
        by (simp add: push_bit_3 top_bit_shift low_bits page_eq_last)
    qed
  qed
qed simp

lemma area_words:
  "for_words (drop_bit 12 a) (drop_bit 12 b + 1) = map word_of_nat [unat a div 4096..<unat b div 4096 + 1]"
proof -
  have "unat (drop_bit 12 b + 1) = unat b div 4096 + 1"
    using drop_12_less [of b] by (simp add: unat_word_ariths unat_drop_bit_div)
  then show ?thesis by (simp add: for_words_upt unat_drop_bit_div)
qed

lemma area_pages:
  "filter (\<lambda>k. R k \<and> k \<noteq> unat (snd ab) div 4096) [unat (fst ab) div 4096..<unat (snd ab) div 4096 + 1]
     = filter R (pages_of ab)"
  by (auto simp: pages_of_def intro!: filter_cong)

definition areas_ok :: "(nat \<Rightarrow> u64 option) \<Rightarrow> (nat \<Rightarrow> u64 option) \<Rightarrow> string \<Rightarrow> bool" where
  "areas_ok ent cnt l \<longleftrightarrow> fst (line_area l) \<le> snd (line_area l) \<and>
     4096 dvd unat (fst (line_area l)) \<and> 4096 dvd unat (snd (line_area l)) \<and>
     list_all (countable_page ent cnt) [unat (fst (line_area l)) div 4096..<unat (snd (line_area l)) div 4096 + 1]"

lemma physical_sums:
  assumes "serves (content pm) ent" and "serves (content kpc) cnt" and "list_all (areas_ok ent cnt) ls"
  shows "physical_used pm kpc ls (t, a) =
    Some (t + word_of_nat (4096 * length (filter (resident (\<lambda>v. 1 \<le> sint v) ent cnt) (concat (map (pages_of \<circ> line_area) ls)))),
          a + word_of_nat (4096 * length (filter (resident (\<lambda>v. v = 1) ent cnt) (concat (map (pages_of \<circ> line_area) ls)))))"
  using assms
proof (induction ls arbitrary: t a)
  case (Cons l ls)
  let ?a = "fst (line_area l)" and ?b = "snd (line_area l)"
  let ?ks = "[unat ?a div 4096..<unat ?b div 4096 + 1]"
  have "k < 2 ^ 53" if "k \<in> set ?ks" for k
    using that drop_12_less [of ?b] unfolding unat_drop_bit_div by auto
  then have small: "\<forall>k\<in>set ?ks. k < 2 ^ 53 \<and> countable_page ent cnt k"
    using Cons.prems(3) by (auto simp: areas_ok_def list_all_iff)
  have al: "4096 dvd unat ?b" using Cons.prems(3) by (simp add: areas_ok_def)
  note here = pages_used_sums [OF Cons.prems(1,2) al small, unfolded area_pages]
  have area: "hex_at (sscanf maps_format l) 0 = ?a" "hex_at (sscanf maps_format l) 1 = ?b"
    by (simp_all add: line_area_def two_of_def)
  show ?case
    unfolding physical_used.simps Let_def area area_words here option.simps
    using Cons by (simp add: algebra_simps)
qed simp

lemma virtual_sum:
  assumes "list_all (areas_ok ent cnt) ls"
    and "\<forall>l\<in>set (butlast ls). \<forall>k. strcmp (scanned_path (junk k) (sscanf maps_format l)) ''[vsyscall]'' \<noteq> 0"
  shows "virtual_used junk k ls acc = acc + word_of_nat (4 * length (concat (map (pages_of \<circ> line_area) ls)))"
  using assms
proof (induction ls arbitrary: k acc)
  case (Cons l ls)
  let ?a = "fst (line_area l)" and ?b = "snd (line_area l)"
  have al: "4096 dvd unat ?a" "4096 dvd unat ?b" "?a \<le> ?b" using Cons.prems(1) by (simp_all add: areas_ok_def)
  have "drop_bit 10 (?b - ?a) = word_of_nat (4 * length (pages_of (line_area l)))"
  proof -
    obtain m n where mn: "unat ?a = 4096 * m" "unat ?b = 4096 * n" using al by (auto elim!: dvdE)
    have "m \<le> n" using al(3) mn by (simp add: word_le_nat_alt)
    have "4096 * n < 2 ^ 64" using unsigned_less [of ?b, where ?'a = nat] mn by simp
    have "unat (drop_bit 10 (?b - ?a)) = (4096 * n - 4096 * m) div 1024"
      using al(3) mn unat_sub [OF al(3)] by (simp add: unat_drop_bit_div)
    also have "\<dots> = 4 * (n - m)"
    proof -
      have "4096 * n - 4096 * m = 1024 * (4 * (n - m))" using \<open>m \<le> n\<close> by (simp add: algebra_simps)
      then show ?thesis by (simp only: nonzero_mult_div_cancel_left)
    qed
    finally show ?thesis
      using mn \<open>4096 * n < 2 ^ 64\<close> unat_word_of_nat [of "4 * (n - m)"]
      by (simp add: word_unat_eq_iff pages_of_def del: of_nat_mult)
  qed
  then have kb: "drop_bit 10 (hex_at (sscanf maps_format l) 1 - hex_at (sscanf maps_format l) 0)
      = word_of_nat (4 * length (pages_of (line_area l)))"
    by (simp add: line_area_def two_of_def)
  show ?case
  proof (cases ls)
    case Nil
    then show ?thesis using kb by (simp add: Let_def)
  next
    case (Cons l' ls')
    then have more: "ls \<noteq> []" and go: "strcmp (scanned_path (junk k) (sscanf maps_format l)) ''[vsyscall]'' \<noteq> 0"
      using Cons.prems(2) by simp_all
    have rest: "virtual_used junk (Suc k) ls acc' =
        acc' + word_of_nat (4 * length (concat (map (pages_of \<circ> line_area) ls)))" for acc'
      using Cons.prems more by (intro Cons.IH) simp_all
    show ?thesis
      unfolding virtual_used.simps Let_def kb using go by (simp add: rest algebra_simps comp_def)
  qed
qed simp

lemma kilobytes: "n < 2 ^ 52 \<Longrightarrow> drop_bit 10 (word_of_nat (4096 * n) :: u64) = word_of_nat (4 * n)"
proof -
  assume n: "n < 2 ^ 52"
  have "unat (drop_bit 10 (word_of_nat (4096 * n) :: u64)) = 4096 * n div 1024"
    using n unat_word_of_nat [of "4096 * n"] by (simp add: unat_drop_bit_div del: of_nat_mult)
  also have "\<dots> = 4 * n" by simp
  finally show ?thesis using n unat_word_of_nat [of "4 * n"] by (simp add: word_unat_eq_iff del: of_nat_mult)
qed

text \<open>C37: \<open>-memused\<close> adds 4 KB for every page of the address space to the virtual size, for every page
  whose frame is mapped at least once to \<open>pmem_all\<close>, and for every page whose frame is mapped
  exactly once to \<open>pmem_alone\<close>; the extra page the loop visits after each area adds nothing.
  Needed are areas of whole pages, a count for every frame in use, and that \<open>[vsyscall]\<close>, where
  the first loop stops, is in the last line only.\<close>

theorem mem_used_counts:
  assumes "maps_file P pid = Some maps" and "pagemap_file P pid = Some c" and "kpagecount_file P = Some kc"
    and "serves c ent" and "serves kc cnt" and "list_all (areas_ok ent cnt) (fgets_lines 364 maps)"
    and "\<forall>l\<in>set (butlast (fgets_lines 364 maps)). \<forall>k.
      strcmp (scanned_path (junk k) (sscanf maps_format l)) ''[vsyscall]'' \<noteq> 0"
    and "pages = concat (map (pages_of \<circ> line_area) (fgets_lines 364 maps))" and "length pages < 2 ^ 52"
  shows "mem_used P junk pid = Mu_done (word_of_nat (4 * length pages))
    (word_of_nat (4 * length (filter (resident (\<lambda>v. 1 \<le> sint v) ent cnt) pages)))
    (word_of_nat (4 * length (filter (resident (\<lambda>v. v = 1) ent cnt) pages)))"
proof -
  let ?ls = "fgets_lines 364 maps"
  have c: "serves (content (open_fd (Some c))) ent" "serves (content (open_fd (Some kc))) cnt"
    using assms(4,5) by simp_all
  have small: "length (filter R pages) < 2 ^ 52" for R
    using length_filter_le [of R pages] assms(9) by linarith
  have virt: "virtual_used junk 0 ?ls 0 = word_of_nat (4 * length pages)"
    unfolding virtual_sum [OF assms(6,7)] assms(8) by simp
  have phys: "physical_used (open_fd (Some c)) (open_fd (Some kc)) ?ls (0, 0) =
      Some (word_of_nat (4096 * length (filter (resident (\<lambda>v. 1 \<le> sint v) ent cnt) pages)),
            word_of_nat (4096 * length (filter (resident (\<lambda>v. v = 1) ent cnt) pages)))"
    unfolding physical_sums [OF c assms(6)] assms(8) by (simp only: add_0_left)
  show ?thesis
    using assms(1-3) by (simp add: mem_used_def phys virt kilobytes [OF small] Let_def del: of_nat_mult)
qed

lemma demo_lines_364: "fgets_lines 364 demo_maps = fgets_lines 356 demo_maps"
  unfolding demo_lines by code_simp

lemma demo_areas:
  "map line_area (fgets_lines 364 demo_maps)
     = [(0x5000, 0x8000), (0x200000, 0x201000), (0xffffffffff600000, 0xffffffffff601000)]"
  unfolding demo_lines_364 demo_lines by code_simp

theorem mem_used_counts_witness:
  "mem_used demo_proc (\<lambda>_. []) 1 = Mu_done 20 12 4"
proof -
  let ?ls = "fgets_lines 364 demo_maps"
  have P: "maps_file demo_proc 1 = Some demo_maps" "pagemap_file demo_proc 1 = Some (entry_file demo_pagemap)"
    "kpagecount_file demo_proc = Some (entry_file demo_counts)"
    by (simp_all add: demo_proc_def)
  have ok: "areas_ok demo_pagemap demo_counts l" if "line_area l \<in> {(0x5000, 0x8000), (0x200000, 0x201000),
      (0xffffffffff600000, 0xffffffffff601000)}" for l
    using that by (auto simp: areas_ok_def upt_conv_Cons countable_page_def demo_pagemap_def demo_counts_def take_bit_eq_mod)
  have "line_area ` set ?ls = {(0x5000, 0x8000), (0x200000, 0x201000), (0xffffffffff600000, 0xffffffffff601000)}"
    unfolding list.set_map [symmetric] demo_areas by simp
  then have all: "list_all (areas_ok demo_pagemap demo_counts) ?ls" using ok unfolding list_all_iff by blast
  have "map (\<lambda>l. scanned_path [] (sscanf maps_format l)) (butlast ?ls) = [''/bin/a'', ''[heap]'']"
    unfolding demo_lines_364 demo_lines by code_simp
  then have "scanned_path [] (sscanf maps_format l) \<in> {''/bin/a'', ''[heap]''}" if "l \<in> set (butlast ?ls)" for l
    using that by (metis (no_types, lifting) image_eqI list.set_map list.simps(15) set_empty2 list.set(1))
  then have vs: "\<forall>l\<in>set (butlast ?ls). \<forall>k. strcmp (scanned_path ((\<lambda>_. []) k) (sscanf maps_format l)) ''[vsyscall]'' \<noteq> 0"
    by force
  have pages: "[5, 6, 7, 0x200, 0xffffffffff600] = concat (map (pages_of \<circ> line_area) ?ls)"
    unfolding map_map [symmetric] demo_areas by (simp add: pages_of_def upt_conv_Cons)
  show ?thesis
    using mem_used_counts [OF P entry_file_serves entry_file_serves all vs pages]
    by (simp add: resident_def frame_count_def demo_pagemap_def demo_counts_def take_bit_eq_mod bit_iff_odd)
qed

end
