(* ===== verification/TopK.thy ===== *)
theory TopK
  imports ExchangeSort CString "HOL-Library.Monad_Syntax"
begin

text \<open>
  The word counters of \<open>p1/22002379-22003430\<close>: the word list of \<open>list.c\<close>, \<open>topKFrequent\<close> of
  \<open>topk.c\<close>, and the threads and main program of \<open>threadtopk.c\<close>.

  \<^item> The linked list is the list of its nodes, the dummy head first. Its \<open>next\<close>, which the code
    does not set, is taken to be \<open>NULL\<close>, and its \<open>len\<close>, which no one reads, to be 0.
  \<^item> None stands for a crash: \<open>sort\<close> dereferences \<open>NULL\<close> for a list with no word, and the main
    program reads an uninitialised result for a file that a thread could not open.
  \<^item> The result array of \<open>topKFrequent\<close> is a list; that the code allocates less than it writes is
    stated separately.
\<close>

subsection \<open>list.c\<close>

record node =
  word :: string
  freq :: int
  len :: int

definition dummy_head :: node where
  "dummy_head = \<lparr>word = [], freq = 2 ^ 31 - 1, len = 0\<rparr>"

text \<open>\<open>strcmp\<close> reads its arguments up to the first NUL.\<close>

definition cut :: "string \<Rightarrow> string" where
  "cut s = takeWhile (\<lambda>c. c \<noteq> CHR 0x00) s"

definition compare :: "string \<Rightarrow> string \<Rightarrow> int" where
  "compare s t = strcmp (cut s) (cut t)"

text \<open>\<open>insert\<close>, at the node \<open>cur\<close> with the nodes after it.\<close>

fun insert_word :: "node \<Rightarrow> node list \<Rightarrow> string \<Rightarrow> int \<Rightarrow> int \<Rightarrow> node list" where
  "insert_word cur [] w l f =
     (if compare (word cur) w = 0 then [cur\<lparr>freq := freq cur + f\<rparr>]
      else [cur, \<lparr>word = w, freq = f, len = l\<rparr>])"
| "insert_word cur (nxt # rest) w l f =
     (if compare (word nxt) w = 0 then cur # nxt\<lparr>freq := freq nxt + f\<rparr> # rest
      else cur # insert_word nxt rest w l f)"

definition insert_list :: "node list \<Rightarrow> string \<Rightarrow> int \<Rightarrow> int \<Rightarrow> node list" where
  "insert_list ns w l f = insert_word (hd ns) (tl ns) w l f"

definition swap_nodes :: "node \<Rightarrow> node \<Rightarrow> node \<times> node" where
  "swap_nodes a b = (a\<lparr>freq := freq b, word := word b\<rparr>, b\<lparr>freq := freq a, word := word a\<rparr>)"

definition out_of_order :: "node \<Rightarrow> node \<Rightarrow> bool" where
  "out_of_order cur idx \<longleftrightarrow> freq cur < freq idx \<or> freq cur = freq idx \<and> compare (word cur) (word idx) > 0"

definition sort_list :: "node list \<Rightarrow> node list option" where
  "sort_list ns = (case tl ns of [] \<Rightarrow> None
     | n # rest \<Rightarrow> Some (hd ns # exch_sort out_of_order swap_nodes (n # rest)))"

subsection \<open>topk.c\<close>

type_synonym pair = "string \<times> int"

definition topKFrequent :: "node list \<Rightarrow> int \<Rightarrow> pair list option" where
  "topKFrequent words k =
     do { sorted \<leftarrow> sort_list words;
          Some (map (\<lambda>n. (word n, freq n)) (take (nat k) (tl sorted))) }"

text \<open>The bytes that \<open>malloc(sizeof(pair*) * k)\<close> gives, and those that \<open>n\<close> pairs need.\<close>

definition res_allocated :: "int \<Rightarrow> int" where "res_allocated k = 8 * k"
definition res_written :: "pair list \<Rightarrow> int" where "res_written res = 16 * int (length res)"

subsection \<open>threadtopk.c\<close>

definition uppercase :: "string \<Rightarrow> string" where
  "uppercase str = map (\<lambda>c. if islower c then toupper c else c) str"

definition count_words :: "string \<Rightarrow> node list" where
  "count_words txt =
     fold (\<lambda>tkn ns. insert_list ns (uppercase tkn) (int (length tkn)) 1) (strtok_all txt) [dummy_head]"

definition worker :: "(string \<Rightarrow> string option) \<Rightarrow> int \<Rightarrow> string \<Rightarrow> pair list option" where
  "worker files K fileName =
     do { txt \<leftarrow> files fileName; topKFrequent (count_words txt) K }"

fun workers :: "(string \<Rightarrow> string option) \<Rightarrow> int \<Rightarrow> string list \<Rightarrow> pair list list option" where
  "workers files K [] = Some []"
| "workers files K (f # fs) = do { r \<leftarrow> worker files K f; rs \<leftarrow> workers files K fs; Some (r # rs) }"

definition merge_results :: "pair list list \<Rightarrow> node list" where
  "merge_results results =
     fold (\<lambda>(w, f) ns. insert_list ns w (int (length w)) f) (concat results) [dummy_head]"

definition output_line :: "pair \<Rightarrow> string" where
  "output_line p = fst p @ '' '' @ print_int (snd p) @ [CHR 0x0A]"

text \<open>\<open>argv\<close> holds the program, \<open>K\<close>, the output file, \<open>N\<close> and the \<open>N\<close> input files.\<close>

definition threadtopk_results :: "(string \<Rightarrow> string option) \<Rightarrow> int \<Rightarrow> string list \<Rightarrow> pair list option" where
  "threadtopk_results files K names =
     do { results \<leftarrow> workers files K names; topKFrequent (merge_results results) K }"

definition threadtopk_main :: "(string \<Rightarrow> string option) \<Rightarrow> string list \<Rightarrow> (string \<times> string) option" where
  "threadtopk_main files argv =
     (if length argv < 4 then None
      else let K = atoi (argv ! 1); outfile = argv ! 2; N = nat (atoi (argv ! 3))
           in if length argv < N + 4 then None
              else do { res \<leftarrow> threadtopk_results files K (take N (drop 4 argv));
                        Some (outfile, concat (map output_line res)) })"

subsection \<open>Ranks\<close>

text \<open>The order of the output: by count, the larger first, then by word.\<close>

definition rank_le :: "int \<times> string \<Rightarrow> int \<times> string \<Rightarrow> bool" where
  "rank_le a b \<longleftrightarrow> fst b < fst a \<or> fst a = fst b \<and> compare (snd a) (snd b) \<le> 0"

lemma c_string_cut [simp]: "c_string (cut s)"
  by (auto simp: c_string_def cut_def dest: set_takeWhileD)

lemma cut_id: "c_string s \<Longrightarrow> cut s = s"
  by (auto simp: c_string_def cut_def takeWhile_eq_all_conv)

lemma compare_0: "c_string s \<Longrightarrow> c_string t \<Longrightarrow> compare s t = 0 \<longleftrightarrow> s = t"
  by (simp add: compare_def cut_id)

lemma compare_sym: "compare t s = - compare s t"
  unfolding compare_def by (rule strcmp_sym)

lemma compare_trans: "compare r s \<le> 0 \<Longrightarrow> compare s t \<le> 0 \<Longrightarrow> compare r t \<le> 0"
  unfolding compare_def by (rule strcmp_trans) simp_all

interpretation word_order: exchange "\<lambda>n. (freq n, word n)" out_of_order swap_nodes rank_le
proof unfold_locales
  fix a b :: node
  show "out_of_order a b \<longleftrightarrow> \<not> rank_le (freq a, word a) (freq b, word b)"
    by (auto simp: out_of_order_def rank_le_def)
  show "(freq (fst (swap_nodes a b)), word (fst (swap_nodes a b))) = (freq b, word b)"
    and "(freq (snd (swap_nodes a b)), word (snd (swap_nodes a b))) = (freq a, word a)"
    by (simp_all add: swap_nodes_def)
next
  fix x y z :: "int \<times> string"
  show "rank_le x y \<or> rank_le y x"
    using compare_sym [of "snd x" "snd y"] by (auto simp: rank_le_def)
  show "rank_le x y \<Longrightarrow> rank_le y z \<Longrightarrow> rank_le x z"
    using compare_trans by (auto simp: rank_le_def)
qed

end
