(* ===== verification/TopKProperties.thy ===== *)
theory TopKProperties
  imports TopK "HOL-Library.Multiset"
begin

text \<open>
  The word counters count and rank correctly: the list built by \<open>insert\<close> holds every word once
  with the sum of its increments, \<open>topKFrequent\<close> returns the first \<open>K\<close> in the order of rank, and
  merging the results of the files is right as long as no file has more than \<open>K\<close> different
  words, and can be wrong otherwise.
\<close>

subsection \<open>Counting\<close>

definition weight :: "pair list \<Rightarrow> string \<Rightarrow> int" where
  "weight ps w = sum_list (map snd (filter (\<lambda>p. fst p = w) ps))"

text \<open>The list after the increments \<open>ps\<close>.\<close>

definition counted :: "node list \<Rightarrow> pair list \<Rightarrow> bool" where
  "counted ns ps \<longleftrightarrow> distinct (map word ns) \<and> set (map word ns) = set (map fst ps) \<and>
     (\<forall>n\<in>set ns. freq n = weight ps (word n))"

definition plain_word :: "string \<Rightarrow> bool" where
  "plain_word w \<longleftrightarrow> c_string w \<and> w \<noteq> []"

lemma insert_word_spec:
  assumes "plain_word w" and "\<forall>n\<in>set ns. plain_word (word n)" and "distinct (map word ns)"
    and "c_string (word cur)" and "word cur \<noteq> w"
  shows "insert_word cur ns w l f = cur #
    (if w \<in> set (map word ns) then map (\<lambda>n. if word n = w then n\<lparr>freq := freq n + f\<rparr> else n) ns
     else ns @ [\<lparr>word = w, freq = f, len = l\<rparr>])"
  using assms
proof (induction ns arbitrary: cur)
  case Nil
  then show ?case by (simp add: compare_0 plain_word_def)
next
  case (Cons n ns)
  have n: "c_string (word n)" "c_string w" using Cons.prems by (simp_all add: plain_word_def)
  show ?case
  proof (cases "word n = w")
    case True
    then have "w \<notin> word ` set ns" using Cons.prems(3) by simp
    then have "word m \<noteq> w" if "m \<in> set ns" for m using that by (metis imageI)
    then have "map (\<lambda>n. if word n = w then n\<lparr>freq := freq n + f\<rparr> else n) ns = ns" by (intro map_idI) auto
    then show ?thesis using True n by (simp add: compare_0)
  next
    case False
    then show ?thesis using Cons n by (simp add: compare_0)
  qed
qed

lemma weight_snoc: "weight (ps @ [(w, f)]) v = weight ps v + (if v = w then f else 0)"
  by (simp add: weight_def)

lemma weight_absent: "w \<notin> set (map fst ps) \<Longrightarrow> weight ps w = 0"
proof -
  assume "w \<notin> set (map fst ps)"
  then have "filter (\<lambda>p. fst p = w) ps = []" by (auto simp: filter_empty_conv)
  then show ?thesis by (simp add: weight_def)
qed

lemma insert_counted:
  assumes "counted ns ps" and "\<forall>p\<in>set ps. plain_word (fst p)" and "plain_word w"
  shows "\<exists>ns'. insert_list (dummy_head # ns) w l f = dummy_head # ns' \<and> counted ns' (ps @ [(w, f)])"
proof -
  have words: "set (map word ns) = fst ` set ps" using assms(1) by (simp add: counted_def)
  then have plain: "\<forall>n\<in>set ns. plain_word (word n)"
    using assms(2) by (metis (no_types, lifting) image_eqI imageE list.set_map)
  let ?ns = "if w \<in> set (map word ns) then map (\<lambda>n. if word n = w then n\<lparr>freq := freq n + f\<rparr> else n) ns
     else ns @ [\<lparr>word = w, freq = f, len = l\<rparr>]"
  have ins: "insert_list (dummy_head # ns) w l f = dummy_head # ?ns"
    unfolding insert_list_def list.sel
    by (rule insert_word_spec [OF assms(3) plain])
      (use assms(1,3) in \<open>auto simp add: counted_def dummy_head_def plain_word_def\<close>)
  have same: "map word (map (\<lambda>n. if word n = w then n\<lparr>freq := freq n + f\<rparr> else n) ns) = map word ns"
    by simp
  have "counted ?ns (ps @ [(w, f)])"
  proof (cases "w \<in> set (map word ns)")
    case True
    then show ?thesis using assms(1) words
      unfolding counted_def if_P [OF True] same
      by (auto simp: weight_snoc)
  next
    case False
    then have "weight ps w = 0" using words by (intro weight_absent) simp
    then show ?thesis using assms(1) words False
      unfolding counted_def if_not_P [OF False] by (auto simp: weight_snoc)
  qed
  then show ?thesis using ins by blast
qed

lemma fold_counted:
  assumes "\<forall>p\<in>set qs. plain_word (fst p)" and "\<forall>p\<in>set ps. plain_word (fst p)" and "counted ns ps"
  shows "\<exists>ns'. fold (\<lambda>p ns. insert_list ns (fst p) (l p) (snd p)) qs (dummy_head # ns) = dummy_head # ns' \<and>
    counted ns' (ps @ qs)"
  using assms
proof (induction qs arbitrary: ps ns)
  case Nil
  then show ?case by simp
next
  case (Cons q qs)
  obtain ns1 where n1: "insert_list (dummy_head # ns) (fst q) (l q) (snd q) = dummy_head # ns1"
    "counted ns1 (ps @ [q])"
    using insert_counted [OF Cons.prems(3,2), of "fst q" "l q" "snd q"] Cons.prems(1) by auto
  have "\<forall>p\<in>set (ps @ [q]). plain_word (fst p)" using Cons.prems(1,2) by auto
  then show ?case using Cons.IH [OF _ _ n1(2)] Cons.prems(1) n1(1) by auto
qed

subsection \<open>Ranking\<close>

text \<open>\<open>res\<close> are the \<open>k\<close> first of the words of \<open>ps\<close> in the order of rank, with their weights.\<close>

definition ranks_before :: "pair \<Rightarrow> pair \<Rightarrow> bool" where
  "ranks_before p q \<longleftrightarrow> snd q < snd p \<or> snd p = snd q \<and> compare (fst p) (fst q) < 0"

definition top_words :: "nat \<Rightarrow> pair list \<Rightarrow> pair list \<Rightarrow> bool" where
  "top_words k ps res \<longleftrightarrow> length res = min k (card (set (map fst ps))) \<and> sorted_wrt ranks_before res \<and>
     (\<forall>p\<in>set res. fst p \<in> set (map fst ps) \<and> snd p = weight ps (fst p)) \<and>
     (\<forall>w\<in>set (map fst ps) - set (map fst res). \<forall>p\<in>set res. ranks_before p (w, weight ps w))"

lemma in_take_or_drop: "x \<in> set xs \<Longrightarrow> x \<in> set (take k xs) \<or> x \<in> set (drop k xs)"
  using set_append [of "take k xs" "drop k xs"] unfolding append_take_drop_id by blast

lemma distinct_pairwise: "distinct (map f xs) \<Longrightarrow> sorted_wrt (\<lambda>a b. f a \<noteq> f b) xs"
proof (induction xs)
  case (Cons x xs)
  have "f x \<noteq> f y" if "y \<in> set xs" for y
  proof
    assume "f x = f y"
    then have "f x \<in> f ` set xs" using that by simp
    then show False using Cons.prems by simp
  qed
  then show ?case using Cons by simp
qed simp

lemma topK_counted:
  assumes "counted ns ps" and "ps \<noteq> []" and "\<forall>p\<in>set ps. plain_word (fst p)"
  shows "\<exists>res. topKFrequent (dummy_head # ns) k = Some res \<and> top_words (nat k) ps res"
proof -
  let ?key = "\<lambda>n. (freq n, word n)"
  let ?pair = "\<lambda>n. (word n, freq n)"
  let ?s = "exch_sort out_of_order swap_nodes ns"
  have words: "set (map word ns) = set (map fst ps)" using assms(1) by (simp add: counted_def)
  then have ne: "ns \<noteq> []" using assms(2) by auto
  have ms: "mset (map ?key ?s) = mset (map ?key ns)" by (rule word_order.sort_mset)
  have "mset (map snd (map ?key ?s)) = mset (map snd (map ?key ns))"
    using ms by (metis mset_map)
  then have mw: "mset (map word ?s) = mset (map word ns)" by (simp add: comp_def)
  have d: "distinct (map word ?s)" using mset_eq_imp_distinct_iff [OF mw] assms(1) by (simp only: counted_def)
  have sw: "set (map word ?s) = set (map fst ps)" using mset_eq_setD [OF mw] words by simp
  have fr: "freq n = weight ps (word n)" if "n \<in> set ?s" for n
  proof -
    have "?key n \<in> ?key ` set ns" using that mset_eq_setD [OF ms] by auto
    then show ?thesis using assms(1) by (auto simp: counted_def)
  qed
  have plain: "c_string (word n)" if "n \<in> set ?s" for n
  proof -
    have "word n \<in> set (map word ?s)" using that by simp
    then have "word n \<in> set (map fst ps)" unfolding sw .
    then show ?thesis using assms(3) by (auto simp: plain_word_def)
  qed
  have "sorted_wrt (\<lambda>a b. rank_le (?key a) (?key b)) ?s" by (rule word_order.sort_sorted)
  moreover have "sorted_wrt (\<lambda>a b. word a \<noteq> word b) ?s"
    by (rule distinct_pairwise [OF d])
  ultimately have "sorted_wrt (\<lambda>a b. rank_le (?key a) (?key b) \<and> word a \<noteq> word b) ?s"
    by (simp add: sorted_wrt_iff_nth_less)
  then have srt: "sorted_wrt (\<lambda>a b. ranks_before (?pair a) (?pair b)) ?s"
    by (rule sorted_wrt_mono_rel [rotated]) (use plain compare_0 in \<open>force simp: rank_le_def ranks_before_def\<close>)
  let ?res = "map ?pair (take (nat k) ?s)"
  have len: "length ?s = card (set (map fst ps))"
    using distinct_card [OF d] sw by simp
  have rest: "ranks_before p (w, weight ps w)"
    if w: "w \<in> set (map fst ps) - set (map fst ?res)" and p: "p \<in> set ?res" for w p
  proof -
    have "w \<in> set (map word ?s)" using w unfolding sw by blast
    then obtain n where n: "n \<in> set ?s" "word n = w" by auto
    have "n \<notin> set (take (nat k) ?s)"
    proof
      assume "n \<in> set (take (nat k) ?s)"
      then have "fst (?pair n) \<in> set (map fst ?res)" unfolding list.set_map by (intro imageI)
      then show False using w n(2) by simp
    qed
    then have n2: "n \<in> set (drop (nat k) ?s)" using in_take_or_drop [OF n(1), of "nat k"] by satx
    obtain m where m: "m \<in> set (take (nat k) ?s)" "p = ?pair m" using p by auto
    have "ranks_before (?pair m) (?pair n)"
      using srt m(1) n2 sorted_wrt_append [of "\<lambda>a b. ranks_before (?pair a) (?pair b)" "take (nat k) ?s" "drop (nat k) ?s"]
      by simp
    then show ?thesis using m(2) n fr by simp
  qed
  have "top_words (nat k) ps ?res"
    unfolding top_words_def
  proof (intro conjI ballI)
    show "length ?res = min (nat k) (card (set (map fst ps)))" using len by (simp add: min.commute)
    show "sorted_wrt ranks_before ?res" using sorted_wrt_take [OF srt] by (simp add: sorted_wrt_map)
  next
    fix p assume "p \<in> set ?res"
    then obtain n where "n \<in> set ?s" "p = ?pair n" by (auto dest: in_set_takeD)
    then show "fst p \<in> set (map fst ps)" "snd p = weight ps (fst p)" using sw fr by auto
  qed (rule rest)
  moreover have "topKFrequent (dummy_head # ns) k = Some ?res"
    using ne by (cases ns) (simp_all add: topKFrequent_def sort_list_def)
  ultimately show ?thesis by blast
qed

subsection \<open>One file\<close>

lemma token_chars: "\<forall>w\<in>set (tokens buf). set w \<subseteq> set buf"
proof (induction buf rule: tokens.induct)
  case (1 buf)
  let ?s = "dropWhile is_delim buf"
  have s: "set ?s \<subseteq> set buf" by (auto dest: set_dropWhileD)
  show ?case
  proof (cases "?s = []")
    case False
    have "set (takeWhile (\<lambda>c. \<not> is_delim c) ?s) \<subseteq> set ?s" "set (dropWhile (\<lambda>c. \<not> is_delim c) ?s) \<subseteq> set ?s"
      by (auto dest: set_takeWhileD set_dropWhileD)
    then have sub: "set (takeWhile (\<lambda>c. \<not> is_delim c) ?s) \<subseteq> set buf"
      "set (dropWhile (\<lambda>c. \<not> is_delim c) ?s) \<subseteq> set buf" using s by blast+
    have "tokens buf = takeWhile (\<lambda>c. \<not> is_delim c) ?s # tokens (dropWhile (\<lambda>c. \<not> is_delim c) ?s)"
      using False by (subst tokens.simps) (simp add: Let_def)
    then show ?thesis using 1 [OF refl False] sub by (simp del: dropWhile_eq_Nil_conv) blast
  qed (simp add: tokens.simps)
qed

definition file_words :: "string \<Rightarrow> string list" where
  "file_words buf = map uppercase (strtok_all buf)"

lemma ordc_char_of: "0 \<le> v \<Longrightarrow> v < 256 \<Longrightarrow> ordc (char_of (nat v)) = v"
  by (simp add: ordc_def nat_less_iff)

lemma toupper_not_nul: "c \<noteq> CHR 0x00 \<Longrightarrow> islower c \<Longrightarrow> toupper c \<noteq> CHR 0x00"
proof
  assume c: "islower c" "toupper c = CHR 0x00"
  have "ordc (toupper c) = ordc c - 32"
    using c(1) unfolding toupper_def by (simp add: islower_def ordc_char_of)
  moreover have "ordc (CHR 0x00) = 0" by (simp add: ordc_def)
  ultimately show False using c by (simp add: islower_def)
qed

lemma file_words_plain: "\<forall>w\<in>set (file_words buf). plain_word w"
proof
  fix w assume "w \<in> set (file_words buf)"
  then obtain t where t: "t \<in> set (strtok_all buf)" "w = uppercase t" by (auto simp: file_words_def)
  have "is_word t" using t(1) tokens_are_words unfolding strtok_all_def by blast
  then have "t \<noteq> []" by (simp add: is_word_def)
  moreover have "c \<noteq> CHR 0x00" if "c \<in> set t" for c
  proof -
    have "c \<in> set (takeWhile (\<lambda>c. c \<noteq> CHR 0x00) buf)"
      using t(1) that token_chars unfolding strtok_all_def by blast
    then show ?thesis by (rule conjunct2 [OF set_takeWhileD])
  qed
  then have "(if islower c then toupper c else c) \<noteq> CHR 0x00" if "c \<in> set t" for c
    using toupper_not_nul that by simp
  then have "c \<noteq> CHR 0x00" if "c \<in> set (uppercase t)" for c
    using that unfolding uppercase_def list.set_map by (elim imageE) simp
  then have "CHR 0x00 \<notin> set (uppercase t)" by blast
  ultimately show "plain_word w" unfolding t(2) plain_word_def c_string_def by (simp add: uppercase_def)
qed

text \<open>What a correct program returns for the words \<open>ws\<close>: the \<open>k\<close> most frequent, or all, with
  their counts, in the order of rank.\<close>

definition top_count :: "nat \<Rightarrow> string list \<Rightarrow> pair list \<Rightarrow> bool" where
  "top_count k ws res \<longleftrightarrow> length res = min k (card (set ws)) \<and> sorted_wrt ranks_before res \<and>
     (\<forall>p\<in>set res. fst p \<in> set ws \<and> snd p = int (count_list ws (fst p))) \<and>
     (\<forall>w\<in>set ws - set (map fst res). \<forall>p\<in>set res. ranks_before p (w, int (count_list ws w)))"

lemma top_words_count:
  assumes "set (map fst ps) = set ws" and "\<And>w. weight ps w = int (count_list ws w)"
  shows "top_words k ps res = top_count k ws res"
  unfolding top_words_def top_count_def assms ..

lemma weight_ones: "weight (map (\<lambda>w. (w, 1)) ws) w = int (count_list ws w)"
  by (induction ws) (auto simp: weight_def)

lemma count_words_counted:
  "\<exists>ns. count_words buf = dummy_head # ns \<and> counted ns (map (\<lambda>w. (w, 1)) (file_words buf))"
proof -
  have "counted [] []" by (simp add: counted_def)
  from fold_counted [OF _ _ this, of "map (\<lambda>w. (w, 1)) (file_words buf)" "\<lambda>p. int (length (fst p))"]
  obtain ns where "fold (\<lambda>p ns. insert_list ns (fst p) (int (length (fst p))) (snd p))
      (map (\<lambda>w. (w, 1)) (file_words buf)) [dummy_head] = dummy_head # ns"
    "counted ns (map (\<lambda>w. (w, 1)) (file_words buf))"
    using file_words_plain by auto
  then show ?thesis
    by (simp add: count_words_def file_words_def fold_map comp_def uppercase_def)
qed

lemma worker_result:
  assumes "files f = Some buf" and "strtok_all buf \<noteq> []"
  shows "\<exists>res. worker files K f = Some res \<and> top_count (nat K) (file_words buf) res"
proof -
  let ?ps = "map (\<lambda>w. (w, 1)) (file_words buf)"
  obtain ns where ns: "count_words buf = dummy_head # ns" "counted ns ?ps" using count_words_counted by blast
  have "?ps \<noteq> []" "\<forall>p\<in>set ?ps. plain_word (fst p)"
    using assms(2) file_words_plain by (auto simp: file_words_def)
  from topK_counted [OF ns(2) this, of K]
  obtain res where "topKFrequent (dummy_head # ns) K = Some res" "top_words (nat K) ?ps res" by blast
  moreover have "set (map fst ?ps) = set (file_words buf)" by (simp add: image_image)
  ultimately show ?thesis
    using assms(1) ns(1) by (simp add: worker_def top_words_count weight_ones)
qed

text \<open>For a file with at least one word, a thread returns the \<open>K\<close> most frequent words, upper case, or
  all of them if there are fewer, each with the number of its occurrences, in the order of the
  counts and, for equal counts, of the words.\<close>

theorem worker_top_k:
  assumes "files f = Some buf" and "strtok_all buf \<noteq> []" and "ws = map uppercase (strtok_all buf)"
  shows "\<exists>res. worker files K f = Some res \<and> length res = min (nat K) (card (set ws)) \<and>
    sorted_wrt ranks_before res \<and> (\<forall>p\<in>set res. fst p \<in> set ws \<and> snd p = int (count_list ws (fst p))) \<and>
    (\<forall>w\<in>set ws - set (map fst res). \<forall>p\<in>set res. ranks_before p (w, int (count_list ws w)))"
  using worker_result [of files f buf K, OF assms(1,2)] unfolding assms(3) top_count_def file_words_def .

definition demo_files :: "string \<Rightarrow> string option" where
  "demo_files f =
     (if f = ''x'' then Some ''cat dog Cat ant dog cat'' else if f = ''y'' then Some ''dog ant ANT eel'' else None)"

theorem worker_top_k_witness:
  "\<exists>res. worker demo_files 2 ''x'' = Some res \<and> length res = 2 \<and> sorted_wrt ranks_before res"
proof -
  have f: "demo_files ''x'' = Some ''cat dog Cat ant dog cat''" by (simp add: demo_files_def)
  have t: "strtok_all ''cat dog Cat ant dog cat'' = [''cat'', ''dog'', ''Cat'', ''ant'', ''dog'', ''cat'']"
    by code_simp
  have u: "map uppercase [''cat'', ''dog'', ''Cat'', ''ant'', ''dog'', ''cat''] =
      [''CAT'', ''DOG'', ''CAT'', ''ANT'', ''DOG'', ''CAT'']"
    by code_simp
  have "strtok_all ''cat dog Cat ant dog cat'' \<noteq> []" by (simp add: t)
  from worker_top_k [of demo_files "''x''" _ _ 2, OF f this refl, unfolded t u]
  obtain res where r: "worker demo_files 2 ''x'' = Some res" "sorted_wrt ranks_before res"
    "length res = min (nat 2) (card (set [''CAT'', ''DOG'', ''CAT'', ''ANT'', ''DOG'', ''CAT'']))" by blast
  have "card (set [''CAT'', ''DOG'', ''CAT'', ''ANT'', ''DOG'', ''CAT'']) = 3" by code_simp
  then have "length res = 2" unfolding r(3) by (simp only:)
  then show ?thesis using r(1,2) by blast
qed

subsection \<open>Several files\<close>

lemma ranked_distinct:
  assumes "sorted_wrt ranks_before res" and "\<forall>p\<in>set res. snd p = n (fst p)"
  shows "distinct (map fst res)"
proof -
  have "sorted_wrt (\<lambda>p q. fst p \<noteq> fst q) res"
    by (rule sorted_wrt_mono_rel [OF _ assms(1)]) (use assms(2) in \<open>auto simp: ranks_before_def compare_def\<close>)
  then show ?thesis by (induction res) auto
qed

lemma weight_distinct:
  "distinct (map fst ps) \<Longrightarrow> p \<in> set ps \<Longrightarrow> weight ps (fst p) = snd p"
proof (induction ps)
  case (Cons q ps)
  have "weight (q # ps) v = (if fst q = v then snd q else 0) + weight ps v" for v
    by (simp add: weight_def)
  then show ?case using Cons weight_absent [of "fst q" ps] by (auto simp: image_iff)
qed simp

lemma top_count_complete:
  assumes "top_count k ws res" and "card (set ws) \<le> k"
  shows "set (map fst res) = set ws \<and> (\<forall>w. weight res w = int (count_list ws w))"
proof -
  have len: "length res = card (set ws)" using assms by (simp add: top_count_def)
  have cnt: "\<forall>p\<in>set res. fst p \<in> set ws \<and> snd p = int (count_list ws (fst p))"
    using assms(1) by (simp add: top_count_def)
  have d: "distinct (map fst res)" using assms(1) ranked_distinct [of res "\<lambda>w. int (count_list ws w)"]
    by (simp add: top_count_def)
  have sub: "set (map fst res) \<subseteq> set ws" using cnt by auto
  have "card (set (map fst res)) = card (set ws)" using distinct_card [OF d] len by simp
  then have eq: "set (map fst res) = set ws" using sub by (intro card_subset_eq) auto
  have "weight res w = int (count_list ws w)" for w
  proof (cases "w \<in> set ws")
    case True
    then have "w \<in> fst ` set res" using eq by simp
    then obtain p where "p \<in> set res" "fst p = w" by blast
    then have "weight res w = snd p" "snd p = int (count_list ws w)" using weight_distinct [OF d] cnt by blast+
    then show ?thesis by simp
  next
    case False
    then show ?thesis using weight_absent eq by (simp add: count_list_0_iff)
  qed
  then show ?thesis using eq by blast
qed

definition all_words :: "(string \<Rightarrow> string option) \<Rightarrow> string list \<Rightarrow> string list" where
  "all_words files names = concat (map (\<lambda>f. file_words (the (files f))) names)"

definition few_words :: "(string \<Rightarrow> string option) \<Rightarrow> int \<Rightarrow> string \<Rightarrow> bool" where
  "few_words files K f =
     (case files f of None \<Rightarrow> False
      | Some buf \<Rightarrow> strtok_all buf \<noteq> [] \<and> card (set (file_words buf)) \<le> nat K)"

lemma weight_append: "weight (ps @ qs) w = weight ps w + weight qs w"
  by (simp add: weight_def)

lemma workers_result:
  "list_all (few_words files K) names \<Longrightarrow> \<exists>rs. workers files K names = Some rs \<and>
     set (map fst (concat rs)) = set (all_words files names) \<and>
     (\<forall>w. weight (concat rs) w = int (count_list (all_words files names) w))"
proof (induction names)
  case Nil
  then show ?case by (simp add: all_words_def weight_def)
next
  case (Cons f names)
  obtain buf where buf: "files f = Some buf" "strtok_all buf \<noteq> []" "card (set (file_words buf)) \<le> nat K"
    using Cons.prems by (auto simp: few_words_def split: option.splits)
  obtain r where r: "worker files K f = Some r" "top_count (nat K) (file_words buf) r"
    using worker_result [of files f buf K, OF buf(1,2)] by blast
  obtain rs where rs: "workers files K names = Some rs"
    "set (map fst (concat rs)) = set (all_words files names)"
    "\<forall>w. weight (concat rs) w = int (count_list (all_words files names) w)"
    using Cons by auto
  have "all_words files (f # names) = file_words buf @ all_words files names"
    using buf(1) by (simp add: all_words_def)
  then show ?case
    using top_count_complete [OF r(2) buf(3)] r(1) rs
    by (intro exI [of _ "r # rs"]) (simp add: weight_append image_Un)
qed

lemma threadtopk_few:
  assumes "names \<noteq> []" and "list_all (few_words files K) names" and "ws = all_words files names"
  shows "\<exists>res. threadtopk_results files K names = Some res \<and> top_count (nat K) ws res"
proof -
  obtain rs where rs: "workers files K names = Some rs" "set (map fst (concat rs)) = set ws"
    "\<And>w. weight (concat rs) w = int (count_list ws w)"
    using workers_result [OF assms(2)] unfolding assms(3) by blast
  have "\<forall>w\<in>set ws. plain_word w" using file_words_plain unfolding assms(3) all_words_def by auto
  then have "\<forall>w\<in>set (map fst (concat rs)). plain_word w" unfolding rs(2) .
  then have plain: "\<forall>p\<in>set (concat rs). plain_word (fst p)" unfolding list.set_map by blast
  have "counted [] []" by (simp add: counted_def)
  from fold_counted [OF plain _ this, of "\<lambda>p. int (length (fst p))"]
  obtain ns where ns: "merge_results rs = dummy_head # ns" "counted ns (concat rs)"
    unfolding merge_results_def case_prod_unfold by auto
  have "ws \<noteq> []"
    using assms(1,2) unfolding assms(3) by (cases names) (auto simp: all_words_def few_words_def file_words_def split: option.splits)
  then have ne: "concat rs \<noteq> []" using rs(2) by (metis list.map(1) set_empty)
  from topK_counted [OF ns(2) ne plain, of K]
  obtain res where "topKFrequent (merge_results rs) K = Some res" "top_count (nat K) ws res"
    unfolding ns(1) top_words_count [OF rs(2,3)] by blast
  then show ?thesis using rs(1) by (auto simp: threadtopk_results_def)
qed

text \<open>If no file has more than \<open>K\<close> different words (and each has one), the program's result for
  several files is right: the \<open>K\<close> most frequent words of all files together, with their total
  counts, in order.\<close>

theorem threadtopk_correct:
  assumes "names \<noteq> []" and "list_all (few_words files K) names" and "ws = all_words files names"
  shows "\<exists>res. threadtopk_results files K names = Some res \<and> length res = min (nat K) (card (set ws)) \<and>
    sorted_wrt ranks_before res \<and> (\<forall>p\<in>set res. fst p \<in> set ws \<and> snd p = int (count_list ws (fst p))) \<and>
    (\<forall>w\<in>set ws - set (map fst res). \<forall>p\<in>set res. ranks_before p (w, int (count_list ws w)))"
  using threadtopk_few [OF assms] unfolding top_count_def .

theorem threadtopk_correct_witness:
  "\<exists>res. threadtopk_results demo_files 3 [''x'', ''y''] = Some res \<and> length res = 3 \<and> sorted_wrt ranks_before res"
proof -
  have few: "list_all (few_words demo_files 3) [''x'', ''y'']" by code_simp
  have ws: "all_words demo_files [''x'', ''y''] =
      [''CAT'', ''DOG'', ''CAT'', ''ANT'', ''DOG'', ''CAT'', ''DOG'', ''ANT'', ''ANT'', ''EEL'']"
    by code_simp
  have "[''x'', ''y''] \<noteq> []" by simp
  from threadtopk_correct [OF this few refl, unfolded ws]
  obtain res where r: "threadtopk_results demo_files 3 [''x'', ''y''] = Some res" "sorted_wrt ranks_before res"
    "length res = min (nat 3) (card (set [''CAT'', ''DOG'', ''CAT'', ''ANT'', ''DOG'', ''CAT'', ''DOG'', ''ANT'', ''ANT'', ''EEL'']))"
    by blast
  have "card (set [''CAT'', ''DOG'', ''CAT'', ''ANT'', ''DOG'', ''CAT'', ''DOG'', ''ANT'', ''ANT'', ''EEL'']) = 4" by code_simp
  then have "length res = 3" unfolding r(3) by (simp only:)
  then show ?thesis using r(1,2) by blast
qed

text \<open>With a file that has more words the result can be wrong: of two files, the most frequent word
  of both together is lost when each thread reports its most frequent word only. A file that
  cannot be opened, or holds no word, crashes the program.\<close>

theorem threadtopk_merge_errors:
  "threadtopk_results (\<lambda>f. Some (if f = ''x'' then ''a a a b b'' else ''c c c b b'')) 1 [''x'', ''y'']
     = Some [(''A'', 3)] \<and>
   count_list (all_words (\<lambda>f. Some (if f = ''x'' then ''a a a b b'' else ''c c c b b'')) [''x'', ''y'']) ''B'' = 4 \<and>
   threadtopk_results demo_files 3 [''x'', ''z''] = None \<and>
   threadtopk_results (\<lambda>f. Some ''  '') 3 [''x''] = None"
  by code_simp

text \<open>\<open>topKFrequent\<close> allocates 8 bytes for each of the \<open>K\<close> pairs of 16 bytes: for a file with at
  least \<open>K\<close> different words it writes \<open>8 * K\<close> bytes past the end of its result.\<close>

theorem topk_overruns_result:
  assumes "files f = Some buf" and "0 < K" and "nat K \<le> card (set (file_words buf))"
  shows "\<exists>res. worker files K f = Some res \<and> res_written res = res_allocated K + 8 * K"
proof -
  have "strtok_all buf \<noteq> []" using assms(2,3) by (auto simp: file_words_def)
  from worker_result [of files f buf K, OF assms(1) this] obtain res
    where "worker files K f = Some res" "top_count (nat K) (file_words buf) res" by blast
  then show ?thesis using assms(2,3)
    by (intro exI [of _ res]) (simp add: top_count_def res_written_def res_allocated_def)
qed

theorem topk_overruns_result_witness:
  "\<exists>res. worker demo_files 2 ''x'' = Some res \<and> res_written res = 32 \<and> res_allocated 2 = 16"
proof -
  have f: "demo_files ''x'' = Some ''cat dog Cat ant dog cat''" by (simp add: demo_files_def)
  have "nat 2 \<le> card (set (file_words ''cat dog Cat ant dog cat''))" by code_simp
  from topk_overruns_result [of demo_files "''x''" _ 2, OF f _ this] show ?thesis by (auto simp: res_allocated_def)
qed

end
