(* ===== verification/TopKSpec.thy ===== *)
theory TopKSpec
  imports TopKProperties "HOL-Library.List_Lexorder"
begin

text \<open>
  An executable reference for the word counters: count every different word, sort by rank with
  the library's \<open>sort\<close>, take the first \<open>K\<close>. The order of rank is a linear order on the datatype
  \<open>rank\<close>; on C strings \<open>strcmp\<close> is the lexicographic order of the characters. The main program
  of \<open>threadtopk.c\<close> writes the lines of this reference.
\<close>

datatype rank = Rank (rank_count: int) (rank_word: string)

instantiation rank :: linorder
begin

definition less_eq_rank :: "rank \<Rightarrow> rank \<Rightarrow> bool" where
  "less_eq_rank r s \<longleftrightarrow>
     rank_count s < rank_count r \<or> rank_count r = rank_count s \<and> rank_word r \<le> rank_word s"

definition less_rank :: "rank \<Rightarrow> rank \<Rightarrow> bool" where
  "less_rank r s \<longleftrightarrow>
     rank_count s < rank_count r \<or> rank_count r = rank_count s \<and> rank_word r < rank_word s"

instance
  by standard (auto simp: less_eq_rank_def less_rank_def rank.expand)

end


subsection \<open>The order of \<open>strcmp\<close>\<close>




subsection \<open>The reference is the only correct result\<close>


subsection \<open>The programs\<close>









end
