(* ===== verification/ProcTopK.thy ===== *)
theory ProcTopK
  imports TopKSpec
begin

text \<open>
  The word counter with processes, \<open>p1/22002379-22003430/proctopk.c\<close>. The children write their
  results into a shared memory: the counter \<open>index\<close> of bytes in use, then one slot of 64 + 4 bytes
  for each pair.

  \<^item> A child reads the counter once, when it begins to write; from then on it moves its own pointer
    and only adds to the counter. One action of a child is that read, or the writing of one pair;
    a schedule is the sequence of the children that act.
  \<^item> The memory is fresh: a slot that no one wrote holds the empty word and the count 0. It has room
    for more than \<open>N * K\<close> slots.
  \<^item> \<open>memcpy\<close> copies 64 bytes whatever the length of the word. A word of 64 or more characters thus
    loses its end and its NUL, and the bytes of the count are read as part of it, at most four of
    them here.
  \<^item> A child that cannot open its file, or crashes on one without words, writes nothing.
\<close>

record shmem =
  index :: int
  slots :: "nat \<Rightarrow> pair"

datatype child = Ready "pair list" | Writing nat "pair list"

definition child_results :: "(string \<Rightarrow> string option) \<Rightarrow> int \<Rightarrow> string \<Rightarrow> pair list" where
  "child_results files K f = (case worker files K f of None \<Rightarrow> [] | Some res \<Rightarrow> res)"

definition shmem_start :: shmem where
  "shmem_start = \<lparr>index = 0, slots = \<lambda>_. ([], 0)\<rparr>"

definition MAX_STR :: int where "MAX_STR = 64"

text \<open>The count as a little-endian \<open>int\<close>, and a slot's word as a C string.\<close>

definition int_bytes :: "int \<Rightarrow> string" where
  "int_bytes f = map (\<lambda>k. char_of (nat (f div 256 ^ k mod 256))) [0..<4]"

definition slot_word :: "string \<Rightarrow> int \<Rightarrow> string" where
  "slot_word w f = (if int (length w) < MAX_STR then w else take (nat MAX_STR) w @ cut (int_bytes f))"

definition child_step :: "shmem \<Rightarrow> child \<Rightarrow> (shmem \<times> child) option" where
  "child_step m c =
     (case c of
        Ready ps \<Rightarrow> Some (m, Writing (nat (index m div (MAX_STR + 4))) ps)
      | Writing cur (p # ps) \<Rightarrow>
          Some (m\<lparr>index := index m + MAX_STR + 4,
                  slots := (slots m)(cur := (slot_word (fst p) (snd p), snd p))\<rparr>, Writing (Suc cur) ps)
      | Writing cur [] \<Rightarrow> None)"

fun children_run :: "shmem \<Rightarrow> child list \<Rightarrow> nat list \<Rightarrow> (shmem \<times> child list) option" where
  "children_run m cs [] = Some (m, cs)"
| "children_run m cs (i # is) =
     (if i < length cs then do { (m', c) \<leftarrow> child_step m (cs ! i); children_run m' (cs[i := c]) is } else None)"

definition child_done :: "child \<Rightarrow> bool" where
  "child_done c = (case c of Writing _ [] \<Rightarrow> True | _ \<Rightarrow> False)"

text \<open>The parent reads \<open>N * K\<close> slots, written or not.\<close>

definition merge_slots :: "int \<Rightarrow> nat \<Rightarrow> shmem \<Rightarrow> node list" where
  "merge_slots K N m =
     fold (\<lambda>s ns. insert_list ns (fst (slots m s)) (int (length (fst (slots m s)))) (snd (slots m s)))
       [0..<nat (int N * K)] [dummy_head]"

definition proctopk_results :: "(string \<Rightarrow> string option) \<Rightarrow> int \<Rightarrow> string list \<Rightarrow> nat list \<Rightarrow> pair list option" where
  "proctopk_results files K names schedule =
     do { (m, cs) \<leftarrow> children_run shmem_start (map (\<lambda>f. Ready (child_results files K f)) names) schedule;
          if list_all child_done cs then topKFrequent (merge_slots K (length names) m) K else None }"


subsection \<open>One child after the other\<close>

definition in_turn :: "int \<Rightarrow> nat \<Rightarrow> nat list" where
  "in_turn K N = concat (map (\<lambda>i. replicate (Suc (nat K)) i) [0..<N])"

definition filled :: "shmem \<Rightarrow> pair list \<Rightarrow> bool" where
  "filled m ps \<longleftrightarrow> index m = 68 * int (length ps) \<and> (\<forall>s<length ps. slots m s = ps ! s)"

lemma children_run_append:
  "children_run m cs (is @ js) = do { (m', cs') \<leftarrow> children_run m cs is; children_run m' cs' js }"
  by (induction m cs "is" rule: children_run.induct) (auto split: option.splits bind_splits)

lemma child_writes:
  assumes "i < length cs" and "cs ! i = Writing (length ps) qs" and "filled m ps"
    and "\<forall>q\<in>set qs. length (fst q) < 64"
  shows "\<exists>m'. children_run m cs (replicate (length qs) i) = Some (m', cs[i := Writing (length ps + length qs) []]) \<and>
    filled m' (ps @ qs)"
  using assms
proof (induction qs arbitrary: ps m cs)
  case Nil
  then show ?case using list_update_id [of cs i] by simp
next
  case (Cons q qs)
  let ?m = "m\<lparr>index := index m + MAX_STR + 4, slots := (slots m)(length ps := (slot_word (fst q) (snd q), snd q))\<rparr>"
  let ?cs = "cs[i := Writing (length (ps @ [q])) qs]"
  have w: "slot_word (fst q) (snd q) = fst q" using Cons.prems(4) by (simp add: slot_word_def MAX_STR_def)
  have "filled ?m (ps @ [q])" using Cons.prems(3) w by (auto simp: filled_def MAX_STR_def nth_append less_Suc_eq)
  moreover have "i < length ?cs" "?cs ! i = Writing (length (ps @ [q])) qs" using Cons.prems(1) by simp_all
  moreover have "\<forall>q\<in>set qs. length (fst q) < 64" using Cons.prems(4) by simp
  ultimately obtain m' where "children_run ?m ?cs (replicate (length qs) i) =
      Some (m', ?cs[i := Writing (length (ps @ [q]) + length qs) []])" "filled m' ((ps @ [q]) @ qs)"
    using Cons.IH [of ?cs "ps @ [q]" ?m] by blast
  then show ?case using Cons.prems(1,2) by (simp add: child_step_def)
qed

lemma child_turn:
  assumes "i < length cs" and "cs ! i = Ready qs" and "filled m ps" and "\<forall>q\<in>set qs. length (fst q) < 64"
  shows "\<exists>m' n. children_run m cs (replicate (Suc (length qs)) i) = Some (m', cs[i := Writing n []]) \<and>
    filled m' (ps @ qs)"
proof -
  let ?cs = "cs[i := Writing (length ps) qs]"
  have "child_step m (cs ! i) = Some (m, Writing (length ps) qs)"
    using assms(2,3) by (simp add: child_step_def filled_def MAX_STR_def)
  moreover have "i < length ?cs" "?cs ! i = Writing (length ps) qs" using assms(1) by simp_all
  ultimately show ?thesis
    using child_writes [OF _ _ assms(3,4), of i ?cs] assms(1) by auto
qed

lemma children_in_turn:
  assumes "\<forall>r\<in>set rs. length r = k \<and> (\<forall>q\<in>set r. length (fst q) < 64)" and "n \<le> length rs"
  shows "\<exists>m cs. children_run shmem_start (map Ready rs) (concat (map (\<lambda>i. replicate (Suc k) i) [0..<n])) = Some (m, cs) \<and>
    filled m (concat (take n rs)) \<and> length cs = length rs \<and>
    (\<forall>i<length rs. if i < n then child_done (cs ! i) else cs ! i = Ready (rs ! i))"
  using assms(2)
proof (induction n)
  case 0
  then show ?case by (simp add: filled_def shmem_start_def)
next
  case (Suc n)
  then obtain m cs where run: "children_run shmem_start (map Ready rs) (concat (map (\<lambda>i. replicate (Suc k) i) [0..<n])) = Some (m, cs)"
    "filled m (concat (take n rs))" "length cs = length rs"
    "\<forall>i<length rs. if i < n then child_done (cs ! i) else cs ! i = Ready (rs ! i)"
    by auto
  have n: "n < length cs" "cs ! n = Ready (rs ! n)" using Suc.prems run(3,4) by simp_all
  have "rs ! n \<in> set rs" using Suc.prems by simp
  then have r: "length (rs ! n) = k" "\<forall>q\<in>set (rs ! n). length (fst q) < 64" using assms(1) by blast+
  obtain m' l where m': "children_run m cs (replicate (Suc k) n) = Some (m', cs[n := Writing l []])"
    "filled m' (concat (take n rs) @ rs ! n)"
    using child_turn [OF n run(2) r(2)] r(1) by auto
  have "concat (take (Suc n) rs) = concat (take n rs) @ rs ! n"
    using Suc.prems by (simp add: take_Suc_conv_app_nth)
  moreover have "child_done (Writing l [])" by (simp add: child_done_def)
  then have "\<forall>i<length rs. if i < Suc n then child_done (cs[n := Writing l []] ! i)
      else cs[n := Writing l []] ! i = Ready (rs ! i)"
    using run(3,4) by (auto simp: nth_list_update less_Suc_eq)
  ultimately show ?case
    using run(1,3) m' by (intro exI [of _ m'] exI [of _ "cs[n := Writing l []]"])
      (simp add: children_run_append del: replicate.simps)
qed

lemma merge_filled:
  assumes "filled m ps" and "length ps = nat (int N * K)"
  shows "merge_slots K N m = fold (\<lambda>p ns. insert_list ns (fst p) (int (length (fst p))) (snd p)) ps [dummy_head]"
proof -
  have "map (slots m) [0..<length ps] = ps"
    using assms(1) by (intro nth_equalityI) (simp_all add: filled_def)
  then have "ps = map (slots m) [0..<nat (int N * K)]" using assms(2) by simp
  then show ?thesis unfolding merge_slots_def by (simp add: fold_map comp_def)
qed

definition fills_slots :: "(string \<Rightarrow> string option) \<Rightarrow> int \<Rightarrow> string \<Rightarrow> bool" where
  "fills_slots files K f =
     (case files f of None \<Rightarrow> False
      | Some buf \<Rightarrow> strtok_all buf \<noteq> [] \<and> nat K \<le> card (set (file_words buf)) \<and>
          list_all (\<lambda>w. length w < 64) (file_words buf))"

lemma fills_slots_result:
  assumes "fills_slots files K f"
  shows "\<exists>r. worker files K f = Some r \<and> length r = nat K \<and> (\<forall>q\<in>set r. length (fst q) < 64)"
proof -
  obtain buf where buf: "files f = Some buf" "strtok_all buf \<noteq> []" "nat K \<le> card (set (file_words buf))"
    "list_all (\<lambda>w. length w < 64) (file_words buf)"
    using assms by (auto simp: fills_slots_def split: option.splits)
  from worker_result [of files f buf K, OF buf(1,2)] buf(3,4) show ?thesis
    by (auto simp: top_count_def list_all_iff)
qed

lemma fills_slots_workers:
  "list_all (fills_slots files K) names \<Longrightarrow> \<exists>rs. workers files K names = Some rs \<and>
     rs = map (child_results files K) names \<and>
     (\<forall>r\<in>set rs. length r = nat K \<and> (\<forall>q\<in>set r. length (fst q) < 64))"
proof (induction names)
  case (Cons f names)
  obtain r where r: "worker files K f = Some r" "length r = nat K" "\<forall>q\<in>set r. length (fst q) < 64"
    using fills_slots_result [of files K f] Cons.prems by auto
  then show ?case using Cons by (auto simp: child_results_def)
qed simp

lemma proctopk_in_turn:
  assumes "list_all (fills_slots files K) names" and "0 \<le> K"
  shows "proctopk_results files K names (in_turn K (length names)) = threadtopk_results files K names"
proof -
  obtain rs where rs: "workers files K names = Some rs" "rs = map (child_results files K) names"
    "\<forall>r\<in>set rs. length r = nat K \<and> (\<forall>q\<in>set r. length (fst q) < 64)"
    using fills_slots_workers [OF assms(1)] by blast
  have len: "length rs = length names" using rs(2) by simp
  obtain m cs where run: "children_run shmem_start (map Ready rs) (in_turn K (length names)) = Some (m, cs)"
    "filled m (concat (take (length names) rs))" "length cs = length rs"
    "\<forall>i<length rs. if i < length names then child_done (cs ! i) else cs ! i = Ready (rs ! i)"
    using children_in_turn [OF rs(3) eq_refl [OF len [symmetric]]] unfolding in_turn_def by blast
  have "list_all child_done cs" using run(3,4) len by (simp add: list_all_length)
  moreover have "map (\<lambda>f. Ready (child_results files K f)) names = map Ready rs" using rs(2) by simp
  moreover have "filled m (concat rs)" using run(2) len by simp
  moreover have "length (concat rs) = nat (int (length names) * K)"
  proof -
    have "map length rs = map (\<lambda>_. nat K) rs" using rs(3) by simp
    then have "length (concat rs) = length names * nat K"
      unfolding length_concat len [symmetric] by (simp add: map_replicate_const sum_list_replicate)
    then show ?thesis using assms(2) by (simp add: nat_mult_distrib)
  qed
  ultimately show ?thesis
    using run(1) rs(1) merge_filled [of m "concat rs" "length names" K]
    by (simp add: proctopk_results_def threadtopk_results_def merge_results_def case_prod_unfold)
qed

text \<open>If the children write one after the other and each fills its \<open>K\<close> slots with words of less than
  64 characters, the program with processes computes what the program with threads computes.\<close>

theorem proctopk_is_threadtopk:
  assumes "list_all (fills_slots files K) names" and "0 \<le> K"
  shows "proctopk_results files K names (in_turn K (length names)) = threadtopk_results files K names"
  using assms by (rule proctopk_in_turn)

theorem proctopk_is_threadtopk_witness:
  "proctopk_results demo_files 2 [''x'', ''y''] [0, 0, 0, 1, 1, 1] = threadtopk_results demo_files 2 [''x'', ''y'']"
proof -
  have fills: "list_all (fills_slots demo_files 2) [''x'', ''y'']" by code_simp
  have "in_turn 2 (length [''x'', ''y'']) = [0, 0, 0, 1, 1, 1]" by code_simp
  then show ?thesis using proctopk_is_threadtopk [OF fills] by simp
qed



subsection \<open>Races and empty slots\<close>

text \<open>Nothing orders the children: when both have read the counter before either writes, the second
  overwrites the results of the first. And a file with fewer than \<open>K\<close> words leaves slots that are
  read as an empty word, which then is reported with the count 0.\<close>

theorem proctopk_race:
  "proctopk_results demo_files 2 [''x'', ''y''] [0, 1, 0, 0, 1, 1] = Some [(''ANT'', 2), (''DOG'', 1)] \<and>
   threadtopk_results demo_files 2 [''x'', ''y''] = Some [(''CAT'', 3), (''DOG'', 3)] \<and>
   proctopk_results (\<lambda>f. Some ''one'') 3 [''x''] [0, 0] = Some [(''ONE'', 1), ([], 0)]"
  by code_simp

end
